(* ===== verification/Prelude.thy ===== *)
theory Prelude
  imports Main "HOL-Library.Word"
begin

text \<open>
  Shared vocabulary of the development.

  \<^item> The machine integers of the Rust sources are words of the source's width. The model is
    the shipped \<^verbatim>\<open>production\<close> profile of \<^verbatim>\<open>src/windows/Cargo.toml\<close>, which turns
    \<^verbatim>\<open>overflow-checks\<close> off: a plain \<open>+\<close>, \<open>-\<close> or \<open>*\<close> wraps, exactly as it does on words.
    Rust's explicit variants (\<^verbatim>\<open>saturating_add\<close>, \<^verbatim>\<open>checked_mul\<close>, \<^verbatim>\<open>div_ceil\<close>, ...) are
    defined here once, with the lemma that reads each as natural-number arithmetic.
  \<^item> \<open>usize\<close> values that count elements of an in-memory slice are natural numbers.
  \<^item> \<open>reach\<close> is reachability under a step relation, and the locale \<open>step_invariant\<close> is the
    contract every state machine of the development discharges.
  \<^item> \<open>cover_tracker\<close> is the contract of the dirty-region trackers: a tracker may over-cover
    what was written, never under-cover it.
\<close>

unbundle bit_operations_syntax

type_synonym u8 = "8 word"
type_synonym u16 = "16 word"
type_synonym u32 = "32 word"
type_synonym u64 = "64 word"

named_theorems rust_unat \<open>Rust integer operations read as natural-number arithmetic\<close>

section \<open>Rust's integer operations on words\<close>

definition sat_add :: "'a::len word \<Rightarrow> 'a word \<Rightarrow> 'a word" where
  "sat_add a b = (if unat a + unat b < 2 ^ LENGTH('a) then a + b else - 1)"

definition sat_sub :: "'a::len word \<Rightarrow> 'a word \<Rightarrow> 'a word" where
  "sat_sub a b = (if a < b then 0 else a - b)"

definition sat_mul :: "'a::len word \<Rightarrow> 'a word \<Rightarrow> 'a word" where
  "sat_mul a b = (if unat a * unat b < 2 ^ LENGTH('a) then a * b else - 1)"

definition checked_add :: "'a::len word \<Rightarrow> 'a word \<Rightarrow> 'a word option" where
  "checked_add a b = (if unat a + unat b < 2 ^ LENGTH('a) then Some (a + b) else None)"

definition checked_mul :: "'a::len word \<Rightarrow> 'a word \<Rightarrow> 'a word option" where
  "checked_mul a b = (if unat a * unat b < 2 ^ LENGTH('a) then Some (a * b) else None)"

text \<open>\<^verbatim>\<open>div_ceil\<close>: the quotient, one more when the division leaves a remainder.\<close>

definition div_ceil :: "'a::len word \<Rightarrow> 'a word \<Rightarrow> 'a word" where
  "div_ceil a b = (if a mod b = 0 then a div b else a div b + 1)"

text \<open>\<^verbatim>\<open>is_multiple_of\<close>: only zero is a multiple of zero, as \<open>a mod 0 = a\<close> gives.\<close>

definition is_multiple_of :: "'a::len word \<Rightarrow> 'a word \<Rightarrow> bool" where
  "is_multiple_of a b \<longleftrightarrow> a mod b = 0"

definition next_multiple_of :: "'a::len word \<Rightarrow> 'a word \<Rightarrow> 'a word" where
  "next_multiple_of a b = (if a mod b = 0 then a else a + (b - a mod b))"

lemma unat_lt_len: "unat (a :: 'a::len word) < 2 ^ LENGTH('a)"
  by (rule unsigned_less)

lemma u32_bound: "unat (a :: u32) < 4294967296"
  using unat_lt_len [of a] by simp

lemma unat_min: "unat (min a b :: 'a::len word) = min (unat a) (unat b)"
  by (auto simp: min_def word_le_nat_alt)

lemma unat_max: "unat (max a b :: 'a::len word) = max (unat a) (unat b)"
  by (auto simp: max_def word_le_nat_alt)

lemma unat_max_word [rust_unat]: "unat (- 1 :: 'a::len word) = 2 ^ LENGTH('a) - 1"
  by (simp add: unsigned_minus_1_eq_mask mask_eq_exp_minus_1)

lemma unat_add_no_overflow:
  "unat a + unat b < 2 ^ LENGTH('a) \<Longrightarrow> unat (a + b :: 'a::len word) = unat a + unat b"
  by (simp add: unat_word_ariths)

lemma unat_mul_no_overflow:
  "unat a * unat b < 2 ^ LENGTH('a) \<Longrightarrow> unat (a * b :: 'a::len word) = unat a * unat b"
  by (simp add: unat_word_ariths)

lemma unat_sub_le: "b \<le> a \<Longrightarrow> unat (a - b :: 'a::len word) = unat a - unat b"
  by (rule unat_sub)

lemma unat_sat_add [rust_unat]:
  "unat (sat_add a b :: 'a::len word) = min (unat a + unat b) (2 ^ LENGTH('a) - 1)"
  by (auto simp: sat_add_def unat_add_no_overflow unat_max_word)

lemma unat_sat_sub [rust_unat]: "unat (sat_sub a b :: 'a::len word) = unat a - unat b"
  by (auto simp: sat_sub_def unat_sub_le word_less_nat_alt not_less word_le_nat_alt)

lemma unat_sat_mul [rust_unat]:
  "unat (sat_mul a b :: 'a::len word) = min (unat a * unat b) (2 ^ LENGTH('a) - 1)"
  by (auto simp: sat_mul_def unat_mul_no_overflow unat_max_word)

lemma checked_add_Some [rust_unat]:
  "checked_add a b = Some c \<longleftrightarrow>
     unat a + unat b < 2 ^ LENGTH('a) \<and> unat (c :: 'a::len word) = unat a + unat b"
  by (auto simp: checked_add_def unat_add_no_overflow intro: word_unat_eq_iff [THEN iffD2])

lemma checked_mul_Some [rust_unat]:
  "checked_mul a b = Some c \<longleftrightarrow>
     unat a * unat b < 2 ^ LENGTH('a) \<and> unat (c :: 'a::len word) = unat a * unat b"
  by (auto simp: checked_mul_def unat_mul_no_overflow intro: word_unat_eq_iff [THEN iffD2])

lemma unat_div_ceil [rust_unat]:
  fixes a b :: "'a::len word"
  shows "unat (div_ceil a b) =
    (if unat a mod unat b = 0 then unat a div unat b else Suc (unat a div unat b))"
proof -
  have z: "a mod b = 0 \<longleftrightarrow> unat a mod unat b = 0"
    by (metis unat_eq_zero unat_mod)
  show ?thesis
  proof (cases "unat a mod unat b = 0")
    case True
    then show ?thesis by (simp add: div_ceil_def z unat_div)
  next
    case False
    then have "unat b \<noteq> 1" by auto
    have "unat a div unat b < unat a \<or> unat b = 0"
      using False \<open>unat b \<noteq> 1\<close> by (cases "unat b") (auto intro!: div_less_dividend gr0I)
    then have "unat a div unat b + 1 < 2 ^ LENGTH('a)"
      using unat_lt_len [of a] False by (auto simp: less_eq_Suc_le)
    then have "unat (a div b + 1) = Suc (unat a div unat b)"
      by (simp add: unat_add_no_overflow unat_div)
    with False show ?thesis by (simp add: div_ceil_def z)
  qed
qed

lemma is_multiple_of_unat [rust_unat]:
  "is_multiple_of (a :: 'a::len word) b \<longleftrightarrow> unat b dvd unat a"
  by (metis dvd_eq_mod_eq_0 is_multiple_of_def unat_eq_zero unat_mod)

lemma unat_next_multiple:
  fixes a b :: "'a::len word"
  assumes "0 < unat b" "unat a + unat b < 2 ^ LENGTH('a)"
  shows "unat (next_multiple_of a b) = (if unat a mod unat b = 0 then unat a else unat a + (unat b - unat a mod unat b))"
proof -
  have m: "unat (a mod b) = unat a mod unat b" by (simp add: unat_mod)
  have "a mod b \<le> b" using assms(1) by (simp add: word_le_nat_alt m less_imp_le)
  then have "unat (b - a mod b) = unat b - unat a mod unat b" by (simp add: unat_sub_le m)
  then have "unat (a + (b - a mod b)) = unat a + (unat b - unat a mod unat b)"
    using assms(2) by (subst unat_add_no_overflow) auto
  moreover have "a mod b = 0 \<longleftrightarrow> unat a mod unat b = 0" by (metis m unat_eq_zero)
  ultimately show ?thesis by (simp add: next_multiple_of_def)
qed

lemma next_multiple_bounds:
  fixes a b :: "'a::len word"
  assumes "0 < unat b" "unat a + unat b < 2 ^ LENGTH('a)"
  shows "unat a \<le> unat (next_multiple_of a b)" "unat (next_multiple_of a b) < unat a + unat b"
  using assms mod_less_divisor [OF assms(1), of "unat a"] by (auto simp: unat_next_multiple)

text \<open>Widening to 64 bits keeps the value, and a product of two 32-bit values never wraps there.\<close>

lemma unat_ucast_up: "unat (ucast (x::u32) :: u64) = unat x"
  using u32_bound [of x] by (simp add: unsigned_ucast_eq take_bit_nat_eq_self_iff)

lemma unat_area: "unat (ucast (a::u32) * ucast (b::u32) :: u64) = unat a * unat b"
proof -
  have "unat a * unat b \<le> 4294967295 * 4294967295"
    using u32_bound [of a] u32_bound [of b] by (intro mult_le_mono) auto
  then show ?thesis by (simp add: unat_mul_no_overflow unat_ucast_up)
qed

text \<open>
  \<open>unat\<close> is the normal form of the development: a word read as an integer is its natural
  number, and an \<^verbatim>\<open>i32\<close> is a 32-bit word read in two's complement.
\<close>

declare of_nat_unat [simp del]

lemma uint_is_unat: "uint a = int (unat a)"
  by (simp add: of_nat_unat)

lemma sint_u32:
  "sint (a::u32) =
     (if unat a < 2147483648 then int (unat a) else int (unat a) - 4294967296)"
proof -
  define k where "k = uint a"
  have k: "0 \<le> k" "k < 4294967296" using uint_lt2p [of a] by (simp_all add: k_def)
  have "sint a = signed_take_bit 31 k" by (simp add: sint_uint k_def)
  also have "\<dots> = take_bit 32 k - 4294967296 * of_bool (bit k 31)"
    using signed_take_bit_eq_take_bit_minus [of 31 k] by simp
  finally have A: "sint a = take_bit 32 k - 4294967296 * of_bool (bit k 31)" .
  have B: "take_bit 32 k = k" using k by (simp add: take_bit_int_eq_self)
  have "k div 2147483648 = (if k < 2147483648 then 0 else 1)"
    using k by (auto simp: div_pos_pos_trivial intro: int_div_pos_eq [where r = "k - 2147483648"])
  then have C: "bit k 31 \<longleftrightarrow> 2147483648 \<le> k" by (simp add: bit_iff_odd)
  have D: "int (unat a) = k" by (simp add: k_def of_nat_unat)
  then have E: "unat a < 2147483648 \<longleftrightarrow> k < 2147483648" by linarith
  show ?thesis unfolding A B D by (simp add: C E)
qed

text \<open>The rounding-up division, for a positive divisor.\<close>

lemma div_ceil_ge:
  assumes "0 < (b::nat)"
  shows "a \<le> b * (if a mod b = 0 then a div b else Suc (a div b))"
proof -
  obtain q r where qr: "a div b = q" "a mod b = r" by blast
  have "a = b * q + r" "r < b" using assms by (auto simp: qr [symmetric])
  then show ?thesis by (simp add: qr)
qed

lemma div_ceil_lt:
  "0 < (b::nat) \<Longrightarrow> b * (if a mod b = 0 then a div b else Suc (a div b)) < a + b"
  by (auto simp: minus_mod_eq_mult_div [symmetric])

section \<open>Reachability and invariants\<close>

inductive reach :: "('s \<Rightarrow> bool) \<Rightarrow> ('s \<Rightarrow> 's \<Rightarrow> bool) \<Rightarrow> 's \<Rightarrow> bool"
  for init :: "'s \<Rightarrow> bool" and step :: "'s \<Rightarrow> 's \<Rightarrow> bool"
where
  reach_init: "init s \<Longrightarrow> reach init step s"
| reach_step: "reach init step s \<Longrightarrow> step s t \<Longrightarrow> reach init step t"

locale step_invariant =
  fixes init :: "'s \<Rightarrow> bool"
    and step :: "'s \<Rightarrow> 's \<Rightarrow> bool"
    and inv :: "'s \<Rightarrow> bool"
  assumes init_inv: "init s \<Longrightarrow> inv s"
    and step_inv: "inv s \<Longrightarrow> step s t \<Longrightarrow> inv t"
begin

lemma reach_inv: "reach init step s \<Longrightarrow> inv s"
  by (induction rule: reach.induct) (auto intro: init_inv step_inv)

end

section \<open>Trackers that may over-cover but never under-cover\<close>

locale cover_tracker =
  fixes covered :: "'t \<Rightarrow> 'p set"
    and add :: "'t \<Rightarrow> 'r \<Rightarrow> 't"
    and region :: "'r \<Rightarrow> 'p set"
    and ok :: "'t \<Rightarrow> bool"
    and adm :: "'r \<Rightarrow> bool"
  assumes add_ok: "ok t \<Longrightarrow> adm r \<Longrightarrow> ok (add t r)"
    and add_covers: "ok t \<Longrightarrow> adm r \<Longrightarrow> covered t \<union> region r \<subseteq> covered (add t r)"
begin

lemma fold_ok: "ok t \<Longrightarrow> list_all adm rs \<Longrightarrow> ok (foldl add t rs)"
  by (induction rs arbitrary: t) (auto intro: add_ok)

lemma fold_covers:
  "ok t \<Longrightarrow> list_all adm rs \<Longrightarrow>
     covered t \<union> (\<Union>r\<in>set rs. region r) \<subseteq> covered (foldl add t rs)"
proof (induction rs arbitrary: t)
  case Nil
  then show ?case by simp
next
  case (Cons r rs)
  then have "covered (add t r) \<union> (\<Union>r\<in>set rs. region r) \<subseteq> covered (foldl add (add t r) rs)"
    by (intro Cons.IH) (auto intro: add_ok)
  moreover have "covered t \<union> region r \<subseteq> covered (add t r)"
    using Cons.prems by (intro add_covers) auto
  ultimately show ?case by auto
qed

text \<open>A region the tracker does not meet was met by nothing that was added to it.\<close>

lemma disjoint_from_all:
  assumes "ok t" "list_all adm rs" "covered (foldl add t rs) \<inter> X = {}" "r \<in> set rs"
  shows "region r \<inter> X = {}"
  using fold_covers [OF assms(1,2)] assms(3,4) by blast

end

end
