(* ===== verification/Dirty_Range.thy ===== *)
theory Dirty_Range
  imports Prelude
begin

text \<open>
  The byte spans of vertex and index buffers: \<^verbatim>\<open>src/windows/core/src/dirty_range.rs\<close> (the
  span a \<^verbatim>\<open>Staged\<close> buffer owes its device copy, and the spans draws read) and the per-frame
  \<^verbatim>\<open>DrawnRangeTracker\<close> of \<^verbatim>\<open>src/windows/core/src/passes.rs\<close> that decides whether an upload may
  overwrite a live device buffer. The meaning of a span is the set of byte offsets it covers.
\<close>

section \<open>The conjoined span\<close>

record dirty_range =
  rg_min :: u32
  rg_max :: u32

definition range_empty :: dirty_range where
  "range_empty = \<lparr>rg_min = 0, rg_max = 0\<rparr>"

definition range_full :: "u32 \<Rightarrow> dirty_range" where
  "range_full logical_len = \<lparr>rg_min = 0, rg_max = logical_len\<rparr>"

definition range_is_empty :: "dirty_range \<Rightarrow> bool" where
  "range_is_empty r \<longleftrightarrow> rg_min r \<ge> rg_max r"

definition range_span :: "dirty_range \<Rightarrow> (u32 \<times> u32) option" where
  "range_span r = (if range_is_empty r then None else Some (rg_min r, rg_max r))"

definition range_clear :: "dirty_range \<Rightarrow> dirty_range" where
  "range_clear r = r\<lparr>rg_min := 0, rg_max := 0\<rparr>"

definition range_overlaps :: "dirty_range \<Rightarrow> u32 \<Rightarrow> u32 \<Rightarrow> bool" where
  "range_overlaps r off fin \<longleftrightarrow> \<not> range_is_empty r \<and> rg_min r < fin \<and> off < rg_max r"

definition conjoin :: "dirty_range \<Rightarrow> u32 \<Rightarrow> u32 \<Rightarrow> u32 \<Rightarrow> dirty_range" where
  "conjoin r offset sz logical_len =
     (let start = (if offset > logical_len then logical_len else offset);
          remaining = logical_len - start;
          span = (if sz = 0 \<or> sz > remaining then remaining else sz);
          fin = start + span
      in if fin \<le> start then r
         else if range_is_empty r then r\<lparr>rg_min := start, rg_max := fin\<rparr>
         else r\<lparr>rg_min := (if start < rg_min r then start else rg_min r),
                rg_max := (if fin > rg_max r then fin else rg_max r)\<rparr>)"

section \<open>The spans a draw reads\<close>

definition nonindexed_vb_range :: "u32 \<Rightarrow> u32 \<Rightarrow> u32 \<Rightarrow> u32 \<Rightarrow> (u32 \<times> u32) option" where
  "nonindexed_vb_range stream_offset stride start_vertex vertex_count =
     (if vertex_count = 0 then None
      else case checked_mul start_vertex stride of
        None \<Rightarrow> Some (stream_offset, 0)
      | Some skip \<Rightarrow>
          (case checked_add stream_offset skip of
             None \<Rightarrow> Some (stream_offset, 0)
           | Some start \<Rightarrow>
               (case checked_mul vertex_count stride of
                  Some sz \<Rightarrow> Some (start, sz)
                | None \<Rightarrow> Some (start, 0))))"

text \<open>The \<open>i32\<close> base vertex is a word read in two's complement; \<^verbatim>\<open>unsigned_abs\<close> of a value that
  is not negative is the same word.\<close>

definition indexed_vb_range_lower_bound :: "u32 \<Rightarrow> u32 \<Rightarrow> u32 \<Rightarrow> u32 \<Rightarrow> (u32 \<times> u32) option" where
  "indexed_vb_range_lower_bound stream_offset stride base_vertex index_count =
     (if index_count = 0 then None
      else if base_vertex <s 0 then Some (stream_offset, 0)
      else case checked_mul base_vertex stride of
        None \<Rightarrow> Some (stream_offset, 0)
      | Some skip \<Rightarrow>
          (case checked_add stream_offset skip of
             Some start \<Rightarrow> Some (start, 0)
           | None \<Rightarrow> Some (stream_offset, 0)))"

section \<open>The tracker of drawn ranges\<close>

type_synonym drawn_tracker = "u64 \<Rightarrow> dirty_range option"

definition tracker_note :: "drawn_tracker \<Rightarrow> u64 \<Rightarrow> u32 \<Rightarrow> u32 \<Rightarrow> u32 \<Rightarrow> drawn_tracker" where
  "tracker_note t i offset sz logical_len =
     t(i \<mapsto> conjoin (case t i of None \<Rightarrow> range_empty | Some r \<Rightarrow> r) offset sz logical_len)"

definition tracker_overlaps :: "drawn_tracker \<Rightarrow> u64 \<Rightarrow> u32 \<Rightarrow> u32 \<Rightarrow> bool" where
  "tracker_overlaps t i off fin =
     (case t i of None \<Rightarrow> False | Some r \<Rightarrow> range_overlaps r off fin)"

definition tracker_clear_buffer :: "drawn_tracker \<Rightarrow> u64 \<Rightarrow> drawn_tracker" where
  "tracker_clear_buffer t i = t(i := None)"

definition tracker_clear :: "drawn_tracker \<Rightarrow> drawn_tracker" where
  "tracker_clear t = Map.empty"

section \<open>What a span covers\<close>

definition range_bytes :: "dirty_range \<Rightarrow> nat set" where
  "range_bytes r = {unat (rg_min r)..<unat (rg_max r)}"

text \<open>The bytes a \<^verbatim>\<open>Lock\<close> window or a draw names in a buffer of \<open>len\<close> bytes: D3D9 reads a size of
  zero as ``to the end'', and the buffer's end cuts the rest.\<close>

definition lock_bytes :: "u32 \<Rightarrow> u32 \<times> u32 \<Rightarrow> nat set" where
  "lock_bytes len w =
     {unat (fst w)..<if snd w = 0 then unat len else min (unat (fst w) + unat (snd w)) (unat len)}"

definition hull :: "nat set \<Rightarrow> nat set" where
  "hull A = (if A = {} then {} else {Min A..Max A})"

lemma hull_empty [simp]: "hull {} = {}"
  by (simp add: hull_def)

lemma hull_superset: "finite A \<Longrightarrow> A \<subseteq> hull A"
  by (auto simp: hull_def)

lemma hull_interval [simp]: "hull {a..<b} = {a..<b}"
proof (cases "a < b")
  case True
  then have "Min {a..<b} = a" "Max {a..<b} = b - 1"
    by (auto intro!: Min_eqI Max_eqI)
  with True show ?thesis by (auto simp: hull_def)
qed simp

lemma hull_edges:
  assumes "finite A" "A \<noteq> {}"
  shows "Min (hull A) = Min A" "Max (hull A) = Max A" "hull A \<noteq> {}" "finite (hull A)"
proof -
  have h: "hull A = {Min A..Max A}" and le: "Min A \<le> Max A"
    using assms by (simp_all add: hull_def)
  show "Min (hull A) = Min A" "Max (hull A) = Max A" "hull A \<noteq> {}" "finite (hull A)"
    unfolding h using le by (auto intro!: Min_eqI Max_eqI)
qed

lemma hull_hull: "finite A \<Longrightarrow> hull (hull A) = hull A"
proof (cases "A = {}")
  case False
  assume "finite A"
  note e = hull_edges [OF this False]
  show ?thesis
    unfolding hull_def [of "hull A"] e(1,2) using e(3) False by (simp add: hull_def)
qed simp

lemma hull_absorb:
  assumes "finite A" "finite B"
  shows "hull (hull A \<union> B) = hull (A \<union> B)"
proof (cases "A = {} \<or> B = {}")
  case True
  then show ?thesis
    using hull_hull [OF assms(1)] by auto
next
  case False
  then have ne: "A \<noteq> {}" "B \<noteq> {}" by auto
  note e = hull_edges [OF assms(1) ne(1)]
  have "Min (hull A \<union> B) = Min (A \<union> B)" "Max (hull A \<union> B) = Max (A \<union> B)"
    by (simp_all only: Min_Un Max_Un e ne assms not_False_eq_True simp_thms)
  then show ?thesis
    using ne e(3) unfolding hull_def [of "hull A \<union> B"] hull_def [of "A \<union> B"] by simp
qed

lemma finite_range_bytes [simp]: "finite (range_bytes r)"
  and finite_lock_bytes [simp]: "finite (lock_bytes len w)"
  by (simp_all add: range_bytes_def lock_bytes_def)

lemma range_bytes_empty [simp]: "range_bytes range_empty = {}"
  by (simp add: range_bytes_def range_empty_def)

lemma range_bytes_full [simp]: "range_bytes (range_full len) = {..<unat len}"
  by (auto simp: range_bytes_def range_full_def)

lemma range_bytes_clear [simp]: "range_bytes (range_clear r) = {}"
  by (simp add: range_bytes_def range_clear_def)

lemma range_is_empty_bytes: "range_is_empty r \<longleftrightarrow> range_bytes r = {}"
  by (simp add: range_is_empty_def range_bytes_def word_le_nat_alt not_less)

lemma range_span_Some:
  "range_span r = Some (a, b) \<Longrightarrow> range_bytes r = {unat a..<unat b} \<and> unat a < unat b"
  by (auto simp: range_span_def range_bytes_def range_is_empty_def word_le_nat_alt split: if_splits)

lemma range_span_None: "range_span r = None \<Longrightarrow> range_bytes r = {}"
  by (auto simp: range_span_def range_is_empty_bytes split: if_splits)

lemma range_overlaps_bytes:
  assumes "unat off < unat e"
  shows "range_overlaps r off e \<longleftrightarrow> range_bytes r \<inter> {unat off..<unat e} \<noteq> {}"
proof
  assume "range_overlaps r off e"
  then have "max (unat off) (unat (rg_min r)) \<in> range_bytes r \<inter> {unat off..<unat e}"
    using assms
    by (auto simp: range_overlaps_def range_is_empty_def range_bytes_def word_le_nat_alt
        word_less_nat_alt)
  then show "range_bytes r \<inter> {unat off..<unat e} \<noteq> {}" by blast
qed (auto simp: range_overlaps_def range_is_empty_def range_bytes_def word_le_nat_alt
        word_less_nat_alt)

lemma hull_intervals:
  assumes "a < b" "c < d"
  shows "hull ({a..<b} \<union> {c..<d}) = {min a c..<max b d}"
proof -
  have "Min ({a..<b} \<union> {c..<d}) = min a c" "Max ({a..<b} \<union> {c..<d}) = max b d - 1"
    using assms by (auto intro!: Min_eqI Max_eqI)
  then show ?thesis using assms by (auto simp: hull_def)
qed

text \<open>The window \<open>conjoin\<close> computes, with its wrap-around discharged.\<close>

lemma conjoin_window:
  fixes offset sz len :: u32
  defines "start \<equiv> if offset > len then len else offset"
  defines "fin \<equiv> start + (if sz = 0 \<or> sz > len - start then len - start else sz)"
  shows "lock_bytes len (offset, sz) = {unat start..<unat fin}" and "unat fin \<le> unat len"
proof -
  have s: "start \<le> len" by (auto simp: start_def)
  then have r: "unat (len - start) = unat len - unat start" by (rule unat_sub_le)
  have le: "unat start \<le> unat len" using s by (simp add: word_le_nat_alt)
  let ?sp = "if sz = 0 \<or> sz > len - start then len - start else sz"
  have sp: "unat ?sp = (if unat sz = 0 then unat len - unat start
                        else min (unat sz) (unat len - unat start))"
    by (auto simp: r word_less_nat_alt unat_eq_zero min_def)
  have f: "unat fin = unat start + unat ?sp"
    unfolding fin_def using sp le u32_bound [of len]
    by (intro unat_add_no_overflow) (simp split: if_splits)
  then show "unat fin \<le> unat len" using sp le by (auto split: if_splits)
  have "unat start = min (unat offset) (unat len)"
    by (auto simp: start_def word_less_nat_alt)
  then show "lock_bytes len (offset, sz) = {unat start..<unat fin}"
    unfolding f sp by (auto simp: lock_bytes_def unat_eq_zero split: if_splits)
qed

lemma conjoin_edges:
  obtains start fin :: u32 where
    "lock_bytes len (off, sz) = {unat start..<unat fin}" "unat fin \<le> unat len"
    "conjoin r off sz len =
      (if fin \<le> start then r
       else if range_is_empty r then r\<lparr>rg_min := start, rg_max := fin\<rparr>
       else r\<lparr>rg_min := (if start < rg_min r then start else rg_min r),
              rg_max := (if fin > rg_max r then fin else rg_max r)\<rparr>)"
proof -
  define start where "start = (if off > len then len else off)"
  define fin where "fin = start + (if sz = 0 \<or> sz > len - start then len - start else sz)"
  have "lock_bytes len (off, sz) = {unat start..<unat fin}" "unat fin \<le> unat len"
    unfolding start_def fin_def by (rule conjoin_window)+
  moreover have "conjoin r off sz len =
      (if fin \<le> start then r
       else if range_is_empty r then r\<lparr>rg_min := start, rg_max := fin\<rparr>
       else r\<lparr>rg_min := (if start < rg_min r then start else rg_min r),
              rg_max := (if fin > rg_max r then fin else rg_max r)\<rparr>)"
    unfolding conjoin_def Let_def start_def [symmetric] fin_def [symmetric] ..
  ultimately show thesis by (rule that)
qed

lemma conjoin_bytes:
  "range_bytes (conjoin r off sz len) = hull (range_bytes r \<union> lock_bytes len (off, sz))"
proof (rule conjoin_edges [of len off sz r])
  fix start fin :: u32
  assume w: "lock_bytes len (off, sz) = {unat start..<unat fin}" and "unat fin \<le> unat len"
    and c: "conjoin r off sz len =
      (if fin \<le> start then r
       else if range_is_empty r then r\<lparr>rg_min := start, rg_max := fin\<rparr>
       else r\<lparr>rg_min := (if start < rg_min r then start else rg_min r),
              rg_max := (if fin > rg_max r then fin else rg_max r)\<rparr>)"
  consider "fin \<le> start" | "start < fin" "range_is_empty r" | "start < fin" "\<not> range_is_empty r"
    by force
  then show ?thesis
  proof cases
    case 1
    then have "lock_bytes len (off, sz) = {}" by (simp add: w word_le_nat_alt)
    with 1 show ?thesis by (simp add: c) (simp add: range_bytes_def)
  next
    case 2
    then have "range_bytes r = {}" by (simp add: range_is_empty_bytes)
    with 2 show ?thesis by (simp add: c w not_le [symmetric]) (simp add: range_bytes_def)
  next
    case 3
    then have "unat start < unat fin" "unat (rg_min r) < unat (rg_max r)"
      by (simp_all add: range_is_empty_def word_less_nat_alt word_le_nat_alt)
    then have "hull (range_bytes r \<union> lock_bytes len (off, sz))
        = {min (unat (rg_min r)) (unat start)..<max (unat (rg_max r)) (unat fin)}"
      by (simp add: w range_bytes_def hull_intervals)
    moreover have "range_bytes (conjoin r off sz len)
        = {min (unat (rg_min r)) (unat start)..<max (unat (rg_max r)) (unat fin)}"
      using 3 by (simp add: c range_bytes_def word_less_nat_alt word_le_nat_alt min_def max_def)
    ultimately show ?thesis by simp
  qed
qed

lemma conjoin_max:
  assumes "unat (rg_max r) \<le> unat len"
  shows "unat (rg_max (conjoin r off sz len)) \<le> unat len"
  by (rule conjoin_edges [of len off sz r]) (use assms in simp)

lemma hull_Un: "finite A \<Longrightarrow> finite B \<Longrightarrow> A \<subseteq> hull (A \<union> B)" "finite A \<Longrightarrow> finite B \<Longrightarrow> B \<subseteq> hull (A \<union> B)"
  using hull_superset [of "A \<union> B"] by auto

text \<open>
  The buffer trackers under the cover contract: a \<^verbatim>\<open>Staged\<close> buffer's pending upload, and the
  bytes draws have read, over a buffer of \<open>len\<close> bytes.
\<close>

interpretation range_tracker:
  cover_tracker range_bytes "\<lambda>r (off, sz). conjoin r off sz len" "lock_bytes len"
    "\<lambda>r. unat (rg_max r) \<le> unat len" "\<lambda>_. True"
  for len
  by unfold_locales
    (use hull_Un in \<open>auto simp: conjoin_bytes conjoin_max split: prod.splits\<close>)

lemma fold_conjoin_hull:
  "range_bytes (foldl (\<lambda>r (off, sz). conjoin r off sz len) r ws)
   = hull (range_bytes r \<union> (\<Union>w\<in>set ws. lock_bytes len w))"
proof (induction ws arbitrary: r)
  case Nil
  then show ?case by (simp add: range_bytes_def)
next
  case (Cons w ws)
  obtain o' s' where w: "w = (o', s')" by force
  have "range_bytes (foldl (\<lambda>r (off, sz). conjoin r off sz len) r (w # ws))
      = hull (hull (range_bytes r \<union> lock_bytes len w) \<union> (\<Union>w\<in>set ws. lock_bytes len w))"
    by (simp add: w Cons.IH conjoin_bytes)
  also have "\<dots> = hull (range_bytes r \<union> lock_bytes len w \<union> (\<Union>w\<in>set ws. lock_bytes len w))"
    by (intro hull_absorb) simp_all
  finally show ?case by (simp add: Un_assoc)
qed

text \<open>
  C29. The dirty span of a \<^verbatim>\<open>Staged\<close> buffer is exactly the smallest interval containing what was
  locked. After any sequence of \<^verbatim>\<open>DirtyRange::conjoin\<close> calls on an empty span, with any offsets
  and sizes at all (a zero size meaning to the end of the buffer, ranges past the end, sizes
  that would wrap a \<open>u32\<close>), the span covers the interval hull of the windows' bytes: no locked
  byte is missed and nothing outside the outermost locked bytes is added.
\<close>

theorem conjoin_is_hull:
  "range_bytes (foldl (\<lambda>r (off, sz). conjoin r off sz len) range_empty ws)
   = hull (\<Union>w\<in>set ws. lock_bytes len w)"
  by (simp add: fold_conjoin_hull)

section \<open>Draws never read outside their recorded span\<close>

text \<open>The bytes the vertex fetch of the vertices \<open>V\<close> addresses, and those a recorded span names.\<close>

definition vertex_bytes :: "u32 \<Rightarrow> u32 \<Rightarrow> nat set \<Rightarrow> nat set" where
  "vertex_bytes stream_offset stride V =
     {unat stream_offset + v * unat stride + k | v k. v \<in> V \<and> k < unat stride}"

definition draw_bytes :: "u32 \<Rightarrow> (u32 \<times> u32) option \<Rightarrow> nat set" where
  "draw_bytes len r = (case r of None \<Rightarrow> {} | Some w \<Rightarrow> lock_bytes len w)"

lemma vertex_bytes_lower:
  assumes "\<And>v. v \<in> V \<Longrightarrow> s \<le> unat so + v * unat st" and "unat w \<le> s"
  shows "vertex_bytes so st V \<inter> {..<unat len} \<subseteq> lock_bytes len (w, 0)"
  using assms by (fastforce simp: vertex_bytes_def lock_bytes_def)

lemma checked_start:
  assumes "checked_mul b st = Some skip" "checked_add so skip = Some start"
  shows "unat start = unat so + unat b * unat (st::u32)"
  using assms by (auto simp: checked_mul_Some checked_add_Some)

lemma nonindexed_covers:
  "vertex_bytes so st {unat sv..<unat sv + unat n} \<inter> {..<unat len}
     \<subseteq> draw_bytes len (nonindexed_vb_range so st sv n)"
proof (cases "n = 0")
  case True
  then show ?thesis by (auto simp: vertex_bytes_def)
next
  case n: False
  let ?V = "{unat sv..<unat sv + unat n}"
  have whole: "vertex_bytes so st ?V \<inter> {..<unat len} \<subseteq> lock_bytes len (so, 0)"
    by (rule vertex_bytes_lower [where s = "unat so"]) auto
  show ?thesis
  proof (cases "\<exists>skip start. checked_mul sv st = Some skip \<and> checked_add so skip = Some start")
    case False
    then show ?thesis
      using whole n by (auto simp: nonindexed_vb_range_def draw_bytes_def split: option.splits)
  next
    case True
    then obtain skip start where
      m: "checked_mul sv st = Some skip" and a: "checked_add so skip = Some start" by blast
    note s = checked_start [OF m a]
    show ?thesis
    proof (cases "checked_mul n st")
      case None
      have "vertex_bytes so st ?V \<inter> {..<unat len} \<subseteq> lock_bytes len (start, 0)"
        by (rule vertex_bytes_lower [where s = "unat start"]) (simp_all add: s)
      with None m a n show ?thesis by (simp add: nonindexed_vb_range_def draw_bytes_def)
    next
      case (Some sz)
      then have sz: "unat sz = unat n * unat st" by (simp add: checked_mul_Some)
      have fetch: "unat so + v * unat st + k < unat start + unat sz"
        if "v < unat sv + unat n" "k < unat st" for v k
      proof -
        have "Suc v * unat st \<le> (unat sv + unat n) * unat st"
          using that(1) by (intro mult_right_mono) simp_all
        with that(2) show ?thesis by (simp add: s sz add_mult_distrib)
      qed
      have "unat start \<le> unat so + v * unat st" if "unat sv \<le> v" for v
        using that by (simp add: s mult_right_mono)
      then have "vertex_bytes so st ?V \<inter> {..<unat len} \<subseteq> lock_bytes len (start, sz)"
        using fetch by (fastforce simp: vertex_bytes_def lock_bytes_def)
      with Some m a n show ?thesis by (simp add: nonindexed_vb_range_def draw_bytes_def)
    qed
  qed
qed

lemma indexed_covers:
  "vertex_bytes so st (if ic = 0 then {} else {nat (sint base)..}) \<inter> {..<unat len}
     \<subseteq> draw_bytes len (indexed_vb_range_lower_bound so st base ic)"
proof (cases "ic = 0")
  case True
  then show ?thesis by (simp add: vertex_bytes_def)
next
  case ic: False
  let ?V = "{nat (sint base)..}"
  have whole: "vertex_bytes so st ?V \<inter> {..<unat len} \<subseteq> lock_bytes len (so, 0)"
    by (rule vertex_bytes_lower [where s = "unat so"]) auto
  show ?thesis
  proof (cases "\<not> base <s 0 \<and>
      (\<exists>skip start. checked_mul base st = Some skip \<and> checked_add so skip = Some start)")
    case False
    then show ?thesis
      using whole ic
      by (auto simp: indexed_vb_range_lower_bound_def draw_bytes_def split: option.splits)
  next
    case True
    then obtain skip start where b: "\<not> base <s 0" and
      m: "checked_mul base st = Some skip" and a: "checked_add so skip = Some start" by blast
    have "nat (sint base) = unat base"
      using b u32_bound [of base] by (auto simp: word_sless_alt sint_u32 split: if_splits)
    then have "vertex_bytes so st ?V \<inter> {..<unat len} \<subseteq> lock_bytes len (start, 0)"
      by (intro vertex_bytes_lower [where s = "unat start"])
        (simp_all add: checked_start [OF m a] mult_right_mono)
    with m a ic b show ?thesis by (simp add: indexed_vb_range_lower_bound_def draw_bytes_def)
  qed
qed


section \<open>The tracker's coverage\<close>

definition tracker_bytes :: "drawn_tracker \<Rightarrow> u64 \<Rightarrow> nat set" where
  "tracker_bytes t i = (case t i of None \<Rightarrow> {} | Some r \<Rightarrow> range_bytes r)"

lemma tracker_note_bytes:
  "tracker_bytes (tracker_note t i off sz len) j =
     (if j = i then hull (tracker_bytes t i \<union> lock_bytes len (off, sz)) else tracker_bytes t j)"
  by (auto simp: tracker_bytes_def tracker_note_def conjoin_bytes split: option.splits)

lemma finite_tracker_bytes [simp]: "finite (tracker_bytes t i)"
  by (simp add: tracker_bytes_def split: option.splits)

lemma tracker_note_covers:
  "tracker_bytes t j \<subseteq> tracker_bytes (tracker_note t i off sz len) j"
  "lock_bytes len (off, sz) \<subseteq> tracker_bytes (tracker_note t i off sz len) i"
  by (simp_all add: tracker_note_bytes hull_Un)

lemma tracker_clear_buffer_bytes:
  "tracker_bytes (tracker_clear_buffer t i) j = (if j = i then {} else tracker_bytes t j)"
  by (simp add: tracker_bytes_def tracker_clear_buffer_def)

lemma tracker_clear_bytes [simp]: "tracker_bytes (tracker_clear t) i = {}"
  by (simp add: tracker_bytes_def tracker_clear_def)

lemma tracker_no_overlap:
  assumes "\<not> tracker_overlaps t i off fin"
  shows "tracker_bytes t i \<inter> {unat off..<unat fin} = {}"
proof (cases "unat off < unat fin")
  case True
  then show ?thesis
    using assms range_overlaps_bytes [OF True]
    by (auto simp: tracker_overlaps_def tracker_bytes_def split: option.splits)
qed simp

end
