(* ===== verification/Upload_Recovery.thy ===== *)
theory Upload_Recovery
  imports Prelude "HOL-Library.Multiset"
begin

text \<open>
  The replay of uploads whose command buffer the GPU aborted:
  \<^verbatim>\<open>src/windows/core/src/upload_recovery.rs\<close>, and the loop of \<^verbatim>\<open>src/unix/unix/src/encoder.rs\<close>
  (\<^verbatim>\<open>settle_stage_uploads\<close>) that drives it.

  Submit sequence numbers are the encoder's frame counter, a \<open>u64\<close> that only ever counts up by
  one, and are natural numbers here; the attempt counter keeps its \<open>u8\<close> with the saturating
  increment. The payload of an entry is a type parameter, as in the source.
\<close>

section \<open>The queue\<close>

datatype upload_fate = Released | Reissue | Abandoned

record 'p pending_upload =
  pu_key :: u64
  pu_seq :: nat
  pu_attempts :: u8
  pu_payload :: 'p

definition MAX_REISSUE_ATTEMPTS :: u8 where
  "MAX_REISSUE_ATTEMPTS = 3"

definition queue_push ::
  "'p pending_upload list \<Rightarrow> u64 \<Rightarrow> nat \<Rightarrow> 'p \<Rightarrow> 'p pending_upload list" where
  "queue_push q key seq payload =
     q @ [\<lparr>pu_key = key, pu_seq = seq, pu_attempts = 0, pu_payload = payload\<rparr>]"

definition requeue ::
  "'p pending_upload list \<Rightarrow> 'p pending_upload \<Rightarrow> nat \<Rightarrow> 'p pending_upload list" where
  "requeue q entry reissue_seq =
     q @ [\<lparr>pu_key = pu_key entry, pu_seq = reissue_seq,
           pu_attempts = sat_add (pu_attempts entry) 1, pu_payload = pu_payload entry\<rparr>]"

definition front_run :: "'p pending_upload list \<Rightarrow> ('p pending_upload \<Rightarrow> bool) \<Rightarrow> nat" where
  "front_run q keep = length (takeWhile keep q)"

definition poisoned_keys :: "'p pending_upload list \<Rightarrow> nat \<Rightarrow> u64 set" where
  "poisoned_keys q failed_seq =
     (if failed_seq = 0 then {}
      else pu_key ` set (filter (\<lambda>e. pu_seq e \<le> failed_seq) q))"

text \<open>The recovery walk of \<^verbatim>\<open>settle\<close>: the drained entries with their fates, and the entries kept.\<close>

primrec settle_walk ::
  "u64 set \<Rightarrow> nat \<Rightarrow> 'p pending_upload list
     \<Rightarrow> (upload_fate \<times> 'p pending_upload) list \<times> 'p pending_upload list" where
  "settle_walk poisoned coherent_seq [] = ([], [])"
| "settle_walk poisoned coherent_seq (entry # q) =
     (let (out, kept) = settle_walk poisoned coherent_seq q;
          owed = pu_key entry \<in> poisoned
      in if \<not> owed \<and> pu_seq entry > coherent_seq then (out, entry # kept)
         else
           (let fate = (if \<not> owed then Released
                        else if pu_attempts entry \<ge> MAX_REISSUE_ATTEMPTS then Abandoned
                        else Reissue)
            in ((fate, entry) # out, kept)))"

definition settle ::
  "'p pending_upload list \<Rightarrow> nat \<Rightarrow> nat
     \<Rightarrow> (upload_fate \<times> 'p pending_upload) list \<times> 'p pending_upload list" where
  "settle q coherent_seq failed_seq =
     (let poisoned = poisoned_keys q failed_seq
      in if poisoned = {}
         then (let retired = front_run q (\<lambda>e. pu_seq e \<le> coherent_seq)
               in (map (\<lambda>e. (Released, e)) (take retired q), drop retired q))
         else settle_walk poisoned coherent_seq q)"

definition release_acknowledged ::
  "'p pending_upload list \<Rightarrow> nat \<Rightarrow> nat \<Rightarrow> 'p pending_upload list \<times> 'p pending_upload list" where
  "release_acknowledged q coherent_seq failed_seq =
     (let clean = front_run q (\<lambda>e. pu_seq e \<le> coherent_seq \<and> pu_seq e > failed_seq)
      in (take clean q, drop clean q))"

definition drain_all ::
  "'p pending_upload list \<Rightarrow> 'p pending_upload list \<times> 'p pending_upload list" where
  "drain_all q = (q, [])"

section \<open>What settling does\<close>

definition queue_ok :: "'p pending_upload list \<Rightarrow> bool" where
  "queue_ok q \<longleftrightarrow> sorted (map pu_seq q)"

lemma sorted_take_drop_filter:
  "sorted (map f q) \<Longrightarrow>
     take (length (takeWhile (\<lambda>e. f e \<le> (c::nat)) q)) q = filter (\<lambda>e. f e \<le> c) q
     \<and> drop (length (takeWhile (\<lambda>e. f e \<le> c) q)) q = filter (\<lambda>e. c < f e) q"
proof (induction q)
  case (Cons x q)
  show ?case
  proof (cases "f x \<le> c")
    case True
    with Cons show ?thesis by simp
  next
    case False
    with Cons.prems have "\<forall>e\<in>set q. c < f e" by fastforce
    then have "filter (\<lambda>e. f e \<le> c) q = []" "filter (\<lambda>e. c < f e) q = q"
      by (auto simp: filter_empty_conv filter_id_conv)
    with False show ?thesis by simp
  qed
qed simp

text \<open>Both paths of \<^verbatim>\<open>settle\<close> compute the same thing on a queue ordered by sequence number.\<close>

lemma settle_walk_eq:
  "settle_walk P c q =
     (map (\<lambda>e. (if pu_key e \<notin> P then Released
               else if pu_attempts e \<ge> MAX_REISSUE_ATTEMPTS then Abandoned else Reissue, e))
        (filter (\<lambda>e. pu_key e \<in> P \<or> pu_seq e \<le> c) q),
      filter (\<lambda>e. pu_key e \<notin> P \<and> c < pu_seq e) q)"
  by (induction q) (auto simp: Let_def split: prod.splits)

lemma settle_eq:
  assumes "queue_ok q"
  shows "settle q c f = settle_walk (poisoned_keys q f) c q"
  using assms sorted_take_drop_filter [of pu_seq q c]
  by (auto simp: settle_def settle_walk_eq queue_ok_def front_run_def Let_def)

section \<open>The encoder's settle loop\<close>

text \<open>
  One upload of bytes is a partial map from offsets to bytes, and the frame's leading blits are
  the uploads it carries, in order. \<^verbatim>\<open>settle_stage_uploads\<close> re-emits every entry owed a replay
  whose buffer still has a device copy (\<open>live\<close>) and re-queues it under the current frame.
\<close>

type_synonym bytes_upload = "nat \<Rightarrow> u8 option"
type_synonym blits = "(u64 \<times> bytes_upload) list"

fun settle_loop ::
  "(u64 \<Rightarrow> bool) \<Rightarrow> nat \<Rightarrow> (upload_fate \<times> bytes_upload pending_upload) list
     \<Rightarrow> blits \<times> bytes_upload pending_upload list \<Rightarrow> blits \<times> bytes_upload pending_upload list" where
  "settle_loop live reissue_seq [] (bs, q) = (bs, q)"
| "settle_loop live reissue_seq ((fate, entry) # out) (bs, q) =
     (if fate = Reissue \<and> live (pu_key entry)
      then settle_loop live reissue_seq out
             (bs @ [(pu_key entry, pu_payload entry)], requeue q entry reissue_seq)
      else settle_loop live reissue_seq out (bs, q))"

definition settle_stage_uploads ::
  "(u64 \<Rightarrow> bool) \<Rightarrow> nat \<Rightarrow> nat \<Rightarrow> nat \<Rightarrow> blits \<Rightarrow> bytes_upload pending_upload list
     \<Rightarrow> blits \<times> bytes_upload pending_upload list" where
  "settle_stage_uploads live current_seq settled failed bs q =
     (let (out, kept) = settle q settled failed
      in settle_loop live current_seq out (bs, kept))"

text \<open>The destinations that lose an upload for good: abandoned, or without a device copy.\<close>

definition lost_keys ::
  "(u64 \<Rightarrow> bool) \<Rightarrow> (upload_fate \<times> bytes_upload pending_upload) list \<Rightarrow> u64 set" where
  "lost_keys live out =
     pu_key ` snd ` set (filter (\<lambda>(f, e). f = Abandoned \<or> f = Reissue \<and> \<not> live (pu_key e)) out)"

section \<open>Frames, aborts and replays\<close>

text \<open>
  The GPU runs the frames in submission order. A frame that retires has run its blits; one that
  aborts may or may not have, and its number becomes the failed sequence number before it
  counts as retired. The encoder reads the retirement counter before the failure counter, so
  what it settles with is a possibly stale retirement and the failure as it is.
  \<open>rs_spec\<close> is the memory as if every upload had landed at once, in program order.
\<close>

record rec_state =
  rs_cur :: nat
  rs_coh :: nat
  rs_failed :: nat
  rs_flight :: "(nat \<times> blits) list"
  rs_blits :: blits
  rs_queue :: "bytes_upload pending_upload list"
  rs_mem :: "u64 \<Rightarrow> nat \<Rightarrow> u8"
  rs_spec :: "u64 \<Rightarrow> nat \<Rightarrow> u8"
  rs_lost :: "u64 set"

definition write_bytes :: "(u64 \<Rightarrow> nat \<Rightarrow> u8) \<Rightarrow> u64 \<Rightarrow> bytes_upload \<Rightarrow> u64 \<Rightarrow> nat \<Rightarrow> u8" where
  "write_bytes m k w = m(k := \<lambda>a. case w a of Some v \<Rightarrow> v | None \<Rightarrow> m k a)"

definition run_blits :: "blits \<Rightarrow> (u64 \<Rightarrow> nat \<Rightarrow> u8) \<Rightarrow> u64 \<Rightarrow> nat \<Rightarrow> u8" where
  "run_blits bs m = foldl (\<lambda>m (k, w). write_bytes m k w) m bs"

definition rec_init :: "rec_state \<Rightarrow> bool" where
  "rec_init s \<longleftrightarrow> rs_cur s = 1 \<and> rs_coh s = 0 \<and> rs_failed s = 0 \<and> rs_flight s = []
     \<and> rs_blits s = [] \<and> rs_queue s = [] \<and> rs_spec s = rs_mem s \<and> rs_lost s = {}"

definition rec_upload :: "u64 \<Rightarrow> bytes_upload \<Rightarrow> rec_state \<Rightarrow> rec_state" where
  "rec_upload k w s =
     s\<lparr>rs_blits := rs_blits s @ [(k, w)],
       rs_queue := queue_push (rs_queue s) k (rs_cur s) w,
       rs_spec := write_bytes (rs_spec s) k w\<rparr>"

definition rec_begin_frame :: "(u64 \<Rightarrow> bool) \<Rightarrow> nat \<Rightarrow> rec_state \<Rightarrow> rec_state" where
  "rec_begin_frame live settled s =
     (let (bs, q) = settle_stage_uploads live (Suc (rs_cur s)) settled (rs_failed s) [] (rs_queue s)
      in s\<lparr>rs_cur := Suc (rs_cur s), rs_flight := rs_flight s @ [(rs_cur s, rs_blits s)],
           rs_blits := bs, rs_queue := q,
           rs_lost := rs_lost s \<union> lost_keys live (fst (settle (rs_queue s) settled (rs_failed s)))\<rparr>)"

inductive rec_step :: "rec_state \<Rightarrow> rec_state \<Rightarrow> bool" where
  step_upload: "rec_step s (rec_upload k w s)"
| step_begin_frame: "settled \<le> rs_coh s \<Longrightarrow> rec_step s (rec_begin_frame live settled s)"
| step_relief: "settled \<le> rs_coh s \<Longrightarrow>
    rec_step s (s\<lparr>rs_queue := snd (release_acknowledged (rs_queue s) settled (rs_failed s))\<rparr>)"
| step_retire: "rs_flight s = (n, bs) # fl \<Longrightarrow>
    rec_step s (s\<lparr>rs_flight := fl, rs_coh := n, rs_mem := run_blits bs (rs_mem s)\<rparr>)"
| step_abort: "rs_flight s = (n, bs) # fl \<Longrightarrow> m = rs_mem s \<or> m = run_blits bs (rs_mem s) \<Longrightarrow>
    rec_step s (s\<lparr>rs_flight := fl, rs_coh := n, rs_failed := n, rs_mem := m\<rparr>)"

section \<open>One byte at a time\<close>

definition cell_entries ::
  "u64 \<Rightarrow> nat \<Rightarrow> bytes_upload pending_upload list \<Rightarrow> (nat \<times> u8) list" where
  "cell_entries k a q =
     map (\<lambda>e. (pu_seq e, the (pu_payload e a)))
       (filter (\<lambda>e. pu_key e = k \<and> pu_payload e a \<noteq> None) q)"

definition cell_writes :: "u64 \<Rightarrow> nat \<Rightarrow> blits \<Rightarrow> u8 list" where
  "cell_writes k a bs = map (\<lambda>b. the (snd b a)) (filter (\<lambda>b. fst b = k \<and> snd b a \<noteq> None) bs)"

definition frames :: "rec_state \<Rightarrow> (nat \<times> blits) list" where
  "frames s = rs_flight s @ [(rs_cur s, rs_blits s)]"

definition cell_frames :: "u64 \<Rightarrow> nat \<Rightarrow> rec_state \<Rightarrow> (nat \<times> u8 list) list" where
  "cell_frames k a s = map (\<lambda>f. (fst f, cell_writes k a (snd f))) (frames s)"

text \<open>
  The state of one byte of one destination, given the queued uploads \<open>L\<close> that cover it and the
  writes \<open>F\<close> the pending frames make to it: nobody owes it and it is final, or the last queued
  upload that covers it carries its final value, and that upload is still to run, has run, or
  aborted.
\<close>

definition cell_good ::
  "(nat \<times> u8) list \<Rightarrow> (nat \<times> u8 list) list \<Rightarrow> u8 \<Rightarrow> u8 \<Rightarrow> nat \<Rightarrow> nat \<Rightarrow> bool" where
  "cell_good L F m sp coh failed \<longleftrightarrow>
     (if L = [] then m = sp \<and> (\<forall>f\<in>set F. snd f = [])
      else sp = snd (last L)
           \<and> (\<forall>f\<in>set F. fst (last L) < fst f \<longrightarrow> snd f = [])
           \<and> (coh < fst (last L) \<longrightarrow>
                (\<exists>ws. (fst (last L), ws) \<in> set F \<and> ws \<noteq> [] \<and> last ws = sp))
           \<and> (fst (last L) \<le> coh \<and> failed < fst (last L) \<longrightarrow> m = sp))"

definition cell_ok :: "rec_state \<Rightarrow> u64 \<Rightarrow> nat \<Rightarrow> bool" where
  "cell_ok s k a \<longleftrightarrow>
     cell_good (cell_entries k a (rs_queue s)) (cell_frames k a s) (rs_mem s k a) (rs_spec s k a)
       (rs_coh s) (rs_failed s)"

definition rec_inv :: "rec_state \<Rightarrow> bool" where
  "rec_inv s \<longleftrightarrow>
     sorted_wrt (<) (map fst (frames s)) \<and> (\<forall>(n, b)\<in>set (frames s). rs_coh s < n)
     \<and> rs_failed s \<le> rs_coh s \<and> queue_ok (rs_queue s)
     \<and> (\<forall>e\<in>set (rs_queue s). 0 < pu_seq e \<and> pu_seq e \<le> rs_cur s)
     \<and> (\<forall>k a. k \<notin> rs_lost s \<longrightarrow> cell_ok s k a)"

lemma cell_entries_append [simp]: "cell_entries k a (q @ r) = cell_entries k a q @ cell_entries k a r"
  by (simp add: cell_entries_def)

lemma cell_entries_Nil [simp]: "cell_entries k a [] = []"
  by (simp add: cell_entries_def)

lemma cell_writes_append [simp]: "cell_writes k a (q @ r) = cell_writes k a q @ cell_writes k a r"
  by (simp add: cell_writes_def)

lemma cell_writes_Nil [simp]: "cell_writes k a [] = []"
  by (simp add: cell_writes_def)

lemma run_blits_cell:
  "run_blits bs m k a = (if cell_writes k a bs = [] then m k a else last (cell_writes k a bs))"
proof (induction bs rule: rev_induct)
  case (snoc b bs)
  obtain k' w where b: "b = (k', w)" by force
  show ?case using snoc
    by (auto simp: b run_blits_def write_bytes_def cell_writes_def split: option.splits)
qed (simp add: run_blits_def)

lemma settle_loop_eq:
  "settle_loop live n out (bs, q) =
     (let R = map snd (filter (\<lambda>(f, e). f = Reissue \<and> live (pu_key e)) out)
      in (bs @ map (\<lambda>e. (pu_key e, pu_payload e)) R,
          q @ map (\<lambda>e. \<lparr>pu_key = pu_key e, pu_seq = n,
                pu_attempts = sat_add (pu_attempts e) 1, pu_payload = pu_payload e\<rparr>) R))"
  by (induction live n out "(bs, q)" arbitrary: bs q rule: settle_loop.induct)
    (auto simp: requeue_def Let_def)

text \<open>The entries a settle replays.\<close>

definition replayed :: "(u64 \<Rightarrow> bool) \<Rightarrow> u64 set \<Rightarrow> 'p pending_upload list \<Rightarrow> 'p pending_upload list" where
  "replayed live P q =
     filter (\<lambda>e. pu_key e \<in> P \<and> pu_attempts e < MAX_REISSUE_ATTEMPTS \<and> live (pu_key e)) q"

lemma settle_stage_uploads_eq:
  fixes f :: nat
  assumes "queue_ok q"
  defines "P \<equiv> poisoned_keys q f"
  shows "settle_stage_uploads live n c f bs q =
     (bs @ map (\<lambda>e. (pu_key e, pu_payload e)) (replayed live P q),
      filter (\<lambda>e. pu_key e \<notin> P \<and> c < pu_seq e) q
      @ map (\<lambda>e. \<lparr>pu_key = pu_key e, pu_seq = n,
            pu_attempts = sat_add (pu_attempts e) 1, pu_payload = pu_payload e\<rparr>)
          (replayed live P q))"
proof -
  have "map snd (filter (\<lambda>(f, e). f = Reissue \<and> live (pu_key e)) (fst (settle_walk P c q)))
      = replayed live P q"
    by (auto simp: settle_walk_eq filter_map comp_def replayed_def not_le intro!: filter_cong)
  moreover have "settle q c f = (fst (settle_walk P c q), snd (settle_walk P c q))"
    using settle_eq [OF assms(1), of c f] by (simp add: P_def)
  moreover have "snd (settle_walk P c q) = filter (\<lambda>e. pu_key e \<notin> P \<and> c < pu_seq e) q"
    by (simp add: settle_walk_eq)
  ultimately show ?thesis
    by (simp add: settle_stage_uploads_def settle_loop_eq Let_def del: map_map)
qed

lemma lost_keys_settle:
  assumes "queue_ok q" "k \<notin> lost_keys live (fst (settle q c f))" "k \<in> poisoned_keys q f"
    "e \<in> set q" "pu_key e = k"
  shows "pu_attempts e < MAX_REISSUE_ATTEMPTS \<and> live (pu_key e)"
proof (rule ccontr)
  assume "\<not> ?thesis"
  then have "k \<in> lost_keys live (fst (settle q c f))"
    using assms(3-5) unfolding settle_eq [OF assms(1)] settle_walk_eq lost_keys_def image_image
    by (intro image_eqI [where x = "(if MAX_REISSUE_ATTEMPTS \<le> pu_attempts e then Abandoned
        else Reissue, e)"]) (auto simp: not_less image_iff)
  with assms(2) show False ..
qed

lemma cell_entries_sorted: "queue_ok q \<Longrightarrow> sorted (map fst (cell_entries k a q))"
  by (simp add: queue_ok_def cell_entries_def comp_def sorted_filter)

lemma cell_entries_later:
  "cell_entries k a (filter (\<lambda>e. pu_key e \<notin> P \<and> c < pu_seq e) q)
   = (if k \<in> P then [] else filter (\<lambda>p. c < fst p) (cell_entries k a q))"
  by (auto simp: cell_entries_def filter_map comp_def filter_empty_conv
      intro!: arg_cong [where f = "map _"] filter_cong)

lemma cell_entries_replayed:
  assumes "\<And>e. e \<in> set q \<Longrightarrow> pu_key e = k \<Longrightarrow> k \<in> P \<Longrightarrow>
      pu_attempts e < MAX_REISSUE_ATTEMPTS \<and> live (pu_key e)"
  shows "cell_entries k a (map (\<lambda>e. \<lparr>pu_key = pu_key e, pu_seq = n,
            pu_attempts = sat_add (pu_attempts e) 1, pu_payload = pu_payload e\<rparr>)
          (replayed live P q))
      = (if k \<in> P then map (\<lambda>p. (n, snd p)) (cell_entries k a q) else [])"
    and "cell_writes k a (map (\<lambda>e. (pu_key e, pu_payload e)) (replayed live P q))
      = (if k \<in> P then map snd (cell_entries k a q) else [])"
proof -
  have f: "filter (\<lambda>e. pu_key e = k \<and> (\<exists>y. pu_payload e a = Some y)) (replayed live P q)
      = (if k \<in> P then filter (\<lambda>e. pu_key e = k \<and> (\<exists>y. pu_payload e a = Some y)) q else [])"
    using assms by (auto simp: replayed_def filter_empty_conv intro!: filter_cong)
  show "cell_entries k a (map (\<lambda>e. \<lparr>pu_key = pu_key e, pu_seq = n,
            pu_attempts = sat_add (pu_attempts e) 1, pu_payload = pu_payload e\<rparr>)
          (replayed live P q))
      = (if k \<in> P then map (\<lambda>p. (n, snd p)) (cell_entries k a q) else [])"
    "cell_writes k a (map (\<lambda>e. (pu_key e, pu_payload e)) (replayed live P q))
      = (if k \<in> P then map snd (cell_entries k a q) else [])"
    by (simp_all add: cell_entries_def cell_writes_def filter_map comp_def f)
qed

lemma last_filter_sorted:
  assumes "sorted (map fst L)" "filter (\<lambda>p. (c::nat) < fst p) L \<noteq> []"
  shows "last (filter (\<lambda>p. c < fst p) L) = last L \<and> c < fst (last L)"
proof -
  have "L \<noteq> []" using assms(2) by auto
  then obtain xs x where L: "L = xs @ [x]" by (metis append_butlast_last_id)
  have "\<forall>p\<in>set xs. fst p \<le> fst x" using assms(1) by (auto simp: L sorted_append)
  moreover obtain p where "p \<in> set L" "c < fst p"
    using assms(2) by (auto simp: filter_empty_conv)
  ultimately have "c < fst x" by (auto simp: L)
  then show ?thesis by (simp add: L)
qed

section \<open>The invariant of the replay machine\<close>

lemma good_write:
  assumes "cell_good L (F @ [(n, ws)]) m sp c f" "c < n" "\<forall>g\<in>set F. fst g < n"
  shows "cell_good (L @ [(n, v)]) (F @ [(n, ws @ [v])]) m v c f"
  using assms by (fastforce simp: cell_good_def)

lemma good_kept:
  assumes good: "cell_good L F m sp c f" and "sorted (map fst L)"
    and L: "\<forall>p\<in>set L. f < fst p" and "settled \<le> c" and F: "\<forall>g\<in>set F. c < fst g"
  shows "cell_good (filter (\<lambda>p. settled < fst p) L) (F @ [(n, [])]) m sp c f"
proof (cases "filter (\<lambda>p. settled < fst p) L = []")
  case True
  show ?thesis
  proof (cases "L = []")
    case ne: False
    then have l: "last L \<in> set L" by simp
    with True have "fst (last L) \<le> settled" by (auto simp: filter_empty_conv not_less)
    with \<open>settled \<le> c\<close> l L F good ne show ?thesis
      unfolding True by (fastforce simp: cell_good_def)
  qed (use good in \<open>auto simp: cell_good_def\<close>)
next
  case False
  note e = last_filter_sorted [OF assms(2) False]
  from False have "L \<noteq> []" by auto
  with False e good show ?thesis by (auto simp: cell_good_def)
qed

lemma good_replay:
  assumes "cell_good L F m sp c f" "c < n" "\<forall>g\<in>set F. fst g < n"
  shows "cell_good (map (\<lambda>p. (n, snd p)) L) (F @ [(n, map snd L)]) m sp c f"
proof (cases "L = []")
  case False
  then have "last (map (\<lambda>p. (n, snd p)) L) = (n, snd (last L))" "last (map snd L) = snd (last L)"
    by (simp_all add: last_map)
  with False assms show ?thesis by (fastforce simp: cell_good_def)
qed (use assms in \<open>auto simp: cell_good_def\<close>)

lemma good_relief:
  assumes "cell_good (D @ L) F m sp c f" "\<forall>p\<in>set D. fst p \<le> c \<and> f < fst p"
    "\<forall>g\<in>set F. c < fst g"
  shows "cell_good L F m sp c f"
proof (cases "L = [] \<and> D \<noteq> []")
  case True
  then have "last D \<in> set D" by simp
  with True assms show ?thesis by (fastforce simp: cell_good_def)
next
  case False
  with assms(1) show ?thesis by (auto simp: cell_good_def)
qed

lemma good_retire:
  assumes good: "cell_good L ((n, ws) # F) m sp c f" and F: "\<forall>g\<in>set F. n < fst g"
    and "c < n" "f \<le> c"
  shows "cell_good L F (if ws = [] then m else last ws) sp n f"
proof (cases "L = []")
  case False
  consider "fst (last L) < n" | "fst (last L) = n" | "n < fst (last L)" by linarith
  then show ?thesis
  proof cases
    case 1
    then have "ws = []" using good False by (auto simp: cell_good_def)
    moreover have "fst (last L) \<le> c \<or> c < fst (last L)" by linarith
    ultimately show ?thesis using 1 good False F by (fastforce simp: cell_good_def)
  next
    case 2
    then have "ws \<noteq> [] \<and> last ws = sp" using good False F assms(3) by (fastforce simp: cell_good_def)
    with 2 good False show ?thesis by (auto simp: cell_good_def)
  next
    case 3
    with good False F assms(3) show ?thesis by (auto simp: cell_good_def)
  qed
qed (use good in \<open>auto simp: cell_good_def\<close>)

lemma good_abort:
  assumes good: "cell_good L ((n, ws) # F) m sp c f" and F: "\<forall>g\<in>set F. n < fst g"
    and "c < n" "m' = m \<or> m' = (if ws = [] then m else last ws)"
  shows "cell_good L F m' sp n n"
proof (cases "L = []")
  case False
  with good F assms(3) show ?thesis by (auto simp: cell_good_def)
qed (use good assms(4) in \<open>auto simp: cell_good_def\<close>)

lemma frames_cur: "rec_inv s \<Longrightarrow> f \<in> set (rs_flight s) \<Longrightarrow> fst f < rs_cur s"
  by (force simp: rec_inv_def frames_def sorted_wrt_append)

lemma coh_frames: "rec_inv s \<Longrightarrow> f \<in> set (frames s) \<Longrightarrow> rs_coh s < fst f"
  by (fastforce simp: rec_inv_def)

lemma coh_cell_frames: "rec_inv s \<Longrightarrow> g \<in> set (cell_frames k a s) \<Longrightarrow> rs_coh s < fst g"
  by (auto simp: cell_frames_def dest: coh_frames)

lemma inv_upload:
  assumes I: "rec_inv s"
  shows "rec_inv (rec_upload k w s)"
proof -
  let ?t = "rec_upload k w s"
  have "cell_ok ?t k' a" if "k' \<notin> rs_lost s" for k' a
  proof -
    have ok: "cell_ok s k' a" using I that by (simp add: rec_inv_def)
    let ?F = "map (\<lambda>f. (fst f, cell_writes k' a (snd f))) (rs_flight s)"
    have F: "cell_frames k' a s = ?F @ [(rs_cur s, cell_writes k' a (rs_blits s))]"
      by (simp add: cell_frames_def frames_def)
    show ?thesis
    proof (cases "k' = k \<and> w a \<noteq> None")
      case True
      then obtain v where v: "k' = k" "w a = Some v" by auto
      have "cell_good (cell_entries k' a (rs_queue s) @ [(rs_cur s, v)])
          (?F @ [(rs_cur s, cell_writes k' a (rs_blits s) @ [v])]) (rs_mem s k' a) v
          (rs_coh s) (rs_failed s)"
        using ok I by (intro good_write [where sp = "rs_spec s k' a"])
          (auto simp: cell_ok_def F rec_inv_def frames_def dest: frames_cur [OF I])
      then show ?thesis
        by (simp add: cell_ok_def cell_frames_def frames_def rec_upload_def queue_push_def
            write_bytes_def v)
          (simp add: cell_entries_def cell_writes_def v)
    next
      case False
      then have "cell_entries k' a (rs_queue ?t) = cell_entries k' a (rs_queue s)"
        "cell_frames k' a ?t = cell_frames k' a s" "rs_spec ?t k' a = rs_spec s k' a"
        by (auto simp: rec_upload_def queue_push_def cell_entries_def cell_frames_def frames_def
            cell_writes_def write_bytes_def)
      with ok show ?thesis by (simp add: cell_ok_def) (simp add: rec_upload_def)
    qed
  qed
  then show ?thesis
    using I by (auto simp: rec_inv_def frames_def rec_upload_def queue_push_def queue_ok_def
        sorted_append)
qed

lemma inv_begin_frame:
  assumes I: "rec_inv s" and settled: "settled \<le> rs_coh s"
  shows "rec_inv (rec_begin_frame live settled s)"
proof -
  let ?t = "rec_begin_frame live settled s"
  let ?n = "Suc (rs_cur s)"
  have q: "queue_ok (rs_queue s)" using I by (simp add: rec_inv_def)
  define P where "P = poisoned_keys (rs_queue s) (rs_failed s)"
  let ?R = "replayed live P (rs_queue s)"
  let ?kept = "filter (\<lambda>e. pu_key e \<notin> P \<and> settled < pu_seq e) (rs_queue s)"
  let ?rq = "map (\<lambda>e. \<lparr>pu_key = pu_key e, pu_seq = ?n, pu_attempts = sat_add (pu_attempts e) 1,
      pu_payload = pu_payload e\<rparr>) ?R"
  let ?bs = "map (\<lambda>e. (pu_key e, pu_payload e)) ?R"
  have t: "rs_cur ?t = ?n" "rs_flight ?t = rs_flight s @ [(rs_cur s, rs_blits s)]"
    "rs_blits ?t = ?bs" "rs_queue ?t = ?kept @ ?rq"
    "rs_lost ?t = rs_lost s \<union> lost_keys live (fst (settle (rs_queue s) settled (rs_failed s)))"
    "rs_mem ?t = rs_mem s" "rs_spec ?t = rs_spec s" "rs_coh ?t = rs_coh s"
    "rs_failed ?t = rs_failed s"
    by (simp_all add: rec_begin_frame_def settle_stage_uploads_eq [OF q] P_def)
  have fr: "frames ?t = frames s @ [(?n, ?bs)]" by (simp add: frames_def t)
  have cur: "fst f < ?n" if "f \<in> set (frames s)" for f
    using that frames_cur [OF I] by (fastforce simp: frames_def)
  have "cell_ok ?t k a" if k: "k \<notin> rs_lost ?t" for k a
  proof -
    have live: "pu_attempts e < MAX_REISSUE_ATTEMPTS \<and> live (pu_key e)"
      if "e \<in> set (rs_queue s)" "pu_key e = k" "k \<in> P" for e
      using lost_keys_settle [of _ k live settled "rs_failed s", OF q _ _ that(1,2)] that(3) k
      by (simp add: t P_def)
    note rep = cell_entries_replayed [OF live, where a = a]
    have ok: "cell_ok s k a" using I k by (simp add: rec_inv_def t)
    have E: "cell_entries k a (rs_queue ?t) = (if k \<in> P
        then map (\<lambda>p. (?n, snd p)) (cell_entries k a (rs_queue s))
        else filter (\<lambda>p. settled < fst p) (cell_entries k a (rs_queue s)))"
      by (simp add: t cell_entries_later rep)
    have F: "cell_frames k a ?t = cell_frames k a s
        @ [(?n, if k \<in> P then map snd (cell_entries k a (rs_queue s)) else [])]"
      by (simp add: cell_frames_def fr rep)
    show ?thesis
    proof (cases "k \<in> P")
      case True
      have "rs_coh s < ?n" "\<forall>g\<in>set (cell_frames k a s). fst g < ?n"
        using I cur by (auto simp: rec_inv_def frames_def cell_frames_def)
      with True ok show ?thesis unfolding cell_ok_def E F t(6-9) by (simp add: good_replay)
    next
      case False
      have clean: "rs_failed s < fst p" if "p \<in> set (cell_entries k a (rs_queue s))" for p
        using that False I
        by (auto simp: P_def poisoned_keys_def cell_entries_def rec_inv_def not_le image_iff
            split: if_splits)
      show ?thesis
        using False ok settled clean cell_entries_sorted [OF q] coh_cell_frames [OF I]
        unfolding cell_ok_def E F t(6-9) by (simp add: good_kept)
    qed
  qed
  moreover have "sorted_wrt (<) (map fst (frames ?t)) \<and> (\<forall>(n, b)\<in>set (frames ?t). rs_coh s < n)"
  proof -
    have "rs_coh s < ?n" using I by (simp add: rec_inv_def frames_def)
    then show ?thesis
      using I cur unfolding fr rec_inv_def by (fastforce simp: sorted_wrt_append)
  qed
  moreover have "queue_ok (rs_queue ?t)"
  proof -
    have "sorted (map pu_seq ?kept)" using q by (simp add: queue_ok_def sorted_filter)
    moreover have "sorted (map (\<lambda>_. ?n) xs)" for xs :: "bytes_upload pending_upload list"
      by (induction xs) simp_all
    moreover have "\<forall>e\<in>set (rs_queue s). pu_seq e \<le> rs_cur s" using I by (simp add: rec_inv_def)
    ultimately show ?thesis
      unfolding queue_ok_def t(4) by (fastforce simp: sorted_append comp_def)
  qed
  moreover have "\<forall>e\<in>set (rs_queue ?t). 0 < pu_seq e \<and> pu_seq e \<le> ?n"
    using I by (auto simp: t rec_inv_def)
  ultimately show ?thesis
    using I by (simp add: rec_inv_def t)
qed

lemma inv_relief:
  assumes I: "rec_inv s" and settled: "settled \<le> rs_coh s"
  shows "rec_inv (s\<lparr>rs_queue := snd (release_acknowledged (rs_queue s) settled (rs_failed s))\<rparr>)"
    (is "rec_inv ?t")
proof -
  let ?keep = "\<lambda>e::bytes_upload pending_upload. pu_seq e \<le> settled \<and> rs_failed s < pu_seq e"
  define D where "D = takeWhile ?keep (rs_queue s)"
  define K where "K = dropWhile ?keep (rs_queue s)"
  have DK: "rs_queue s = D @ K" by (simp add: D_def K_def)
  have t: "rs_queue ?t = K"
    by (simp add: release_acknowledged_def front_run_def Let_def K_def dropWhile_eq_drop)
  have D: "pu_seq e \<le> rs_coh s \<and> rs_failed s < pu_seq e" if "e \<in> set D" for e
    using set_takeWhileD [of e ?keep "rs_queue s"] that settled by (auto simp: D_def)
  have "cell_ok ?t k a" if "k \<notin> rs_lost s" for k a
  proof -
    have "cell_good (cell_entries k a D @ cell_entries k a K) (cell_frames k a s) (rs_mem s k a)
        (rs_spec s k a) (rs_coh s) (rs_failed s)"
      using I that by (simp add: rec_inv_def cell_ok_def DK)
    then have "cell_good (cell_entries k a K) (cell_frames k a s) (rs_mem s k a)
        (rs_spec s k a) (rs_coh s) (rs_failed s)"
      by (rule good_relief) (use D coh_cell_frames [OF I] in \<open>auto simp: cell_entries_def\<close>)
    then show ?thesis by (simp add: cell_ok_def t [simplified] cell_frames_def frames_def)
  qed
  then show ?thesis
    using I t by (auto simp: rec_inv_def frames_def DK queue_ok_def sorted_append)
qed

lemma cell_frames_flight:
  assumes "rs_flight s = (n, bs) # fl"
  shows "cell_frames k a s = (n, cell_writes k a bs) # cell_frames k a (s\<lparr>rs_flight := fl\<rparr>)"
  using assms by (simp add: cell_frames_def frames_def)

lemma flight_order:
  assumes "rec_inv s" "rs_flight s = (n, bs) # fl"
  shows "rs_coh s < n" "\<forall>f\<in>set (frames (s\<lparr>rs_flight := fl\<rparr>)). n < fst f"
  using assms by (auto simp: rec_inv_def frames_def)

lemma inv_complete:
  assumes I: "rec_inv s" and fl: "rs_flight s = (n, bs) # fl"
    and good: "\<And>k a. k \<notin> rs_lost s \<Longrightarrow>
      cell_good (cell_entries k a (rs_queue s)) (cell_frames k a (s\<lparr>rs_flight := fl\<rparr>))
        (m k a) (rs_spec s k a) n f"
    and f: "f \<le> n"
  shows "rec_inv (s\<lparr>rs_flight := fl, rs_coh := n, rs_failed := f, rs_mem := m\<rparr>)"
  using I good f flight_order [OF I fl]
  by (fastforce simp: rec_inv_def cell_ok_def cell_frames_def frames_def fl)

lemma inv_retire:
  assumes I: "rec_inv s" and fl: "rs_flight s = (n, bs) # fl"
  shows "rec_inv (s\<lparr>rs_flight := fl, rs_coh := n, rs_mem := run_blits bs (rs_mem s)\<rparr>)"
proof -
  note o = flight_order [OF I fl]
  have f: "rs_failed s \<le> rs_coh s" using I by (simp add: rec_inv_def)
  have "cell_good (cell_entries k a (rs_queue s)) (cell_frames k a (s\<lparr>rs_flight := fl\<rparr>))
      (run_blits bs (rs_mem s) k a) (rs_spec s k a) n (rs_failed s)" if "k \<notin> rs_lost s" for k a
    unfolding run_blits_cell
    using I that o f
    by (intro good_retire [where c = "rs_coh s"])
      (auto simp: rec_inv_def cell_ok_def cell_frames_flight [OF fl], auto simp: cell_frames_def)
  from inv_complete [OF I fl this] show ?thesis using f o(1) by (simp add: less_imp_le order_trans)
qed

lemma inv_abort:
  assumes I: "rec_inv s" and fl: "rs_flight s = (n, bs) # fl"
    and m: "m = rs_mem s \<or> m = run_blits bs (rs_mem s)"
  shows "rec_inv (s\<lparr>rs_flight := fl, rs_coh := n, rs_failed := n, rs_mem := m\<rparr>)"
proof (rule inv_complete [OF I fl])
  fix k a
  assume k: "k \<notin> rs_lost s"
  show "cell_good (cell_entries k a (rs_queue s)) (cell_frames k a (s\<lparr>rs_flight := fl\<rparr>))
      (m k a) (rs_spec s k a) n n"
    using I k flight_order [OF I fl] m
    by (intro good_abort [where c = "rs_coh s" and m = "rs_mem s k a" and f = "rs_failed s"
          and ws = "cell_writes k a bs"])
      (auto simp: rec_inv_def cell_ok_def cell_frames_flight [OF fl] run_blits_cell,
       auto simp: cell_frames_def)
qed simp

interpretation recovery: step_invariant rec_init rec_step rec_inv
proof
  show "rec_inv s" if "rec_init s" for s
    using that by (auto simp: rec_init_def rec_inv_def frames_def cell_ok_def cell_good_def
        cell_frames_def queue_ok_def)
  show "rec_inv t" if "rec_inv s" "rec_step s t" for s t
    using that(2,1)
    by cases (auto intro: inv_upload inv_begin_frame inv_relief inv_retire inv_abort)
qed

section \<open>Results\<close>


text \<open>A run in which the frame carrying an upload aborts, the upload is replayed and lands.\<close>

definition demo_start :: rec_state where
  "demo_start = \<lparr>rs_cur = 1, rs_coh = 0, rs_failed = 0, rs_flight = [], rs_blits = [],
     rs_queue = [], rs_mem = \<lambda>_ _. 0, rs_spec = \<lambda>_ _. 0, rs_lost = {}\<rparr>"

definition demo_aborted :: rec_state where
  "demo_aborted =
     (rec_begin_frame (\<lambda>_. True) 0 (rec_upload 7 [0 \<mapsto> 5] demo_start))
       \<lparr>rs_flight := [], rs_coh := 1, rs_failed := 1\<rparr>"

definition demo_replayed :: rec_state where
  "demo_replayed = rec_begin_frame (\<lambda>_. True) 1 (rec_begin_frame (\<lambda>_. True) 1 demo_aborted)"

definition demo_done :: rec_state where
  "demo_done = rec_begin_frame (\<lambda>_. True) 3
     (demo_replayed\<lparr>rs_flight := [], rs_coh := 3,
        rs_mem := run_blits [(7, [0 \<mapsto> 5])] (run_blits [] (rs_mem demo_replayed))\<rparr>)"

lemmas demo_defs = rec_begin_frame_def settle_stage_uploads_def settle_def front_run_def
  poisoned_keys_def requeue_def queue_push_def rec_upload_def lost_keys_def
  MAX_REISSUE_ATTEMPTS_def

lemma demo_aborted_eq:
  "demo_aborted = \<lparr>rs_cur = 2, rs_coh = 1, rs_failed = 1, rs_flight = [], rs_blits = [],
     rs_queue = [\<lparr>pu_key = 7, pu_seq = 1, pu_attempts = 0, pu_payload = [0 \<mapsto> 5]\<rparr>],
     rs_mem = \<lambda>_ _. 0, rs_spec = write_bytes (\<lambda>_ _. 0) 7 [0 \<mapsto> 5], rs_lost = {}\<rparr>"
  by (simp add: demo_aborted_def demo_start_def demo_defs)

lemma demo_replayed_eq:
  "demo_replayed = \<lparr>rs_cur = 4, rs_coh = 1, rs_failed = 1,
     rs_flight = [(2, []), (3, [(7, [0 \<mapsto> 5])])], rs_blits = [],
     rs_queue = [\<lparr>pu_key = 7, pu_seq = 3, pu_attempts = 1, pu_payload = [0 \<mapsto> 5]\<rparr>],
     rs_mem = \<lambda>_ _. 0, rs_spec = write_bytes (\<lambda>_ _. 0) 7 [0 \<mapsto> 5], rs_lost = {}\<rparr>"
  by (simp add: demo_replayed_def demo_aborted_eq demo_defs sat_add_def)

lemma demo_done_eq:
  "demo_done = \<lparr>rs_cur = 5, rs_coh = 3, rs_failed = 1, rs_flight = [(4, [])], rs_blits = [],
     rs_queue = [], rs_mem = write_bytes (\<lambda>_ _. 0) 7 [0 \<mapsto> 5],
     rs_spec = write_bytes (\<lambda>_ _. 0) 7 [0 \<mapsto> 5], rs_lost = {}\<rparr>"
  by (simp add: demo_done_def demo_replayed_eq demo_defs run_blits_def)

lemma demo_reach: "reach rec_init rec_step demo_done"
proof -
  let ?u = "rec_upload 7 [0 \<mapsto> 5] demo_start"
  let ?f = "rec_begin_frame (\<lambda>_. True) 0 ?u"
  have r0: "reach rec_init rec_step demo_start"
    by (rule reach_init) (simp add: demo_start_def rec_init_def)
  note r1 = reach_step [OF r0 step_upload, of 7 "[0 \<mapsto> 5]"]
  have r2: "reach rec_init rec_step ?f"
    by (rule reach_step [OF r1 step_begin_frame]) simp
  have f: "rs_flight ?f = (1, [(7, [0 \<mapsto> 5])]) # []" "rs_mem ?f = (\<lambda>_ _. 0)"
    by (simp_all add: demo_start_def demo_defs)
  have "reach rec_init rec_step (?f\<lparr>rs_flight := [], rs_coh := 1, rs_failed := 1, rs_mem := rs_mem ?f\<rparr>)"
    by (rule reach_step [OF r2 step_abort [OF f(1)]]) simp
  then have r3: "reach rec_init rec_step demo_aborted"
    by (simp add: demo_aborted_def)
  have r4: "reach rec_init rec_step (rec_begin_frame (\<lambda>_. True) 1 demo_aborted)"
    by (rule reach_step [OF r3 step_begin_frame]) (simp add: demo_aborted_eq)
  have r5: "reach rec_init rec_step demo_replayed"
    unfolding demo_replayed_def
    by (rule reach_step [OF r4 step_begin_frame]) (simp add: demo_aborted_eq demo_defs)
  let ?r = "demo_replayed\<lparr>rs_flight := [(3, [(7, [0 \<mapsto> 5])])],
      rs_coh := 2, rs_mem := run_blits [] (rs_mem demo_replayed)\<rparr>"
  have r6: "reach rec_init rec_step ?r"
    by (rule reach_step [OF r5 step_retire]) (simp add: demo_replayed_eq)
  have "reach rec_init rec_step (?r\<lparr>rs_flight := [], rs_coh := 3,
      rs_mem := run_blits [(7, [0 \<mapsto> 5])] (rs_mem ?r)\<rparr>)"
    by (rule reach_step [OF r6 step_retire]) simp
  then have r7: "reach rec_init rec_step (demo_replayed\<lparr>rs_flight := [], rs_coh := 3,
        rs_mem := run_blits [(7, [0 \<mapsto> 5])] (run_blits [] (rs_mem demo_replayed))\<rparr>)"
    by simp
  show ?thesis
    unfolding demo_done_def by (rule reach_step [OF r7 step_begin_frame]) simp
qed


text \<open>
  C20. Settling sorts the queue correctly on both its paths. Every entry is either handed out
  with a fate or kept, none twice; an entry is released only if its frame retired and did not
  abort; once any upload of a destination aborted, all queued uploads of that destination come
  out together, in their original order, so a replay can never leave an older write on top of
  a newer one; and an entry is abandoned only when it has used up its attempts.
\<close>

theorem settle_sound:
  assumes "queue_ok q" and "\<forall>e\<in>set q. 0 < pu_seq e" and "settle q c f = (out, kept)"
  shows "mset (map snd out) + mset kept = mset q
    \<and> (\<forall>e. (Released, e) \<in> set out \<longrightarrow> pu_seq e \<le> c \<and> f < pu_seq e)
    \<and> (\<forall>e. (Abandoned, e) \<in> set out \<longrightarrow> pu_attempts e \<ge> MAX_REISSUE_ATTEMPTS)
    \<and> (\<forall>k e. e \<in> set q \<and> pu_key e = k \<and> pu_seq e \<le> f \<longrightarrow>
          filter (\<lambda>e. pu_key e = k) (map snd out) = filter (\<lambda>e. pu_key e = k) q)
    \<and> queue_ok kept"
proof -
  let ?P = "poisoned_keys q f"
  have out: "map snd out = filter (\<lambda>e. pu_key e \<in> ?P \<or> pu_seq e \<le> c) q"
    and kept: "kept = filter (\<lambda>e. \<not> (pu_key e \<in> ?P \<or> pu_seq e \<le> c)) q"
    and fates: "out = map (\<lambda>e. (if pu_key e \<notin> ?P then Released
         else if pu_attempts e \<ge> MAX_REISSUE_ATTEMPTS then Abandoned else Reissue, e))
        (filter (\<lambda>e. pu_key e \<in> ?P \<or> pu_seq e \<le> c) q)"
    using assms(3) unfolding settle_eq [OF assms(1)] settle_walk_eq
    by (auto simp: comp_def not_le)
  have clean: "f < pu_seq e" if "e \<in> set q" "pu_key e \<notin> ?P" for e
    using that assms(2) by (auto simp: poisoned_keys_def image_iff not_le split: if_splits)
  have poison: "pu_key e \<in> ?P" if "e \<in> set q" "pu_seq e \<le> f" for e
    using that assms(2) by (auto simp: poisoned_keys_def)
  have "mset (map snd out) + mset kept = mset q"
    unfolding out kept by (metis mset_filter multiset_partition)
  moreover have "\<forall>e. (Released, e) \<in> set out \<longrightarrow> pu_seq e \<le> c \<and> f < pu_seq e"
    using clean unfolding fates by (auto split: if_splits)
  moreover have "\<forall>e. (Abandoned, e) \<in> set out \<longrightarrow> pu_attempts e \<ge> MAX_REISSUE_ATTEMPTS"
    unfolding fates by (auto split: if_splits)
  moreover have "\<forall>k e. e \<in> set q \<and> pu_key e = k \<and> pu_seq e \<le> f \<longrightarrow>
      filter (\<lambda>e. pu_key e = k) (map snd out) = filter (\<lambda>e. pu_key e = k) q"
    using poison unfolding out by (auto intro!: filter_cong)
  moreover have "queue_ok kept"
    using assms(1) unfolding kept queue_ok_def by (rule sorted_filter)
  ultimately show ?thesis by blast
qed

theorem settle_sound_witness:
  "settle [\<lparr>pu_key = 1, pu_seq = 3, pu_attempts = 0, pu_payload = ()\<rparr>,
           \<lparr>pu_key = 2, pu_seq = 4, pu_attempts = 3, pu_payload = ()\<rparr>,
           \<lparr>pu_key = 1, pu_seq = 6, pu_attempts = 0, pu_payload = ()\<rparr>] 4 3
     = ([(Reissue, \<lparr>pu_key = 1, pu_seq = 3, pu_attempts = 0, pu_payload = ()\<rparr>),
         (Released, \<lparr>pu_key = 2, pu_seq = 4, pu_attempts = 3, pu_payload = ()\<rparr>),
         (Reissue, \<lparr>pu_key = 1, pu_seq = 6, pu_attempts = 0, pu_payload = ()\<rparr>)], [])
   \<and> queue_ok ([] :: unit pending_upload list)"
  (is "?s = (?out, []) \<and> _")
proof -
  have s: "?s = (?out, [])"
    by (simp add: settle_def poisoned_keys_def MAX_REISSUE_ATTEMPTS_def)
  have "queue_ok ([] :: unit pending_upload list)"
    using settle_sound [OF _ _ s] by (simp add: queue_ok_def)
  with s show ?thesis by simp
qed

end
