(* ===== verification/Stage_Upload.thy ===== *)
theory Stage_Upload
  imports Dirty_Range Upload_Recovery
begin

text \<open>
  The encoder's side of \<^verbatim>\<open>Staged\<close> vertex and index buffers, from
  \<^verbatim>\<open>src/unix/unix/src/encoder.rs\<close>: \<^verbatim>\<open>apply_stage_upload\<close> with its rename-at-overlap, and the
  staged branch of \<^verbatim>\<open>ensure_vbib_mtl_buffer\<close> with the range note a draw makes
  (\<^verbatim>\<open>src/unix/unix/src/draw.rs\<close>).

  Every upload of a frame becomes a blit in the frame's leading phase, before all of its draws,
  whatever its place between them in program order. The result below is that the draws still
  read the bytes program order gives them.

  Metal is a parameter: \<open>create n\<close> is the handle its \<open>n\<close>-th buffer creation returns, zero for a
  failure. \<open>en_src\<close> is the contents of every buffer at the head of the frame, which a transient
  wrapper's creation extends with the snapshot it wraps. Counters, logging and the
  \<^verbatim>\<open>didModifyRange\<close> notifications are left out.
\<close>

section \<open>The encoder's state\<close>

record buffer_gpu_state =
  bg_device :: u64
  bg_staged :: bool
  bg_length :: u64
  bg_last_seq :: nat

record copy_info =
  ci_src :: u64
  ci_dst :: u64
  ci_src_offset :: u64
  ci_dst_offset :: u64
  ci_size :: u64

record staged_retry =
  sr_buffer :: u64
  sr_transient :: u64
  sr_page_box :: "u8 list"
  sr_dst_offset :: u32
  sr_size :: u32

record encoder =
  en_cache :: "u64 \<Rightarrow> buffer_gpu_state option"
  en_tracker :: drawn_tracker
  en_blits :: "copy_info list"
  en_seq :: nat
  en_pending :: "staged_retry pending_upload list"
  en_retained :: "(u64 \<times> nat) list"
  en_created :: nat
  en_src :: "u64 \<Rightarrow> nat \<Rightarrow> u8"

section \<open>Operations\<close>

definition stage_upload_needs_preserve :: "u64 \<Rightarrow> u32 \<Rightarrow> u32 \<Rightarrow> bool" where
  "stage_upload_needs_preserve device_len offset sz \<longleftrightarrow> offset \<noteq> 0 \<or> ucast sz \<noteq> device_len"

definition alloc_fresh_device_buffer ::
  "(nat \<Rightarrow> u64) \<Rightarrow> encoder \<Rightarrow> u64 option \<times> encoder" where
  "alloc_fresh_device_buffer create e =
     (let h = create (en_created e); e' = e\<lparr>en_created := Suc (en_created e)\<rparr>
      in (if h = 0 then None else Some h, e'))"

definition wrap_transient ::
  "(nat \<Rightarrow> u64) \<Rightarrow> u8 list \<Rightarrow> encoder \<Rightarrow> u64 option \<times> encoder" where
  "wrap_transient create page_box e =
     (let h = create (en_created e); e' = e\<lparr>en_created := Suc (en_created e)\<rparr>
      in if h = 0 then (None, e')
         else (Some h, e'\<lparr>en_src := (en_src e')(h := \<lambda>i. page_box ! i)\<rparr>))"

definition set_device :: "u64 \<Rightarrow> u64 \<Rightarrow> encoder \<Rightarrow> encoder" where
  "set_device buffer_id h e =
     (case en_cache e buffer_id of
        None \<Rightarrow> e
      | Some s \<Rightarrow> e\<lparr>en_cache := (en_cache e)(buffer_id \<mapsto> s\<lparr>bg_device := h\<rparr>)\<rparr>)"

definition push_copy :: "u64 \<Rightarrow> u64 \<Rightarrow> u64 \<Rightarrow> u64 \<Rightarrow> encoder \<Rightarrow> encoder" where
  "push_copy src dst dst_offset sz e =
     e\<lparr>en_blits := en_blits e @ [\<lparr>ci_src = src, ci_dst = dst, ci_src_offset = 0,
         ci_dst_offset = dst_offset, ci_size = sz\<rparr>]\<rparr>"

text \<open>The destination of an upload: the live device buffer, or a fresh one when a draw of this
  frame has already read a byte the upload overwrites.\<close>

definition upload_destination ::
  "(nat \<Rightarrow> u64) \<Rightarrow> u64 \<Rightarrow> u64 \<Rightarrow> u64 \<Rightarrow> u32 \<Rightarrow> u32 \<Rightarrow> encoder \<Rightarrow> u64 \<times> encoder" where
  "upload_destination create buffer_id device_handle len dst_offset sz e =
     (if tracker_overlaps (en_tracker e) buffer_id dst_offset (sat_add dst_offset sz)
      then (case alloc_fresh_device_buffer create e of
              (None, e1) \<Rightarrow> (device_handle, e1)
            | (Some fresh, e1) \<Rightarrow>
                (let e2 = (if stage_upload_needs_preserve len dst_offset sz
                           then push_copy device_handle fresh 0 len e1 else e1);
                     e3 = set_device buffer_id fresh e2;
                     e4 = e3\<lparr>en_retained := en_retained e3 @ [(device_handle, en_seq e3)]\<rparr>
                 in (fresh, e4\<lparr>en_tracker := tracker_clear_buffer (en_tracker e4) buffer_id\<rparr>)))
      else (device_handle, e))"

definition apply_stage_upload ::
  "(nat \<Rightarrow> u64) \<Rightarrow> u64 \<Rightarrow> u8 list \<Rightarrow> u32 \<Rightarrow> u32 \<Rightarrow> encoder \<Rightarrow> encoder" where
  "apply_stage_upload create buffer_id page_box dst_offset sz e =
     (case en_cache e buffer_id of
        None \<Rightarrow> e
      | Some s \<Rightarrow>
          if \<not> bg_staged s then e
          else
            (let e1 = e\<lparr>en_cache := (en_cache e)(buffer_id \<mapsto>
                        s\<lparr>bg_last_seq := max (bg_last_seq s) (en_seq e)\<rparr>)\<rparr>;
                 len = bg_length s;
                 (device, e2) =
                   (if bg_device s = 0
                    then (case alloc_fresh_device_buffer create e1 of
                            (None, e') \<Rightarrow> (None, e')
                          | (Some fresh, e') \<Rightarrow> (Some fresh, set_device buffer_id fresh e'))
                    else (Some (bg_device s), e1))
             in case device of
                  None \<Rightarrow> e2
                | Some device_handle \<Rightarrow>
                    (case wrap_transient create page_box e2 of
                       (None, e3) \<Rightarrow> e3
                     | (Some transient, e3) \<Rightarrow>
                         (let (dst, e4) = upload_destination create buffer_id device_handle len
                                            dst_offset sz e3;
                              e5 = push_copy transient dst (ucast dst_offset) (ucast sz) e4
                          in e5\<lparr>en_pending := queue_push (en_pending e5) buffer_id (en_seq e5)
                               \<lparr>sr_buffer = buffer_id, sr_transient = transient,
                                sr_page_box = page_box, sr_dst_offset = dst_offset,
                                sr_size = sz\<rparr>\<rparr>))))"

text \<open>The staged branch of \<^verbatim>\<open>ensure_vbib_mtl_buffer\<close>: the handle a draw binds, zero on failure.\<close>

definition ensure_staged_buffer :: "(nat \<Rightarrow> u64) \<Rightarrow> u64 \<Rightarrow> encoder \<Rightarrow> u64 \<times> encoder" where
  "ensure_staged_buffer create buffer_id e =
     (case en_cache e buffer_id of
        None \<Rightarrow> (0, e)
      | Some s \<Rightarrow>
          (let e1 = e\<lparr>en_cache := (en_cache e)(buffer_id \<mapsto>
                      s\<lparr>bg_last_seq := max (bg_last_seq s) (en_seq e)\<rparr>)\<rparr>
           in if bg_device s \<noteq> 0 then (bg_device s, e1)
              else (case alloc_fresh_device_buffer create e1 of
                      (None, e2) \<Rightarrow> (0, e2)
                    | (Some fresh, e2) \<Rightarrow> (fresh, set_device buffer_id fresh e2))))"

definition note_buffer_draw_range :: "u64 \<Rightarrow> u32 \<Rightarrow> u32 \<Rightarrow> u32 \<Rightarrow> encoder \<Rightarrow> encoder" where
  "note_buffer_draw_range i offset sz logical_len e =
     e\<lparr>en_tracker := tracker_note (en_tracker e) i offset sz logical_len\<rparr>"

section \<open>One frame\<close>

text \<open>A frame's operations on staged buffers, in program order: an upload, or a draw that reads the
  window \<open>(offset, size)\<close> of a buffer whose logical length it carries.\<close>

datatype frame_op =
    Upload u64 "u8 list" u32 u32
  | Draw u64 u32 u32 u32

text \<open>What a recorded draw will read: the handle it bound and the byte offsets.\<close>

type_synonym bound_draw = "u64 \<times> nat set"

definition run_op :: "(nat \<Rightarrow> u64) \<Rightarrow> encoder \<times> bound_draw list \<Rightarrow> frame_op \<Rightarrow> encoder \<times> bound_draw list" where
  "run_op create st op =
     (let (e, draws) = st
      in case op of
           Upload i pb off sz \<Rightarrow> (apply_stage_upload create i pb off sz e, draws)
         | Draw i off sz len \<Rightarrow>
             (let (h, e1) = ensure_staged_buffer create i e
              in if h = 0 then (e1, draws)
                 else (note_buffer_draw_range i off sz len e1,
                       draws @ [(h, lock_bytes len (off, sz))])))"

definition run_ops :: "(nat \<Rightarrow> u64) \<Rightarrow> encoder \<Rightarrow> frame_op list \<Rightarrow> encoder \<times> bound_draw list" where
  "run_ops create e ops = foldl (run_op create) (e, []) ops"

text \<open>The GPU: a buffer-to-buffer copy, and the leading blits run in order.\<close>

definition run_copy :: "(u64 \<Rightarrow> nat \<Rightarrow> u8) \<Rightarrow> copy_info \<Rightarrow> u64 \<Rightarrow> nat \<Rightarrow> u8" where
  "run_copy m c = m(ci_dst c := \<lambda>i.
     if unat (ci_dst_offset c) \<le> i \<and> i < unat (ci_dst_offset c) + unat (ci_size c)
     then m (ci_src c) (unat (ci_src_offset c) + (i - unat (ci_dst_offset c)))
     else m (ci_dst c) i)"

definition gpu_memory :: "encoder \<Rightarrow> u64 \<Rightarrow> nat \<Rightarrow> u8" where
  "gpu_memory e = foldl run_copy (en_src e) (en_blits e)"

text \<open>Program order: every upload lands where it stands, and a draw sees the bytes of that moment.\<close>

definition spec_upload :: "(u64 \<Rightarrow> nat \<Rightarrow> u8) \<Rightarrow> u64 \<Rightarrow> u8 list \<Rightarrow> u32 \<Rightarrow> u32 \<Rightarrow> u64 \<Rightarrow> nat \<Rightarrow> u8" where
  "spec_upload sp i pb off sz = sp(i := \<lambda>a.
     if unat off \<le> a \<and> a < unat off + unat sz then pb ! (a - unat off) else sp i a)"

definition observe :: "nat set \<Rightarrow> (nat \<Rightarrow> u8) \<Rightarrow> nat \<Rightarrow> u8 option" where
  "observe W m = (\<lambda>a. if a \<in> W then Some (m a) else None)"

fun spec_reads :: "(u64 \<Rightarrow> nat \<Rightarrow> u8) \<Rightarrow> frame_op list \<Rightarrow> (nat \<Rightarrow> u8 option) list" where
  "spec_reads sp [] = []"
| "spec_reads sp (Upload i pb off sz # ops) = spec_reads (spec_upload sp i pb off sz) ops"
| "spec_reads sp (Draw i off sz len # ops) =
     observe (lock_bytes len (off, sz)) (sp i) # spec_reads sp ops"

section \<open>The frame invariant\<close>

definition staged_dev :: "encoder \<Rightarrow> u64 \<Rightarrow> (u64 \<times> u64) option" where
  "staged_dev e i =
     (case en_cache e i of
        None \<Rightarrow> None
      | Some s \<Rightarrow> if bg_staged s then Some (bg_device s, bg_length s) else None)"

definition used_handles :: "encoder \<Rightarrow> bound_draw list \<Rightarrow> u64 set" where
  "used_handles e draws =
     fst ` set draws \<union> {h. \<exists>i len. staged_dev e i = Some (h, len)}
     \<union> ci_src ` set (en_blits e) \<union> ci_dst ` set (en_blits e)"

text \<open>
  The pending blits give every staged buffer its program-order contents, the recorded draws
  what they saw, no two staged buffers share a device buffer, a draw on a buffer that may still
  be written is covered by the tracker, and the handles Metal has yet to give out are unused.
\<close>

definition frame_inv ::
  "(nat \<Rightarrow> u64) \<Rightarrow> nat \<Rightarrow> encoder \<Rightarrow> bound_draw list \<Rightarrow> (nat \<Rightarrow> u8 option) list
     \<Rightarrow> (u64 \<Rightarrow> nat \<Rightarrow> u8) \<Rightarrow> bool" where
  "frame_inv create N e draws obs sp \<longleftrightarrow>
     map (\<lambda>(h, W). observe W (gpu_memory e h)) draws = obs
     \<and> (\<forall>i h len. staged_dev e i = Some (h, len) \<longrightarrow>
          h \<noteq> 0 \<and> (\<forall>a<unat len. gpu_memory e h a = sp i a))
     \<and> (\<forall>i j h l l'. staged_dev e i = Some (h, l) \<and> staged_dev e j = Some (h, l') \<longrightarrow> i = j)
     \<and> (\<forall>(h, W)\<in>set draws. \<forall>i len. staged_dev e i = Some (h, len) \<longrightarrow>
          W \<subseteq> tracker_bytes (en_tracker e) i)
     \<and> (\<forall>n\<ge>en_created e. n < N \<longrightarrow> create n \<notin> used_handles e draws)"

lemma run_copy_other: "h \<noteq> ci_dst c \<Longrightarrow> run_copy m c h = m h"
  by (simp add: run_copy_def)

lemma foldl_run_copy_fresh:
  "t \<notin> ci_src ` set bs \<union> ci_dst ` set bs \<Longrightarrow>
     foldl run_copy (m(t := x)) bs = (foldl run_copy m bs)(t := x)"
proof (induction bs arbitrary: m)
  case (Cons c bs)
  then have "run_copy (m(t := x)) c = (run_copy m c)(t := x)"
    by (intro ext) (auto simp: run_copy_def)
  moreover have "foldl run_copy ((run_copy m c)(t := x)) bs = (foldl run_copy (run_copy m c) bs)(t := x)"
    using Cons.prems by (intro Cons.IH) auto
  ultimately show ?case by (simp only: foldl_Cons)
qed simp

lemma tracker_bytes_bound: "tracker_bytes t i \<subseteq> {..<4294967295}"
proof
  fix x assume "x \<in> tracker_bytes t i"
  then obtain r where "x < unat (rg_max (r::dirty_range))"
    by (auto simp: tracker_bytes_def range_bytes_def split: option.splits)
  then show "x \<in> {..<4294967295}" using u32_bound [of "rg_max r"] by simp
qed

lemma no_overlap_disjoint:
  assumes "\<not> tracker_overlaps t i off (sat_add off sz)" "x \<in> tracker_bytes t i"
  shows "\<not> (unat off \<le> x \<and> x < unat off + unat sz)"
proof -
  have "x < 4294967295" using assms(2) tracker_bytes_bound by blast
  moreover have "x \<notin> {unat off..<unat (sat_add off sz)}"
    using tracker_no_overlap [OF assms(1)] assms(2) by blast
  ultimately show ?thesis by (auto simp: unat_sat_add)
qed

lemma observe_eq: "(\<And>a. a \<in> W \<Longrightarrow> m a = m' a) \<Longrightarrow> observe W m = observe W m'"
  by (auto simp: observe_def)

lemma unat_ucast_u32 [simp]: "unat (ucast (a::u32) :: u64) = unat a"
  using u32_bound [of a] by (simp add: unsigned_ucast_eq take_bit_nat_eq_self_iff)

text \<open>What an upload does to the state, when Metal creates its buffers.\<close>

lemma apply_stage_upload_eq:
  fixes create :: "nat \<Rightarrow> u64" and off sz :: u32 and pb :: "u8 list"
  assumes dev: "staged_dev e i = Some (h, len)" and h: "h \<noteq> 0"
    and ok: "create (en_created e) \<noteq> 0" "create (Suc (en_created e)) \<noteq> 0"
  defines "t \<equiv> create (en_created e)" and "f \<equiv> create (Suc (en_created e))"
    and "e' \<equiv> apply_stage_upload create i pb off sz e"
    and "ov \<equiv> tracker_overlaps (en_tracker e) i off (sat_add off sz)"
  shows "en_src e' = (en_src e)(t := \<lambda>a. pb ! a)"
    and "staged_dev e' = (if ov then (staged_dev e)(i \<mapsto> (f, len)) else staged_dev e)"
    and "en_tracker e' = (if ov then tracker_clear_buffer (en_tracker e) i else en_tracker e)"
    and "en_created e' = (if ov then Suc (Suc (en_created e)) else Suc (en_created e))"
    and "en_blits e' = en_blits e
          @ (if ov \<and> stage_upload_needs_preserve len off sz
             then [\<lparr>ci_src = h, ci_dst = f, ci_src_offset = 0, ci_dst_offset = 0, ci_size = len\<rparr>]
             else [])
          @ [\<lparr>ci_src = t, ci_dst = (if ov then f else h), ci_src_offset = 0,
              ci_dst_offset = ucast off, ci_size = ucast sz\<rparr>]"
proof -
  obtain s where s: "en_cache e i = Some s" "bg_staged s" "bg_device s = h" "bg_length s = len"
    using dev by (auto simp: staged_dev_def split: option.splits if_splits)
  note defs = apply_stage_upload_def wrap_transient_def upload_destination_def
    alloc_fresh_device_buffer_def push_copy_def set_device_def
  show "en_src e' = (en_src e)(t := \<lambda>a. pb ! a)"
    "en_tracker e' = (if ov then tracker_clear_buffer (en_tracker e) i else en_tracker e)"
    "en_created e' = (if ov then Suc (Suc (en_created e)) else Suc (en_created e))"
    "en_blits e' = en_blits e
          @ (if ov \<and> stage_upload_needs_preserve len off sz
             then [\<lparr>ci_src = h, ci_dst = f, ci_src_offset = 0, ci_dst_offset = 0, ci_size = len\<rparr>]
             else [])
          @ [\<lparr>ci_src = t, ci_dst = (if ov then f else h), ci_src_offset = 0,
              ci_dst_offset = ucast off, ci_size = ucast sz\<rparr>]"
    using ok h by (simp_all add: e'_def t_def f_def ov_def defs s Let_def)
  have "en_cache e' = (en_cache e)(i \<mapsto> s\<lparr>bg_last_seq := max (bg_last_seq s) (en_seq e),
      bg_device := (if ov then f else h)\<rparr>)"
  proof -
    obtain q where "s = \<lparr>bg_device = h, bg_staged = True, bg_length = len, bg_last_seq = q\<rparr>"
      using s by (cases s) auto
    with ok h s show ?thesis by (simp add: e'_def t_def f_def ov_def defs Let_def)
  qed
  then show "staged_dev e' = (if ov then (staged_dev e)(i \<mapsto> (f, len)) else staged_dev e)"
    by (intro ext) (simp add: staged_dev_def s)
qed

lemma upload_memory:
  fixes create :: "nat \<Rightarrow> u64" and off sz :: u32 and pb :: "u8 list"
  assumes I: "frame_inv create N e draws obs sp" and dev: "staged_dev e i = Some (h, len)"
    and ok: "\<And>n. n < N \<Longrightarrow> create n \<noteq> 0" and inj: "inj_on create {..<N}"
    and N: "Suc (Suc (en_created e)) \<le> N"
  defines "t \<equiv> create (en_created e)" and "f \<equiv> create (Suc (en_created e))"
    and "e' \<equiv> apply_stage_upload create i pb off sz e"
    and "ov \<equiv> tracker_overlaps (en_tracker e) i off (sat_add off sz)"
    and "M \<equiv> gpu_memory e"
  shows "t \<notin> used_handles e draws" "f \<notin> used_handles e draws" "t \<noteq> f"
    and "\<And>g. g \<noteq> (if ov then f else h) \<Longrightarrow> g \<noteq> t \<Longrightarrow> gpu_memory e' g = M g"
    and "\<And>a. a < unat len \<Longrightarrow> gpu_memory e' (if ov then f else h) a =
          (if unat off \<le> a \<and> a < unat off + unat sz then pb ! (a - unat off) else M h a)"
    and "\<And>a. \<not> ov \<Longrightarrow> \<not> (unat off \<le> a \<and> a < unat off + unat sz) \<Longrightarrow> gpu_memory e' h a = M h a"
proof -
  have h: "h \<noteq> 0" using I dev by (simp add: frame_inv_def)
  have N': "en_created e < N" "Suc (en_created e) < N" using N by simp_all
  note eq = apply_stage_upload_eq [where create = create and pb = pb and off = off and sz = sz, OF dev h ok [OF N'(1)] ok [OF N'(2)], folded e'_def]
  show t: "t \<notin> used_handles e draws" and f: "f \<notin> used_handles e draws"
    using I N' unfolding t_def f_def frame_inv_def by (auto simp: le_Suc_eq)
  show tf: "t \<noteq> f" using inj_on_eq_iff [OF inj] N' by (auto simp: t_def f_def)
  have ht: "h \<noteq> t" "h \<noteq> f" using t f dev by (auto simp: used_handles_def)
  have "foldl run_copy (en_src e') (en_blits e) = M(t := \<lambda>a. pb ! a)"
    unfolding eq(1) M_def gpu_memory_def t_def [symmetric]
    using t by (intro foldl_run_copy_fresh) (auto simp: used_handles_def)
  then have G: "gpu_memory e' = foldl run_copy (M(t := \<lambda>a. pb ! a))
      ((if ov \<and> stage_upload_needs_preserve len off sz
        then [\<lparr>ci_src = h, ci_dst = f, ci_src_offset = 0, ci_dst_offset = 0, ci_size = len\<rparr>]
        else [])
       @ [\<lparr>ci_src = t, ci_dst = (if ov then f else h), ci_src_offset = 0,
           ci_dst_offset = ucast off, ci_size = ucast sz\<rparr>])"
    unfolding gpu_memory_def eq(5) ov_def t_def f_def by simp
  show "gpu_memory e' g = M g" if "g \<noteq> (if ov then f else h)" "g \<noteq> t" for g
    using that by (simp add: G run_copy_other split: if_splits)
  show "gpu_memory e' h a = M h a" if "\<not> ov" "\<not> (unat off \<le> a \<and> a < unat off + unat sz)" for a
    using that ht by (auto simp: G run_copy_def)
  show "gpu_memory e' (if ov then f else h) a =
      (if unat off \<le> a \<and> a < unat off + unat sz then pb ! (a - unat off) else M h a)"
    if a: "a < unat len" for a
  proof (cases "ov \<and> \<not> stage_upload_needs_preserve len off sz")
    case True
    then have "unat off = 0" "unat len = unat sz"
      by (auto simp: stage_upload_needs_preserve_def simp flip: unat_ucast_u32)
    with True a ht tf show ?thesis by (simp add: G run_copy_def)
  next
    case False
    with a ht tf show ?thesis by (auto simp: G run_copy_def)
  qed
qed

lemma frame_upload:
  fixes create :: "nat \<Rightarrow> u64"
  assumes I: "frame_inv create N e draws obs sp" and dev: "staged_dev e i = Some (h, len)"
    and ok: "\<And>n. n < N \<Longrightarrow> create n \<noteq> 0" and inj: "inj_on create {..<N}"
    and N: "Suc (Suc (en_created e)) \<le> N"
  shows "frame_inv create N (apply_stage_upload create i pb off sz e) draws obs
           (spec_upload sp i pb off sz)"
    (is "frame_inv create N ?e draws obs ?sp")
proof -
  let ?t = "create (en_created e)" and ?f = "create (Suc (en_created e))"
  let ?ov = "tracker_overlaps (en_tracker e) i off (sat_add off sz)"
  have h: "h \<noteq> 0" using I dev by (simp add: frame_inv_def)
  have N': "en_created e < N" "Suc (en_created e) < N" using N by simp_all
  note eq = apply_stage_upload_eq [where create = create and pb = pb and off = off and sz = sz, OF dev h ok [OF N'(1)] ok [OF N'(2)]]
  note new = upload_memory(1,2) [OF I dev ok inj N]
  note mem = upload_memory(4-6) [where pb = pb and off = off and sz = sz, OF I dev ok inj N]
  have used: "g \<noteq> ?t \<and> g \<noteq> ?f" if "g \<in> used_handles e draws" for g using new that by blast
  have obs: "observe W (gpu_memory ?e g) = observe W (gpu_memory e g)"
    if d: "(g, W) \<in> set draws" for g W
  proof (rule observe_eq)
    fix a assume a: "a \<in> W"
    have u: "g \<noteq> ?t \<and> g \<noteq> ?f" using d by (intro used) (force simp: used_handles_def)
    show "gpu_memory ?e g a = gpu_memory e g a"
    proof (cases "\<not> ?ov \<and> g = h")
      case True
      then have "W \<subseteq> tracker_bytes (en_tracker e) i" using I d dev by (fastforce simp: frame_inv_def)
      with a have "\<not> (unat off \<le> a \<and> a < unat off + unat sz)"
        using no_overlap_disjoint [of "en_tracker e" i off sz] True by blast
      with True show ?thesis by (simp add: mem(3))
    next
      case False
      then show ?thesis using u by (auto simp: mem(1))
    qed
  qed
  show ?thesis unfolding frame_inv_def
  proof (intro conjI)
    show "map (\<lambda>(h, W). observe W (gpu_memory ?e h)) draws = obs"
      using I obs by (auto simp: frame_inv_def cong: map_cong)
    show "\<forall>j g l. staged_dev ?e j = Some (g, l) \<longrightarrow> g \<noteq> 0 \<and> (\<forall>a<unat l. gpu_memory ?e g a = ?sp j a)"
    proof (intro allI impI)
      fix j g l assume d: "staged_dev ?e j = Some (g, l)"
      show "g \<noteq> 0 \<and> (\<forall>a<unat l. gpu_memory ?e g a = ?sp j a)"
      proof (cases "j = i")
        case True
        then have "g = (if ?ov then ?f else h)" "l = len" using d dev by (auto simp: eq(2) split: if_splits)
        then show ?thesis using mem(2) True I dev h ok [OF N'(2)] by (auto simp: spec_upload_def frame_inv_def)
      next
        case False
        then have dj: "staged_dev e j = Some (g, l)" using d by (auto simp: eq(2) split: if_splits)
        then have "g \<noteq> ?t \<and> g \<noteq> ?f" by (intro used) (auto simp: used_handles_def)
        moreover have "g \<noteq> h" using I dj dev False by (auto simp: frame_inv_def)
        ultimately have "gpu_memory ?e g = gpu_memory e g" by (simp add: mem(1))
        then show ?thesis using I dj False by (auto simp: frame_inv_def spec_upload_def)
      qed
    qed
    show "\<forall>i' j g l l'. staged_dev ?e i' = Some (g, l) \<and> staged_dev ?e j = Some (g, l') \<longrightarrow> i' = j"
    proof -
      have nf: "staged_dev e j \<noteq> Some (?f, l)" for j l
        using new(2) by (auto simp: used_handles_def)
      show ?thesis using I nf unfolding eq(2) frame_inv_def by (auto split: if_splits)
    qed
    show "\<forall>(g, W)\<in>set draws. \<forall>j l. staged_dev ?e j = Some (g, l) \<longrightarrow> W \<subseteq> tracker_bytes (en_tracker ?e) j"
    proof -
      have "g \<noteq> ?f" if "(g, W) \<in> set draws" for g W
        using that used [of g] by (force simp: used_handles_def)
      then show ?thesis
        using I unfolding eq(2,3) frame_inv_def
        by (fastforce simp: tracker_clear_buffer_bytes split: if_splits)
    qed
    show "\<forall>n\<ge>en_created ?e. n < N \<longrightarrow> create n \<notin> used_handles ?e draws"
    proof (intro allI impI)
      fix n assume n: "en_created ?e \<le> n" and nN: "n < N"
      then have n': "Suc (en_created e) \<le> n" "?ov \<Longrightarrow> Suc (Suc (en_created e)) \<le> n"
        by (auto simp: eq(4) split: if_splits)
      then have "create n \<notin> used_handles e draws" using I nN by (auto simp: frame_inv_def)
      moreover have "create n \<noteq> ?t" "?ov \<Longrightarrow> create n \<noteq> ?f"
        using n' inj_on_eq_iff [OF inj] nN N' by auto
      moreover have "create n \<noteq> h"
        using calculation(1) dev by (auto simp: used_handles_def)
      ultimately show "create n \<notin> used_handles ?e draws"
        unfolding used_handles_def eq(2,5) by (auto split: if_splits)
    qed
  qed
qed

lemma ensure_staged_eq:
  assumes "staged_dev e i = Some (h, len)" "h \<noteq> 0"
  shows "fst (ensure_staged_buffer create i e) = h"
    and "staged_dev (snd (ensure_staged_buffer create i e)) = staged_dev e"
    and "gpu_memory (snd (ensure_staged_buffer create i e)) = gpu_memory e"
    and "en_tracker (snd (ensure_staged_buffer create i e)) = en_tracker e"
    and "en_created (snd (ensure_staged_buffer create i e)) = en_created e"
    and "en_blits (snd (ensure_staged_buffer create i e)) = en_blits e"
proof -
  obtain s where s: "en_cache e i = Some s" "bg_staged s" "bg_device s = h" "bg_length s = len"
    using assms(1) by (auto simp: staged_dev_def split: option.splits if_splits)
  show "fst (ensure_staged_buffer create i e) = h"
    "gpu_memory (snd (ensure_staged_buffer create i e)) = gpu_memory e"
    "en_tracker (snd (ensure_staged_buffer create i e)) = en_tracker e"
    "en_created (snd (ensure_staged_buffer create i e)) = en_created e"
    "en_blits (snd (ensure_staged_buffer create i e)) = en_blits e"
    using s assms(2) by (simp_all add: ensure_staged_buffer_def gpu_memory_def)
  show "staged_dev (snd (ensure_staged_buffer create i e)) = staged_dev e"
    using s assms(2) by (intro ext) (simp add: ensure_staged_buffer_def staged_dev_def)
qed

lemma frame_draw:
  assumes I: "frame_inv create N e draws obs sp" and dev: "staged_dev e i = Some (h, l)"
    and len: "unat len \<le> unat l"
  shows "\<exists>e'. run_op create (e, draws) (Draw i off sz len)
              = (e', draws @ [(h, lock_bytes len (off, sz))])
      \<and> staged_dev e' = staged_dev e \<and> en_created e' = en_created e
      \<and> frame_inv create N e' (draws @ [(h, lock_bytes len (off, sz))])
          (obs @ [observe (lock_bytes len (off, sz)) (sp i)]) sp"
proof -
  have h: "h \<noteq> 0" and mem: "\<And>a. a < unat l \<Longrightarrow> gpu_memory e h a = sp i a"
    using I dev by (auto simp: frame_inv_def)
  define e1 where "e1 = snd (ensure_staged_buffer create i e)"
  note en = ensure_staged_eq [OF dev h, of create, folded e1_def]
  define e' where "e' = note_buffer_draw_range i off sz len e1"
  let ?W = "lock_bytes len (off, sz)"
  have e': "staged_dev e' = staged_dev e" "gpu_memory e' = gpu_memory e"
    "en_tracker e' = tracker_note (en_tracker e) i off sz len" "en_created e' = en_created e"
    "en_blits e' = en_blits e"
  proof -
    have "staged_dev e' = staged_dev e1" "gpu_memory e' = gpu_memory e1"
      by (simp_all add: e'_def note_buffer_draw_range_def staged_dev_def gpu_memory_def fun_eq_iff)
    then show "staged_dev e' = staged_dev e" "gpu_memory e' = gpu_memory e" by (simp_all add: en)
    show "en_tracker e' = tracker_note (en_tracker e) i off sz len" "en_created e' = en_created e"
      "en_blits e' = en_blits e"
      by (simp_all add: e'_def note_buffer_draw_range_def en)
  qed
  have W: "?W \<subseteq> {..<unat l}" using len by (auto simp: lock_bytes_def split: if_splits)
  have run: "run_op create (e, draws) (Draw i off sz len) = (e', draws @ [(h, ?W)])"
    using en(1) h by (simp add: run_op_def e'_def e1_def prod.case_eq_if)
  have "frame_inv create N e' (draws @ [(h, ?W)]) (obs @ [observe ?W (sp i)]) sp"
    unfolding frame_inv_def e'
  proof (intro conjI)
    show "map (\<lambda>(h, W). observe W (gpu_memory e h)) (draws @ [(h, ?W)]) = obs @ [observe ?W (sp i)]"
      using I W mem by (auto simp: frame_inv_def intro!: observe_eq)
    show "\<forall>(g, W)\<in>set (draws @ [(h, ?W)]). \<forall>j len'. staged_dev e j = Some (g, len') \<longrightarrow>
        W \<subseteq> tracker_bytes (tracker_note (en_tracker e) i off sz len) j"
    proof -
      have "j = i" if "staged_dev e j = Some (h, l')" for j l'
        using I dev that by (auto simp: frame_inv_def)
      moreover have "W \<subseteq> tracker_bytes (tracker_note (en_tracker e) i off sz len) j"
        if "(g, W) \<in> set draws" "staged_dev e j = Some (g, l')" for g W j l'
        using I that by (intro subset_trans [OF _ tracker_note_covers(1)]) (fastforce simp: frame_inv_def)
      ultimately show ?thesis using tracker_note_covers(2) by (simp add: ball_Un) blast
    qed
    show "\<forall>n\<ge>en_created e. n < N \<longrightarrow> create n \<notin> used_handles e' (draws @ [(h, ?W)])"
    proof -
      have "used_handles e' (draws @ [(h, ?W)]) = used_handles e draws"
        using dev by (auto simp: used_handles_def e')
      then show ?thesis using I by (simp add: frame_inv_def)
    qed
  qed (use I in \<open>auto simp: frame_inv_def\<close>)
  with run e' show ?thesis by blast
qed

section \<open>Frames behave as program order says\<close>

definition staged_len :: "encoder \<Rightarrow> u64 \<Rightarrow> u64 option" where
  "staged_len e i = map_option snd (staged_dev e i)"

text \<open>The operations name staged buffers, and a draw's logical length fits the device buffer.\<close>

definition op_ok :: "encoder \<Rightarrow> frame_op \<Rightarrow> bool" where
  "op_ok e op =
     (case op of
        Upload i pb off sz \<Rightarrow> staged_len e i \<noteq> None
      | Draw i off sz len \<Rightarrow>
          (case staged_len e i of None \<Rightarrow> False | Some l \<Rightarrow> unat len \<le> unat l))"

text \<open>
  What is asked of Metal for the next \<open>k\<close> buffer creations: they succeed, and the handles are
  distinct from each other and from every handle in use.
\<close>

definition metal_ok :: "(nat \<Rightarrow> u64) \<Rightarrow> nat \<Rightarrow> encoder \<Rightarrow> bool" where
  "metal_ok create k e \<longleftrightarrow>
     (\<forall>n<en_created e + k. create n \<noteq> 0) \<and> inj_on create {..<en_created e + k}
     \<and> create ` {en_created e..<en_created e + k} \<inter> used_handles e [] = {}"

text \<open>The head of a frame: no draw yet, every staged buffer has a device buffer of its own.\<close>

definition frame_start :: "encoder \<Rightarrow> bool" where
  "frame_start e \<longleftrightarrow>
     (\<forall>i. tracker_bytes (en_tracker e) i = {})
     \<and> (\<forall>i h l. staged_dev e i = Some (h, l) \<longrightarrow> h \<noteq> 0)
     \<and> (\<forall>i j h l l'. staged_dev e i = Some (h, l) \<and> staged_dev e j = Some (h, l') \<longrightarrow> i = j)"

definition buffer_contents :: "encoder \<Rightarrow> u64 \<Rightarrow> nat \<Rightarrow> u8" where
  "buffer_contents e i = (case staged_dev e i of None \<Rightarrow> \<lambda>_. 0 | Some (h, l) \<Rightarrow> gpu_memory e h)"

fun spec_final :: "(u64 \<Rightarrow> nat \<Rightarrow> u8) \<Rightarrow> frame_op list \<Rightarrow> u64 \<Rightarrow> nat \<Rightarrow> u8" where
  "spec_final sp [] = sp"
| "spec_final sp (Upload i pb off sz # ops) = spec_final (spec_upload sp i pb off sz) ops"
| "spec_final sp (Draw i off sz len # ops) = spec_final sp ops"

lemma op_ok_cong: "staged_len e' = staged_len e \<Longrightarrow> op_ok e' = op_ok e"
  by (intro ext) (simp add: op_ok_def split: frame_op.split)

lemma run_ops_inv:
  fixes create :: "nat \<Rightarrow> u64"
  assumes "frame_inv create N e draws obs sp" "list_all (op_ok e) ops"
    and ok: "\<And>n. n < N \<Longrightarrow> create n \<noteq> 0" and inj: "inj_on create {..<N}"
    and "en_created e + 2 * length ops \<le> N"
  shows "\<exists>e' draws'. foldl (run_op create) (e, draws) ops = (e', draws')
     \<and> frame_inv create N e' draws' (obs @ spec_reads sp ops) (spec_final sp ops)
     \<and> staged_len e' = staged_len e"
  using assms(1,2,5)
proof (induction ops arbitrary: e draws obs sp)
  case (Cons op ops)
  show ?case
  proof (cases op)
    case (Upload i pb off sz)
    with Cons.prems(2) obtain h l where dev: "staged_dev e i = Some (h, l)"
      by (auto simp: op_ok_def staged_len_def)
    let ?e = "apply_stage_upload create i pb off sz e"
    have N: "Suc (Suc (en_created e)) \<le> N" using Cons.prems(3) by simp
    have I: "frame_inv create N ?e draws obs (spec_upload sp i pb off sz)"
      using frame_upload [OF Cons.prems(1) dev ok inj N] by simp
    have h: "h \<noteq> 0" using Cons.prems(1) dev by (simp add: frame_inv_def)
    note eq = apply_stage_upload_eq [where create = create and pb = pb and off = off and sz = sz,
        OF dev h]
    have len: "staged_len ?e = staged_len e"
      using ok N dev by (intro ext) (simp add: staged_len_def eq)
    then have "op_ok ?e = op_ok e" by (rule op_ok_cong)
    then have ops: "list_all (op_ok ?e) ops" using Cons.prems(2) by simp
    have "en_created ?e + 2 * length ops \<le> N"
      using Cons.prems(3) ok N by (simp add: eq)
    from Cons.IH [OF I ops this] show ?thesis
      by (simp add: Upload run_op_def len)
  next
    case (Draw i off sz len)
    with Cons.prems(2) obtain h l where dev: "staged_dev e i = Some (h, l)" "unat len \<le> unat l"
      by (auto simp: op_ok_def staged_len_def split: option.splits)
    from frame_draw [OF Cons.prems(1) dev] obtain e' where
      e': "run_op create (e, draws) (Draw i off sz len) = (e', draws @ [(h, lock_bytes len (off, sz))])"
      "staged_dev e' = staged_dev e" "en_created e' = en_created e"
      "frame_inv create N e' (draws @ [(h, lock_bytes len (off, sz))])
          (obs @ [observe (lock_bytes len (off, sz)) (sp i)]) sp" by blast
    have len: "staged_len e' = staged_len e" by (simp add: staged_len_def e' fun_eq_iff)
    then have "op_ok e' = op_ok e" by (rule op_ok_cong)
    then have ops: "list_all (op_ok e') ops" using Cons.prems(2) by simp
    have "en_created e' + 2 * length ops \<le> N" using Cons.prems(3) by (simp add: e')
    from Cons.IH [OF e'(4) ops this] show ?thesis by (simp add: Draw e'(1) len)
  qed
qed simp

text \<open>
  C1. Hoisting uploads to the head of the frame is invisible. For any sequence of uploads and
  draws on staged buffers in one frame, running every blit the encoder recorded and then every
  draw gives each draw exactly the bytes it would have read had each upload taken effect at its
  own place in program order, and leaves every buffer with its program-order contents. The
  rename-at-overlap of \<^verbatim>\<open>apply_stage_upload\<close>, its skipped preserve copy on a full upload and the
  drawn-range tracker are what make it so; Metal is asked for fresh buffers that do exist.
\<close>

theorem frame_reads_program_order:
  assumes "frame_start e" and "metal_ok create (2 * length ops) e"
    and "list_all (op_ok e) ops" and "run_ops create e ops = (e', draws)"
  shows "map (\<lambda>(h, W). observe W (gpu_memory e' h)) draws = spec_reads (buffer_contents e) ops
    \<and> (\<forall>i h len a. staged_dev e' i = Some (h, len) \<longrightarrow> a < unat len \<longrightarrow>
         gpu_memory e' h a = spec_final (buffer_contents e) ops i a)"
proof -
  let ?N = "en_created e + 2 * length ops"
  have "create n \<notin> used_handles e []" if "en_created e \<le> n" "n < ?N" for n
    using assms(2) that unfolding metal_ok_def by (metis atLeastLessThan_iff disjoint_iff imageI)
  then have I: "frame_inv create ?N e [] [] (buffer_contents e)"
    using assms(1,2) by (auto simp: frame_inv_def frame_start_def metal_ok_def buffer_contents_def)
  have "frame_inv create ?N e' draws (spec_reads (buffer_contents e) ops)
      (spec_final (buffer_contents e) ops)"
    using run_ops_inv [OF I assms(3)] assms(2,4) by (auto simp: metal_ok_def run_ops_def)
  then show ?thesis by (simp add: frame_inv_def)
qed

text \<open>An upload, a draw of what it wrote, and a second upload over it: the second is renamed.\<close>

definition demo_enc :: encoder where
  "demo_enc = \<lparr>en_cache = [1 \<mapsto> \<lparr>bg_device = 9, bg_staged = True, bg_length = 4, bg_last_seq = 0\<rparr>],
     en_tracker = Map.empty, en_blits = [], en_seq = 1, en_pending = [], en_retained = [],
     en_created = 0, en_src = \<lambda>_ _. 0\<rparr>"

definition demo_ops :: "frame_op list" where
  "demo_ops = [Upload 1 [7, 7] 0 2, Draw 1 0 2 4, Upload 1 [8] 1 1]"

definition demo_create :: "nat \<Rightarrow> u64" where
  "demo_create n = word_of_nat (n + 10)"

lemma demo_create_unat: "n < 6 \<Longrightarrow> unat (demo_create n) = n + 10"
  by (simp add: demo_create_def unsigned_of_nat take_bit_nat_eq_self_iff del: of_nat_add)

lemma demo_create_inj: "inj_on demo_create {..<6}"
  by (rule inj_onI) (metis add_right_cancel demo_create_unat lessThan_iff)

theorem frame_reads_program_order_witness:
  "map (\<lambda>(h, W). observe W (gpu_memory (fst (run_ops demo_create demo_enc demo_ops)) h))
     (snd (run_ops demo_create demo_enc demo_ops)) = spec_reads (buffer_contents demo_enc) demo_ops
   \<and> en_retained (fst (run_ops demo_create demo_enc demo_ops)) = [(9, 1)]"
proof -
  have dev: "staged_dev demo_enc i = (if i = 1 then Some (9, 4) else None)" for i
    by (simp add: staged_dev_def demo_enc_def)
  have "frame_start demo_enc"
    by (auto simp: frame_start_def dev tracker_bytes_def) (simp add: demo_enc_def)
  moreover have "metal_ok demo_create (2 * length demo_ops) demo_enc"
  proof -
    have nz: "demo_create n \<noteq> 0 \<and> demo_create n \<noteq> 9" if "n < 6" for n
      using demo_create_unat [OF that] by auto
    have "used_handles demo_enc [] = {9}"
      by (auto simp: used_handles_def dev demo_enc_def [THEN arg_cong, of en_blits])
    moreover have "en_created demo_enc = 0" by (simp add: demo_enc_def)
    ultimately show ?thesis
      using nz demo_create_inj by (auto simp: metal_ok_def demo_ops_def)
  qed
  moreover have "list_all (op_ok demo_enc) demo_ops"
    by (simp add: demo_ops_def op_ok_def staged_len_def dev)
  ultimately have "map (\<lambda>(h, W). observe W (gpu_memory (fst (run_ops demo_create demo_enc demo_ops)) h))
     (snd (run_ops demo_create demo_enc demo_ops)) = spec_reads (buffer_contents demo_enc) demo_ops"
    using frame_reads_program_order [of demo_enc demo_create demo_ops] by (simp add: prod_eq_iff)
  moreover have "en_retained (fst (run_ops demo_create demo_enc demo_ops)) = [(9, 1)]"
    by (simp add: run_ops_def demo_ops_def run_op_def demo_enc_def demo_create_def
        apply_stage_upload_def wrap_transient_def upload_destination_def push_copy_def
        alloc_fresh_device_buffer_def set_device_def ensure_staged_buffer_def
        note_buffer_draw_range_def tracker_note_def tracker_overlaps_def range_overlaps_def
        range_is_empty_def conjoin_def range_empty_def sat_add_def tracker_clear_buffer_def
        stage_upload_needs_preserve_def)
  ultimately show ?thesis ..
qed

section \<open>Replaying an aborted frame\<close>

definition reissue_stage_upload :: "staged_retry \<Rightarrow> encoder \<Rightarrow> bool \<times> encoder" where
  "reissue_stage_upload retry e =
     (case en_cache e (sr_buffer retry) of
        None \<Rightarrow> (False, e)
      | Some s \<Rightarrow>
          if bg_staged s \<and> bg_device s \<noteq> 0
          then (True, push_copy (sr_transient retry) (bg_device s)
                        (ucast (sr_dst_offset retry)) (ucast (sr_size retry))
                 (e\<lparr>en_cache := (en_cache e)(sr_buffer retry \<mapsto>
                     s\<lparr>bg_last_seq := max (bg_last_seq s) (en_seq e)\<rparr>)\<rparr>))
          else (False, e))"

fun reissue_loop :: "(upload_fate \<times> staged_retry pending_upload) list \<Rightarrow> encoder \<Rightarrow> encoder" where
  "reissue_loop [] e = e"
| "reissue_loop ((fate, entry) # out) e =
     (if fate = Reissue
      then (case reissue_stage_upload (pu_payload entry) e of
              (True, e1) \<Rightarrow> reissue_loop out (e1\<lparr>en_pending := requeue (en_pending e1) entry (en_seq e1)\<rparr>)
            | (False, e1) \<Rightarrow> reissue_loop out e1)
      else reissue_loop out e)"

text \<open>The head of the next frame: a new sequence number, no blits, the drawn ranges forgotten, and
  the pending uploads settled against the counters.\<close>

definition next_frame :: "nat \<Rightarrow> nat \<Rightarrow> encoder \<Rightarrow> encoder" where
  "next_frame settled failed e =
     (let e1 = e\<lparr>en_seq := Suc (en_seq e), en_blits := [],
                 en_tracker := tracker_clear (en_tracker e)\<rparr>;
          (out, kept) = settle (en_pending e1) settled failed
      in reissue_loop out (e1\<lparr>en_pending := kept\<rparr>))"

text \<open>
  A rename whose frame aborts loses the bytes it preserved. Buffer 1 holds \<open>[1, 2, 3, 4]\<close>, all
  acknowledged. One frame draws from it and then uploads one byte over what the draw read, so
  the encoder renames: it copies the old device buffer into a fresh one and uploads there. The
  frame aborts, neither copy runs, and the next frame replays the upload alone, into the fresh
  buffer whose other bytes nobody ever wrote: the preserving copy is not in the queue.
\<close>

definition rename_enc :: "u8 \<Rightarrow> encoder" where
  "rename_enc junk = \<lparr>en_cache = [1 \<mapsto> \<lparr>bg_device = 9, bg_staged = True, bg_length = 4,
       bg_last_seq = 0\<rparr>],
     en_tracker = Map.empty, en_blits = [], en_seq = 1, en_pending = [], en_retained = [],
     en_created = 0, en_src = (\<lambda>_ _. junk)(9 := \<lambda>i. [1, 2, 3, 4] ! i)\<rparr>"

definition rename_ops :: "frame_op list" where
  "rename_ops = [Draw 1 0 4 4, Upload 1 [8] 1 1]"

text \<open>
  C36. In that run the replayed frame leaves byte 0 of buffer 1 holding whatever the fresh
  allocation held, for every such value, while program order holds 1 there.
\<close>

theorem aborted_rename_loses_preserve:
  "let e = next_frame 1 1 (fst (run_ops demo_create (rename_enc junk) rename_ops))
   in staged_dev e 1 = Some (11, 4) \<and> gpu_memory e 11 1 = 8 \<and> gpu_memory e 11 0 = junk
      \<and> spec_final (buffer_contents (rename_enc junk)) rename_ops 1 0 = 1"
proof -
  have c: "demo_create 0 = 10" "demo_create (Suc 0) = 11" by (simp_all add: demo_create_def)
  note defs = run_ops_def rename_ops_def run_op_def rename_enc_def
        apply_stage_upload_def wrap_transient_def upload_destination_def push_copy_def
        alloc_fresh_device_buffer_def set_device_def ensure_staged_buffer_def
        note_buffer_draw_range_def tracker_note_def tracker_overlaps_def range_overlaps_def
        range_is_empty_def conjoin_def range_empty_def sat_add_def tracker_clear_buffer_def
        stage_upload_needs_preserve_def queue_push_def
  have e: "next_frame 1 1 (fst (run_ops demo_create (rename_enc junk) rename_ops)) =
      \<lparr>en_cache = [1 \<mapsto> \<lparr>bg_device = 11, bg_staged = True, bg_length = 4, bg_last_seq = 2\<rparr>],
       en_tracker = Map.empty,
       en_blits = [\<lparr>ci_src = 10, ci_dst = 11, ci_src_offset = 0, ci_dst_offset = 1, ci_size = 1\<rparr>],
       en_seq = 2,
       en_pending = [\<lparr>pu_key = 1, pu_seq = 2, pu_attempts = 1, pu_payload =
         \<lparr>sr_buffer = 1, sr_transient = 10, sr_page_box = [8], sr_dst_offset = 1, sr_size = 1\<rparr>\<rparr>],
       en_retained = [(9, 1)], en_created = 2,
       en_src = (\<lambda>_ _. junk)(9 := \<lambda>i. [1, 2, 3, 4] ! i, 10 := \<lambda>i. [8] ! i)\<rparr>"
    by (simp add: defs c next_frame_def tracker_clear_def settle_def poisoned_keys_def
        MAX_REISSUE_ATTEMPTS_def reissue_stage_upload_def requeue_def)
      (auto simp: image_iff numeral_2_eq_2)
  have s: "spec_final (buffer_contents (rename_enc junk)) rename_ops 1 0 = 1"
    by (simp add: rename_ops_def spec_upload_def buffer_contents_def staged_dev_def rename_enc_def
        gpu_memory_def)
  show ?thesis
    unfolding e using s by (simp add: staged_dev_def gpu_memory_def run_copy_def)
qed

end
