(* ===== verification/D3D9_Types.thy ===== *)
theory D3D9_Types
  imports Prelude
begin

text \<open>
  The Direct3D 9 flag bits of \<^verbatim>\<open>src/windows/types/src/device.rs\<close> the modelled functions read,
  and the \<^verbatim>\<open>flags & m != 0\<close> test they read them with.
\<close>

definition D3DLOCK_READONLY :: u32 where "D3DLOCK_READONLY = 0x10"
definition D3DLOCK_NOOVERWRITE :: u32 where "D3DLOCK_NOOVERWRITE = 0x1000"
definition D3DLOCK_DISCARD :: u32 where "D3DLOCK_DISCARD = 0x2000"
definition D3DUSAGE_RENDERTARGET :: u32 where "D3DUSAGE_RENDERTARGET = 0x1"
definition D3DUSAGE_DEPTHSTENCIL :: u32 where "D3DUSAGE_DEPTHSTENCIL = 0x2"
definition D3DUSAGE_WRITEONLY :: u32 where "D3DUSAGE_WRITEONLY = 0x8"
definition D3DUSAGE_SOFTWAREPROCESSING :: u32 where "D3DUSAGE_SOFTWAREPROCESSING = 0x10"
definition D3DUSAGE_DYNAMIC :: u32 where "D3DUSAGE_DYNAMIC = 0x200"
definition D3DPOOL_DEFAULT :: u32 where "D3DPOOL_DEFAULT = 0"
definition D3DPOOL_MANAGED :: u32 where "D3DPOOL_MANAGED = 1"

definition has_flag :: "'a::len word \<Rightarrow> 'a word \<Rightarrow> bool" where
  "has_flag flags m \<longleftrightarrow> flags AND m \<noteq> 0"

lemma has_flag_bit: "has_flag flags m \<longleftrightarrow> (\<exists>n. bit flags n \<and> bit m n)"
  by (auto simp: has_flag_def bit_eq_iff [where b = 0] bit_and_iff dest: bit_imp_le_length)

lemma has_flag_or: "has_flag flags (m OR m') \<longleftrightarrow> has_flag flags m \<or> has_flag flags m'"
  by (auto simp: has_flag_bit bit_or_iff)

text \<open>Clearing bits with \<^verbatim>\<open>flags & !m\<close> removes exactly the flags of \<open>m\<close>.\<close>

lemma has_flag_clear: "has_flag (flags AND NOT m) m' \<longleftrightarrow> has_flag flags (m' AND NOT m)"
  by (auto simp: has_flag_bit bit_and_iff bit_not_iff)

end
