(* ===== verification/Buffer_Lock.thy ===== *)
theory Buffer_Lock
  imports Dirty_Range D3D9_Types
begin

text \<open>
  The API side of vertex buffers: the lock decisions of \<^verbatim>\<open>src/windows/core/src/buffer_rename.rs\<close>,
  the CPU backing of \<^verbatim>\<open>src/windows/core/src/buffer_backing.rs\<close>, and \<^verbatim>\<open>Lock\<close>, \<^verbatim>\<open>Unlock\<close> and the
  mid-lock flush of \<^verbatim>\<open>src/windows/d3d9/src/vertex_buffer.rs\<close>. A page box is the list of its bytes,
  padding included. What the device answers (an allocation, the encoder's status, a
  configuration switch) is an argument. Counters and log lines are left out.
\<close>

section \<open>Lock decisions\<close>

datatype preserve_kind = PreserveNone | PreserveCpu
datatype lock_plan = WriteInPlace | Rename preserve_kind
datatype map_mode = Direct | Staged

definition plan_lock :: "u32 \<Rightarrow> u32 \<Rightarrow> u32 \<Rightarrow> u32 \<Rightarrow> u32 \<Rightarrow> nat \<Rightarrow> nat \<Rightarrow> lock_plan" where
  "plan_lock flags usage logical_len offset_to_lock size_to_lock last_submit_seq coherent_seq =
     (if has_flag flags (D3DLOCK_NOOVERWRITE OR D3DLOCK_READONLY) then WriteInPlace
      else if last_submit_seq \<le> coherent_seq then WriteInPlace
      else if has_flag flags D3DLOCK_DISCARD then Rename PreserveNone
      else
        (let effective_size =
               (if size_to_lock = 0 then sat_sub logical_len offset_to_lock
                else min size_to_lock (sat_sub logical_len offset_to_lock));
             whole_buffer = (offset_to_lock = 0 \<and> effective_size \<ge> logical_len)
         in if whole_buffer then Rename PreserveCpu else WriteInPlace))"

definition classify_map_mode :: "u32 \<Rightarrow> u32 \<Rightarrow> map_mode" where
  "classify_map_mode usage pool =
     (if pool = D3DPOOL_DEFAULT \<and> has_flag usage D3DUSAGE_DYNAMIC then Direct else Staged)"

definition may_trust_lock_bounds :: "u32 \<Rightarrow> u32 \<Rightarrow> u32 \<Rightarrow> u32 \<Rightarrow> bool \<Rightarrow> bool" where
  "may_trust_lock_bounds flags usage pool size_to_lock ignore_configured \<longleftrightarrow>
     \<not> ignore_configured \<and> size_to_lock \<noteq> 0 \<and> \<not> has_flag flags D3DLOCK_DISCARD"

definition records_dirty_range :: "u32 \<Rightarrow> u32 \<Rightarrow> bool" where
  "records_dirty_range flags pool \<longleftrightarrow>
     \<not> (has_flag flags D3DLOCK_READONLY \<and> pool = D3DPOOL_MANAGED)"

section \<open>The CPU backing\<close>

datatype backing_class = WriteOnlyStatic | Dynamic | Other
datatype backing_state = Mirrors | Released | Partial

record buffer_backing =
  bb_box :: "u8 list option"
  bb_padded_len :: nat
  bb_logical_len :: u32
  bb_class :: backing_class
  bb_state :: backing_state
  bb_pinned :: bool

definition may_release_backing :: "u32 \<Rightarrow> u32 \<Rightarrow> bool" where
  "may_release_backing usage pool \<longleftrightarrow>
     pool = D3DPOOL_DEFAULT \<and> has_flag usage D3DUSAGE_WRITEONLY
     \<and> \<not> has_flag usage (D3DUSAGE_DYNAMIC OR D3DUSAGE_SOFTWAREPROCESSING)"

definition classify_backing :: "u32 \<Rightarrow> u32 \<Rightarrow> backing_class" where
  "classify_backing usage pool =
     (if may_release_backing usage pool then WriteOnlyStatic
      else if has_flag usage D3DUSAGE_DYNAMIC then Dynamic else Other)"

definition PAGE_SIZE :: nat where "PAGE_SIZE = 16 * 1024"

definition padded_len :: "nat \<Rightarrow> nat" where
  "padded_len logical_len = (max logical_len 1 + PAGE_SIZE - 1) div PAGE_SIZE * PAGE_SIZE"

definition page_box_new_zeroed :: "nat \<Rightarrow> u8 list" where
  "page_box_new_zeroed logical_len = replicate (padded_len logical_len) 0"

definition backing_new :: "u8 list \<Rightarrow> u32 \<Rightarrow> backing_class \<Rightarrow> buffer_backing" where
  "backing_new page_box logical_len cls =
     \<lparr>bb_box = Some page_box, bb_padded_len = length page_box, bb_logical_len = logical_len,
      bb_class = cls, bb_state = Mirrors, bb_pinned = False\<rparr>"

definition backing_is_released :: "buffer_backing \<Rightarrow> bool" where
  "backing_is_released b \<longleftrightarrow> bb_state b = Released"

definition may_widen_upload :: "buffer_backing \<Rightarrow> bool" where
  "may_widen_upload b \<longleftrightarrow> bb_state b = Mirrors"

definition backing_release :: "buffer_backing \<Rightarrow> u8 list option \<times> buffer_backing" where
  "backing_release b =
     (case bb_box b of
        None \<Rightarrow> (None, b)
      | Some pb \<Rightarrow> (Some pb, b\<lparr>bb_box := None, bb_state := Released\<rparr>))"

definition backing_restore :: "buffer_backing \<Rightarrow> u8 list \<Rightarrow> buffer_backing" where
  "backing_restore b page_box =
     b\<lparr>bb_padded_len := length page_box, bb_box := Some page_box, bb_state := Partial\<rparr>"

definition backing_replace :: "buffer_backing \<Rightarrow> u8 list \<Rightarrow> u8 list option \<times> buffer_backing" where
  "backing_replace b page_box =
     (case bb_box b of
        None \<Rightarrow> (None, b)
      | Some old \<Rightarrow> (Some old, b\<lparr>bb_padded_len := length page_box, bb_box := Some page_box\<rparr>))"

text \<open>\<^verbatim>\<open>adopt_device_copy\<close>; filling a partial backing of another length panics in the source.\<close>

definition adopt_device_copy :: "buffer_backing \<Rightarrow> u8 list \<Rightarrow> buffer_backing option" where
  "adopt_device_copy b page_box =
     (case bb_state b of
        Mirrors \<Rightarrow> Some b
      | Partial \<Rightarrow>
          (case bb_box b of
             None \<Rightarrow> None
           | Some old \<Rightarrow>
               if length old \<noteq> length page_box then None
               else Some (b\<lparr>bb_box := Some page_box, bb_state := Mirrors, bb_pinned := True\<rparr>))
      | Released \<Rightarrow> Some (b\<lparr>bb_padded_len := length page_box, bb_box := Some page_box,
                           bb_state := Mirrors, bb_pinned := True\<rparr>))"

definition note_upload :: "buffer_backing \<Rightarrow> u32 \<Rightarrow> u32 \<Rightarrow> buffer_backing" where
  "note_upload b mn mx =
     (if bb_state b = Partial \<and> mn = 0 \<and> mx \<ge> bb_logical_len b
      then b\<lparr>bb_state := Mirrors\<rparr> else b)"

text \<open>\<^verbatim>\<open>read_ptr_at\<close> and \<^verbatim>\<open>write_ptr_at\<close>: the offset itself stands for the pointer.\<close>

definition ptr_at :: "buffer_backing \<Rightarrow> nat \<Rightarrow> nat option" where
  "ptr_at b offset =
     (case bb_box b of
        None \<Rightarrow> None
      | Some pb \<Rightarrow> if offset > length pb then None else Some offset)"

section \<open>The vertex buffer\<close>

datatype hresult = D3D_OK | D3DERR_INVALIDCALL | DeviceError

record vertex_buffer =
  vb_device_null :: bool
  vb_length :: u32
  vb_usage :: u32
  vb_pool :: u32
  vb_map_mode :: map_mode
  vb_dirty :: dirty_range
  vb_backing :: buffer_backing
  vb_last_submit_seq :: nat
  vb_lock_count :: u32

definition vb_new :: "u32 \<Rightarrow> u32 \<Rightarrow> u32 \<Rightarrow> vertex_buffer" where
  "vb_new len usage pool =
     (let map_mode = classify_map_mode usage pool
      in \<lparr>vb_device_null = False, vb_length = len, vb_usage = usage, vb_pool = pool,
          vb_map_mode = map_mode,
          vb_dirty = (if map_mode = Staged then range_full len else range_empty),
          vb_backing = backing_new (page_box_new_zeroed (unat len)) len
                         (classify_backing usage pool),
          vb_last_submit_seq = 0, vb_lock_count = 0\<rparr>)"

text \<open>\<^verbatim>\<open>Direct3DVertexBuffer9::new\<close> answers nothing when the zeroed backing cannot be allocated.\<close>

definition vb_create :: "bool \<Rightarrow> u32 \<Rightarrow> u32 \<Rightarrow> u32 \<Rightarrow> vertex_buffer option" where
  "vb_create alloc_ok len usage pool = (if alloc_ok then Some (vb_new len usage pool) else None)"

definition restore_backing :: "vertex_buffer \<Rightarrow> vertex_buffer" where
  "restore_backing vb =
     (if \<not> backing_is_released (vb_backing vb) then vb
      else vb\<lparr>vb_backing := backing_restore (vb_backing vb)
                (page_box_new_zeroed (unat (vb_length vb)))\<rparr>)"

definition stamp_submit_seq :: "nat \<Rightarrow> vertex_buffer \<Rightarrow> vertex_buffer" where
  "stamp_submit_seq seq vb =
     (if seq > vb_last_submit_seq vb then vb\<lparr>vb_last_submit_seq := seq\<rparr> else vb)"

definition ignore_lock_bounds :: "bool \<Rightarrow> vertex_buffer \<Rightarrow> bool" where
  "ignore_lock_bounds configured vb \<longleftrightarrow> \<not> vb_device_null vb \<and> configured"

text \<open>The staged arm of \<^verbatim>\<open>vb_lock\<close>: which window the next upload will carry.\<close>

definition lock_staged :: "bool \<Rightarrow> u32 \<Rightarrow> u32 \<Rightarrow> u32 \<Rightarrow> vertex_buffer \<Rightarrow> vertex_buffer" where
  "lock_staged configured offset_to_lock size_to_lock flags vb =
     (if vb_map_mode vb = Staged \<and> records_dirty_range flags (vb_pool vb)
      then
        (let trusted = may_trust_lock_bounds flags (vb_usage vb) (vb_pool vb) size_to_lock
                         (ignore_lock_bounds configured vb);
             discard = has_flag flags D3DLOCK_DISCARD;
             widen = (\<not> trusted \<and> (may_widen_upload (vb_backing vb) \<or> discard));
             (dirty_offset, dirty_size) = (if widen then (0, 0) else (offset_to_lock, size_to_lock))
         in vb\<lparr>vb_dirty := conjoin (vb_dirty vb) dirty_offset dirty_size (vb_length vb)\<rparr>)
      else vb)"

text \<open>
  The direct arm of \<^verbatim>\<open>vb_lock\<close>. \<open>fresh\<close> is what the capped allocation answers. The result is
  an early return, or the buffer with the old backing to retain and the sequence number its
  retention waits for.
\<close>

definition lock_direct ::
  "nat \<Rightarrow> u8 list option \<Rightarrow> u32 \<Rightarrow> u32 \<Rightarrow> u32 \<Rightarrow> vertex_buffer
     \<Rightarrow> hresult + (vertex_buffer \<times> (u8 list \<times> nat) option)" where
  "lock_direct coh fresh offset_to_lock size_to_lock flags vb =
     (let bypass_rename = has_flag flags (D3DLOCK_NOOVERWRITE OR D3DLOCK_READONLY)
      in if vb_map_mode vb = Direct \<and> \<not> bypass_rename \<and> \<not> vb_device_null vb
         then
           (case plan_lock flags (vb_usage vb) (vb_length vb) offset_to_lock size_to_lock
                   (vb_last_submit_seq vb) coh of
              WriteInPlace \<Rightarrow> Inr (vb, None)
            | Rename preserve \<Rightarrow>
                (case fresh of
                   None \<Rightarrow> Inl DeviceError
                 | Some new_box \<Rightarrow>
                     (case backing_replace (vb_backing vb) new_box of
                        (None, _) \<Rightarrow> Inl D3DERR_INVALIDCALL
                      | (Some old_box, b) \<Rightarrow>
                          (let n = unat (vb_length vb);
                               b' = (case preserve of
                                       PreserveNone \<Rightarrow> b
                                     | PreserveCpu \<Rightarrow>
                                         b\<lparr>bb_box := Some (take n old_box @ drop n new_box)\<rparr>)
                           in Inr (vb\<lparr>vb_backing := b', vb_last_submit_seq := 0\<rparr>,
                                   Some (old_box, vb_last_submit_seq vb))))))
         else Inr (vb, None))"

record lock_result =
  lr_hr :: hresult
  lr_ptr :: "nat option"
  lr_vb :: vertex_buffer
  lr_retained :: "(u8 list \<times> nat) option"

definition vb_lock ::
  "bool \<Rightarrow> nat \<Rightarrow> u8 list option \<Rightarrow> bool \<Rightarrow> u32 \<Rightarrow> u32 \<Rightarrow> u32 \<Rightarrow> vertex_buffer \<Rightarrow> lock_result" where
  "vb_lock configured coh fresh pp_null offset_to_lock size_to_lock flags vb =
     (if pp_null \<or> offset_to_lock > vb_length vb
      then \<lparr>lr_hr = D3DERR_INVALIDCALL, lr_ptr = None, lr_vb = vb, lr_retained = None\<rparr>
      else
        (let vb1 = restore_backing vb;
             vb2 = lock_staged configured offset_to_lock size_to_lock flags vb1
         in case lock_direct coh fresh offset_to_lock size_to_lock flags vb2 of
              Inl hr \<Rightarrow> \<lparr>lr_hr = hr, lr_ptr = None, lr_vb = vb2, lr_retained = None\<rparr>
            | Inr (vb3, retained) \<Rightarrow>
                (case ptr_at (vb_backing vb3) (unat offset_to_lock) of
                   None \<Rightarrow> \<lparr>lr_hr = D3DERR_INVALIDCALL, lr_ptr = None, lr_vb = vb3,
                            lr_retained = retained\<rparr>
                 | Some p \<Rightarrow> \<lparr>lr_hr = D3D_OK, lr_ptr = Some p,
                              lr_vb = vb3\<lparr>vb_lock_count := sat_add (vb_lock_count vb3) 1\<rparr>,
                              lr_retained = retained\<rparr>)))"

definition release_backing_after_upload :: "bool \<Rightarrow> vertex_buffer \<Rightarrow> vertex_buffer" where
  "release_backing_after_upload configured vb =
     (if vb_lock_count vb \<noteq> 0 \<or> ignore_lock_bounds configured vb
         \<or> \<not> may_release_backing (vb_usage vb) (vb_pool vb)
         \<or> \<not> may_widen_upload (vb_backing vb)
      then vb
      else vb\<lparr>vb_backing := snd (backing_release (vb_backing vb))\<rparr>)"

text \<open>An upload pushed to the encoder: destination offset and the snapshot of the bytes.\<close>

type_synonym staged_upload = "u32 \<times> u8 list"

text \<open>
  The upload both \<^verbatim>\<open>vb_unlock\<close> and \<^verbatim>\<open>flush_mapped_dirty_span\<close> make: the bytes \<open>[mn, mx)\<close> of the
  backing, if the transient could be allocated.
\<close>

definition snapshot_span :: "u8 list \<Rightarrow> u32 \<Rightarrow> u32 \<Rightarrow> u8 list" where
  "snapshot_span pb mn mx = take (unat (mx - mn)) (drop (unat mn) pb)"

definition flush_mapped_dirty_span ::
  "bool \<Rightarrow> vertex_buffer \<Rightarrow> vertex_buffer \<times> staged_upload option" where
  "flush_mapped_dirty_span alloc_ok vb =
     (case range_span (vb_dirty vb) of
        None \<Rightarrow> (vb, None)
      | Some (mn, mx) \<Rightarrow>
          (case bb_box (vb_backing vb) of
             None \<Rightarrow> (vb, None)
           | Some pb \<Rightarrow>
               if unat mn > length pb \<or> \<not> alloc_ok then (vb, None)
               else (vb\<lparr>vb_backing := note_upload (vb_backing vb) mn mx\<rparr>,
                     Some (mn, snapshot_span pb mn mx))))"

definition flush_staged_if_mapped ::
  "bool \<Rightarrow> vertex_buffer \<Rightarrow> vertex_buffer \<times> staged_upload option" where
  "flush_staged_if_mapped alloc_ok vb =
     (if vb_lock_count vb = 0 \<or> vb_map_mode vb \<noteq> Staged then (vb, None)
      else flush_mapped_dirty_span alloc_ok vb)"

definition vb_unlock ::
  "bool \<Rightarrow> bool \<Rightarrow> bool \<Rightarrow> vertex_buffer \<Rightarrow> hresult \<times> vertex_buffer \<times> staged_upload option" where
  "vb_unlock configured alloc_ok enc_ok vb =
     (let vb1 = (if vb_lock_count vb = 0 then vb
                 else vb\<lparr>vb_lock_count := vb_lock_count vb - 1\<rparr>)
      in if vb_lock_count vb \<noteq> 0 \<and> vb_lock_count vb1 \<noteq> 0 then (D3D_OK, vb1, None)
         else if vb_map_mode vb1 = Staged \<and> \<not> vb_device_null vb1
         then
           (case range_span (vb_dirty vb1) of
              None \<Rightarrow> (D3D_OK, vb1, None)
            | Some (mn, mx) \<Rightarrow>
                (case bb_box (vb_backing vb1) of
                   None \<Rightarrow> (D3D_OK, vb1\<lparr>vb_dirty := range_clear (vb_dirty vb1)\<rparr>, None)
                 | Some pb \<Rightarrow>
                     if unat mn > length pb
                     then (D3D_OK, vb1\<lparr>vb_dirty := range_clear (vb_dirty vb1)\<rparr>, None)
                     else if \<not> alloc_ok then (DeviceError, vb1, None)
                     else
                       (let vb2 = vb1\<lparr>vb_backing := note_upload (vb_backing vb1) mn mx\<rparr>;
                            upload = Some (mn, snapshot_span pb mn mx)
                        in if \<not> enc_ok then (DeviceError, vb2, upload)
                           else (D3D_OK,
                                 release_backing_after_upload configured
                                   (vb2\<lparr>vb_dirty := range_clear (vb_dirty vb2)\<rparr>),
                                 upload))))
         else (D3D_OK, vb1, None))"

section \<open>Direct buffers\<close>

lemma lessThan_subset_interval: "{..<n} \<subseteq> {a..<b} \<longleftrightarrow> n = 0 \<or> a = 0 \<and> n \<le> (b::nat)"
proof
  assume sub: "{..<n} \<subseteq> {a..<b}"
  show "n = 0 \<or> a = 0 \<and> n \<le> b"
  proof (cases "n = 0")
    case False
    then have "0 \<in> {..<n}" "n - 1 \<in> {..<n}" by auto
    then have "0 \<in> {a..<b}" "n - 1 \<in> {a..<b}" using sub by blast+
    then show ?thesis by auto
  qed simp
qed auto

lemma whole_window:
  fixes off sz len :: u32
  assumes "off \<le> len"
  shows "off = 0 \<and> (if sz = 0 then sat_sub len off else min sz (sat_sub len off)) \<ge> len
     \<longleftrightarrow> {..<unat len} \<subseteq> lock_bytes len (off, sz)"
proof -
  have "{..<unat len} \<subseteq> lock_bytes len (off, sz)
      \<longleftrightarrow> unat len = 0 \<or> unat off = 0 \<and> (unat sz = 0 \<or> unat len \<le> unat sz)"
    by (auto simp: lock_bytes_def unat_eq_zero lessThan_subset_interval)
  moreover have "off = 0 \<longleftrightarrow> unat off = 0" "sz = 0 \<longleftrightarrow> unat sz = 0" by (simp_all add: unat_eq_zero)
  moreover have "unat off \<le> unat len" using assms by (simp add: word_le_nat_alt)
  ultimately show ?thesis
    by (auto simp: word_le_nat_alt unat_min unat_sat_sub)
qed



text \<open>
  C22. A lock of a zero-copy buffer never disturbs bytes the GPU may be reading, and never loses
  bytes the game may read. When the lock succeeds, either the backing is the same allocation
  with the same bytes, or the buffer was contended, the old allocation is handed to retention
  unchanged under the sequence number of its last submit, and, unless the lock discards, the
  fresh backing starts with the same logical bytes.
\<close>

theorem direct_lock_preserves:
  assumes "vb_map_mode vb = Direct" and "bb_state (vb_backing vb) \<noteq> Released"
    and "bb_box (vb_backing vb) = Some pb" and "unat (vb_length vb) \<le> length pb"
    and "\<forall>f. fresh = Some f \<longrightarrow> unat (vb_length vb) \<le> length f"
    and "lr_hr (vb_lock cfg coh fresh pp off sz flags vb) = D3D_OK"
  shows "\<exists>pb'. bb_box (vb_backing (lr_vb (vb_lock cfg coh fresh pp off sz flags vb))) = Some pb'
     \<and> (case lr_retained (vb_lock cfg coh fresh pp off sz flags vb) of
          None \<Rightarrow> pb' = pb
        | Some (old, seq) \<Rightarrow> old = pb \<and> seq = vb_last_submit_seq vb \<and> coh < seq
            \<and> (\<not> has_flag flags D3DLOCK_DISCARD \<longrightarrow>
                 take (unat (vb_length vb)) pb' = take (unat (vb_length vb)) pb))"
proof -
  have guard: "\<not> (pp \<or> off > vb_length vb)" using assms(6) by (auto simp: vb_lock_def)
  have vb: "lock_staged cfg off sz flags (restore_backing vb) = vb"
    using assms(1,2) by (simp add: restore_backing_def backing_is_released_def lock_staged_def)
  show ?thesis
  proof (cases "lock_direct coh fresh off sz flags vb")
    case (Inl hr)
    then have "hr \<noteq> D3D_OK"
      by (auto simp: lock_direct_def Let_def split: if_splits lock_plan.splits option.splits prod.splits)
    with Inl assms(6) guard vb show ?thesis by (simp add: vb_lock_def)
  next
    case (Inr r)
    obtain vb3 ret where r: "r = (vb3, ret)" by force
    have res: "lr_vb (vb_lock cfg coh fresh pp off sz flags vb)
        = vb3\<lparr>vb_lock_count := sat_add (vb_lock_count vb3) 1\<rparr>"
      "lr_retained (vb_lock cfg coh fresh pp off sz flags vb) = ret"
      using assms(6) guard vb Inr r by (auto simp: vb_lock_def split: option.splits)
    show ?thesis
    proof (cases ret)
      case None
      then have "vb3 = vb"
        using Inr r by (auto simp: lock_direct_def Let_def split: if_splits lock_plan.splits
            option.splits prod.splits)
      with None show ?thesis using assms(3) by (simp add: res)
    next
      case (Some os)
      then obtain p f where
        p: "plan_lock flags (vb_usage vb) (vb_length vb) off sz (vb_last_submit_seq vb) coh = Rename p"
        and f: "fresh = Some f"
        and os: "os = (pb, vb_last_submit_seq vb)"
        and v3: "bb_box (vb_backing vb3) = Some (case p of PreserveNone \<Rightarrow> f
           | PreserveCpu \<Rightarrow> take (unat (vb_length vb)) pb @ drop (unat (vb_length vb)) f)"
        using Inr r assms(3)
        by (auto simp: lock_direct_def backing_replace_def Let_def split: if_splits lock_plan.splits
            option.splits preserve_kind.splits)
      have "coh < vb_last_submit_seq vb" "\<not> has_flag flags D3DLOCK_DISCARD \<Longrightarrow> p = PreserveCpu"
        using p by (auto simp: plan_lock_def Let_def split: if_splits)
      then show ?thesis
        using assms(4) by (auto simp: res Some os v3)
    qed
  qed
qed

theorem direct_lock_preserves_witness:
  "\<exists>pb'. bb_box (vb_backing (lr_vb (vb_lock False 4 (Some [9, 9]) False 0 0 0
      \<lparr>vb_device_null = False, vb_length = 2, vb_usage = 0x200, vb_pool = 0, vb_map_mode = Direct,
       vb_dirty = range_empty, vb_backing = backing_new [1, 2] 2 Dynamic,
       vb_last_submit_seq = 5, vb_lock_count = 0\<rparr>))) = Some pb' \<and> take 2 pb' = [1, 2]"
proof -
  let ?vb = "\<lparr>vb_device_null = False, vb_length = 2, vb_usage = 0x200, vb_pool = 0,
       vb_map_mode = Direct, vb_dirty = range_empty, vb_backing = backing_new [1, 2] 2 Dynamic,
       vb_last_submit_seq = 5, vb_lock_count = 0\<rparr>"
  let ?r = "vb_lock False 4 (Some [9, 9]) False 0 0 0 ?vb"
  have r: "lr_hr ?r = D3D_OK" "lr_retained ?r = Some ([1, 2], 5)"
    by (simp_all add: vb_lock_def restore_backing_def backing_is_released_def backing_new_def
        lock_staged_def lock_direct_def has_flag_def plan_lock_def sat_sub_def backing_replace_def
        ptr_at_def)
  show ?thesis
    using direct_lock_preserves [OF _ _ _ _ _ r(1), of "[1, 2]"] r(2)
    by (auto simp: backing_new_def has_flag_def)
qed

section \<open>Staged buffers: what reaches the device\<close>

text \<open>
  A staged buffer with the device copy of its bytes after every queued upload, the contents the
  application sees by D3D9's rules (\<open>sy_truth\<close>: its own writes through the pointers it was
  given, at once), and the windows of the locks it may write through.
\<close>

record vb_system =
  sy_vb :: vertex_buffer
  sy_dev :: "nat \<Rightarrow> u8"
  sy_truth :: "nat \<Rightarrow> u8"
  sy_windows :: "(u32 \<times> u32) list"

definition apply_upload :: "staged_upload option \<Rightarrow> (nat \<Rightarrow> u8) \<Rightarrow> nat \<Rightarrow> u8" where
  "apply_upload u dev =
     (case u of
        None \<Rightarrow> dev
      | Some (off, bs) \<Rightarrow> \<lambda>i. if unat off \<le> i \<and> i < unat off + length bs
                              then bs ! (i - unat off) else dev i)"

definition sys_lock ::
  "bool \<Rightarrow> nat \<Rightarrow> u8 list option \<Rightarrow> bool \<Rightarrow> u32 \<Rightarrow> u32 \<Rightarrow> u32 \<Rightarrow> vb_system \<Rightarrow> vb_system" where
  "sys_lock cfg coh fresh pp off sz flags s =
     (let r = vb_lock cfg coh fresh pp off sz flags (sy_vb s)
      in s\<lparr>sy_vb := lr_vb r,
           sy_windows := (if lr_hr r = D3D_OK \<and> \<not> has_flag flags D3DLOCK_READONLY
                          then (off, sz) # sy_windows s else sy_windows s)\<rparr>)"

definition vb_write :: "nat \<Rightarrow> u8 \<Rightarrow> vertex_buffer \<Rightarrow> vertex_buffer" where
  "vb_write i v vb =
     vb\<lparr>vb_backing := (vb_backing vb)\<lparr>bb_box := map_option (\<lambda>pb. pb[i := v]) (bb_box (vb_backing vb))\<rparr>\<rparr>"

definition sys_write :: "nat \<Rightarrow> u8 \<Rightarrow> vb_system \<Rightarrow> vb_system" where
  "sys_write i v s = s\<lparr>sy_vb := vb_write i v (sy_vb s), sy_truth := (sy_truth s)(i := v)\<rparr>"

definition sys_flush :: "bool \<Rightarrow> vb_system \<Rightarrow> vb_system" where
  "sys_flush alloc_ok s =
     (let (vb, u) = flush_staged_if_mapped alloc_ok (sy_vb s)
      in s\<lparr>sy_vb := vb, sy_dev := apply_upload u (sy_dev s)\<rparr>)"

definition sys_unlock :: "bool \<Rightarrow> bool \<Rightarrow> bool \<Rightarrow> vb_system \<Rightarrow> vb_system" where
  "sys_unlock cfg alloc_ok enc_ok s =
     (let (hr, vb, u) = vb_unlock cfg alloc_ok enc_ok (sy_vb s)
      in s\<lparr>sy_vb := vb, sy_dev := apply_upload u (sy_dev s),
           sy_windows := (if vb_lock_count vb = 0 then [] else sy_windows s)\<rparr>)"

text \<open>A new staged buffer whose CPU backing is kept for life: its device copy starts undefined.\<close>

definition sys_init :: "bool \<Rightarrow> vb_system \<Rightarrow> bool" where
  "sys_init cfg s \<longleftrightarrow>
     (\<exists>len usage pool. sy_vb s = vb_new len usage pool \<and> classify_map_mode usage pool = Staged
        \<and> (cfg \<or> \<not> may_release_backing usage pool))
     \<and> sy_truth s = (\<lambda>_. 0) \<and> sy_windows s = []"

inductive sys_step :: "bool \<Rightarrow> vb_system \<Rightarrow> vb_system \<Rightarrow> bool" for cfg where
  sys_step_lock: "sys_step cfg s (sys_lock cfg coh fresh pp off sz flags s)"
| sys_step_write: "w \<in> set (sy_windows s) \<Longrightarrow> i \<in> lock_bytes (vb_length (sy_vb s)) w \<Longrightarrow>
    sys_step cfg s (sys_write i v s)"
| sys_step_flush: "sys_step cfg s (sys_flush alloc_ok s)"
| sys_step_unlock: "sys_step cfg s (sys_unlock cfg alloc_ok enc_ok s)"

text \<open>
  The invariant: the backing is the application's view, and the device copy is too outside the
  dirty range, which contains every window still open for writing.
\<close>

definition sys_inv :: "bool \<Rightarrow> vb_system \<Rightarrow> bool" where
  "sys_inv cfg s \<longleftrightarrow>
     (let vb = sy_vb s; len = vb_length vb; D = range_bytes (vb_dirty vb)
      in vb_map_mode vb = Staged \<and> \<not> vb_device_null vb
         \<and> (cfg \<or> \<not> may_release_backing (vb_usage vb) (vb_pool vb))
         \<and> bb_state (vb_backing vb) = Mirrors
         \<and> (\<exists>pb. bb_box (vb_backing vb) = Some pb \<and> unat len \<le> length pb
              \<and> (\<forall>i<unat len. pb ! i = sy_truth s i))
         \<and> unat (rg_max (vb_dirty vb)) \<le> unat len
         \<and> (\<forall>i<unat len. i \<notin> D \<longrightarrow> sy_dev s i = sy_truth s i)
         \<and> (\<forall>w\<in>set (sy_windows s). lock_bytes len w \<subseteq> D))"

lemma apply_snapshot:
  assumes "range_span r = Some (mn, mx)" "unat mx \<le> length pb"
  shows "apply_upload (Some (mn, snapshot_span pb mn mx)) dev i
     = (if i \<in> range_bytes r then pb ! i else dev i)"
proof -
  have r: "range_bytes r = {unat mn..<unat mx}" and lt: "unat mn < unat mx"
    using range_span_Some [OF assms(1)] by auto
  have d: "unat (mx - mn) = unat mx - unat mn" using lt by (intro unat_sub_le) (simp add: word_le_nat_alt)
  have l: "length (snapshot_span pb mn mx) = unat mx - unat mn"
    using assms(2) by (simp add: snapshot_span_def d)
  show ?thesis
    using lt assms(2) by (auto simp: apply_upload_def l r) (simp add: snapshot_span_def d)
qed

lemma range_span_max:
  "range_span r = Some (mn, mx) \<Longrightarrow> mx = rg_max r"
  by (auto simp: range_span_def split: if_splits)

lemma lock_staged_dirty:
  fixes cfg :: bool and off sz flags :: u32
  assumes "vb_map_mode vb = Staged" "unat (rg_max (vb_dirty vb)) \<le> unat (vb_length vb)"
  defines "vb' \<equiv> lock_staged cfg off sz flags vb"
  shows "range_bytes (vb_dirty vb) \<subseteq> range_bytes (vb_dirty vb')"
    and "unat (rg_max (vb_dirty vb')) \<le> unat (vb_length vb)"
    and "\<not> has_flag flags D3DLOCK_READONLY \<Longrightarrow>
          lock_bytes (vb_length vb) (off, sz) \<subseteq> range_bytes (vb_dirty vb')"
    and "vb' = vb\<lparr>vb_dirty := vb_dirty vb'\<rparr>"
proof -
  have all: "lock_bytes len w \<subseteq> lock_bytes len (0, 0)" for len w
    by (auto simp: lock_bytes_def split: if_splits)
  show "range_bytes (vb_dirty vb) \<subseteq> range_bytes (vb_dirty vb')"
    by (auto simp: vb'_def lock_staged_def Let_def conjoin_bytes hull_Un [THEN subsetD])
  show "unat (rg_max (vb_dirty vb')) \<le> unat (vb_length vb)"
    using assms(2) by (auto simp: vb'_def lock_staged_def Let_def conjoin_max)
  show "vb' = vb\<lparr>vb_dirty := vb_dirty vb'\<rparr>"
    by (simp add: vb'_def lock_staged_def Let_def split: prod.splits)
  assume "\<not> has_flag flags D3DLOCK_READONLY"
  then have rec: "records_dirty_range flags (vb_pool vb)" by (simp add: records_dirty_range_def)
  show "lock_bytes (vb_length vb) (off, sz) \<subseteq> range_bytes (vb_dirty vb')"
  proof -
    let ?d = "range_bytes (vb_dirty vb)" and ?l = "lock_bytes (vb_length vb)"
    have "?l (off, sz) \<subseteq> hull (?d \<union> ?l (off, sz))" by (rule hull_Un(2)) simp_all
    moreover have "?l (off, sz) \<subseteq> hull (?d \<union> ?l (0, 0))"
      by (rule subset_trans [OF all hull_Un(2)]) simp_all
    ultimately show ?thesis
      using assms(1) rec by (simp add: vb'_def lock_staged_def Let_def conjoin_bytes)
  qed
qed

lemma vb_lock_staged:
  assumes "vb_map_mode vb = Staged" "bb_state (vb_backing vb) = Mirrors"
  shows "vb_lock cfg coh fresh pp off sz flags vb =
    (if pp \<or> off > vb_length vb
     then \<lparr>lr_hr = D3DERR_INVALIDCALL, lr_ptr = None, lr_vb = vb, lr_retained = None\<rparr>
     else
       (let vb' = lock_staged cfg off sz flags vb
        in case ptr_at (vb_backing vb') (unat off) of
             None \<Rightarrow> \<lparr>lr_hr = D3DERR_INVALIDCALL, lr_ptr = None, lr_vb = vb', lr_retained = None\<rparr>
           | Some p \<Rightarrow> \<lparr>lr_hr = D3D_OK, lr_ptr = Some p,
                lr_vb = vb'\<lparr>vb_lock_count := sat_add (vb_lock_count vb') 1\<rparr>,
                lr_retained = None\<rparr>))"
proof -
  have "vb_map_mode (lock_staged cfg off sz flags vb) = Staged"
    using assms(1) by (simp add: lock_staged_def Let_def split: prod.splits)
  then show ?thesis
    using assms by (simp add: vb_lock_def restore_backing_def backing_is_released_def
        lock_direct_def Let_def)
qed

lemma inv_sys_lock:
  assumes "sys_inv cfg s"
  shows "sys_inv cfg (sys_lock cfg coh fresh pp off sz flags s)"
proof -
  let ?vb = "sy_vb s"
  have st: "vb_map_mode ?vb = Staged" "bb_state (vb_backing ?vb) = Mirrors"
    "unat (rg_max (vb_dirty ?vb)) \<le> unat (vb_length ?vb)"
    using assms by (simp_all add: sys_inv_def Let_def)
  define vb' where "vb' = lock_staged cfg off sz flags ?vb"
  note d = lock_staged_dirty [where cfg = cfg and off = off and sz = sz and flags = flags,
      OF st(1,3), folded vb'_def]
  define r where "r = vb_dirty vb'"
  have r: "vb' = ?vb\<lparr>vb_dirty := r\<rparr>" using d(4) by (simp add: r_def)
  have cover: "lock_bytes (vb_length ?vb) w \<subseteq> range_bytes r" if "w \<in> set (sy_windows s)" for w
    using assms that d(1) by (fastforce simp: sys_inv_def Let_def r)
  have dev: "sy_dev s i = sy_truth s i" if "i < unat (vb_length ?vb)" "i \<notin> range_bytes r" for i
    using assms that d(1) by (auto simp: sys_inv_def Let_def r)
  show ?thesis
    using assms d(2,3) cover dev
    unfolding sys_lock_def vb_lock_staged [OF st(1,2)] Let_def vb'_def [symmetric]
    by (auto simp: sys_inv_def Let_def r split: option.splits)
qed

lemma inv_sys_write:
  assumes "sys_inv cfg s" "w \<in> set (sy_windows s)" "i \<in> lock_bytes (vb_length (sy_vb s)) w"
  shows "sys_inv cfg (sys_write i v s)"
proof -
  have "i \<in> range_bytes (vb_dirty (sy_vb s))" using assms by (auto simp: sys_inv_def Let_def)
  then show ?thesis
    using assms(1) by (auto simp: sys_inv_def Let_def sys_write_def vb_write_def nth_list_update)
qed

lemma inv_sys_flush:
  assumes "sys_inv cfg s"
  shows "sys_inv cfg (sys_flush alloc_ok s)"
proof -
  obtain pb where pb: "bb_box (vb_backing (sy_vb s)) = Some pb"
    "unat (vb_length (sy_vb s)) \<le> length pb" "\<forall>i<unat (vb_length (sy_vb s)). pb ! i = sy_truth s i"
    and mx: "unat (rg_max (vb_dirty (sy_vb s))) \<le> unat (vb_length (sy_vb s))"
    and m: "bb_state (vb_backing (sy_vb s)) = Mirrors"
    using assms by (auto simp: sys_inv_def Let_def)
  show ?thesis
  proof (cases "snd (flush_staged_if_mapped alloc_ok (sy_vb s))")
    case None
    then have "sys_flush alloc_ok s = s"
      by (auto simp: sys_flush_def flush_staged_if_mapped_def flush_mapped_dirty_span_def
          apply_upload_def split: option.splits prod.splits if_splits)
    with assms show ?thesis by simp
  next
    case (Some u)
    then obtain mn mx' where sp: "range_span (vb_dirty (sy_vb s)) = Some (mn, mx')"
      and u: "u = (mn, snapshot_span pb mn mx')"
      and f: "flush_staged_if_mapped alloc_ok (sy_vb s) = (sy_vb s, Some u)"
      using pb(1) m
      by (auto simp: flush_staged_if_mapped_def flush_mapped_dirty_span_def note_upload_def
          split: option.splits if_splits)
    have le: "unat mx' \<le> length pb" using range_span_max [OF sp] mx pb(2) by simp
    show ?thesis
      using assms pb apply_snapshot [OF sp le, of "sy_dev s"] mx
      by (auto simp: sys_flush_def f u sys_inv_def Let_def)
  qed
qed

lemma unlock_outcome:
  assumes I: "sys_inv cfg s" and pb: "bb_box (vb_backing (sy_vb s)) = Some pb"
    and u: "vb_unlock cfg alloc_ok enc_ok (sy_vb s) = (hr, vb', u)"
  obtains (kept) c where "vb' = (sy_vb s)\<lparr>vb_lock_count := c\<rparr>" "u = None"
        "hr = D3D_OK \<and> c = 0 \<longrightarrow> range_bytes (vb_dirty (sy_vb s)) = {}"
  | (sent) mn mx where "range_span (vb_dirty (sy_vb s)) = Some (mn, mx)"
        "u = Some (mn, snapshot_span pb mn mx)"
        "vb' = (sy_vb s)\<lparr>vb_lock_count := 0\<rparr> \<and> hr \<noteq> D3D_OK
         \<or> vb' = (sy_vb s)\<lparr>vb_lock_count := 0, vb_dirty := range_clear (vb_dirty (sy_vb s))\<rparr>"
proof -
  let ?vb = "sy_vb s"
  define c where "c = (if vb_lock_count ?vb = 0 then 0 else vb_lock_count ?vb - 1)"
  define vb1 where "vb1 = ?vb\<lparr>vb_lock_count := c\<rparr>"
  have I': "vb_map_mode ?vb = Staged" "\<not> vb_device_null ?vb" "bb_state (vb_backing ?vb) = Mirrors"
    "cfg \<or> \<not> may_release_backing (vb_usage ?vb) (vb_pool ?vb)"
    "unat (rg_max (vb_dirty ?vb)) \<le> length pb"
    using I pb by (auto simp: sys_inv_def Let_def)
  have vb1: "(if vb_lock_count ?vb = 0 then ?vb
      else ?vb\<lparr>vb_lock_count := vb_lock_count ?vb - 1\<rparr>) = vb1"
    by (cases ?vb) (auto simp: vb1_def c_def)
  have v: "vb_map_mode vb1 = Staged" "\<not> vb_device_null vb1" "vb_dirty vb1 = vb_dirty ?vb"
    "vb_backing vb1 = vb_backing ?vb" "vb_lock_count vb1 = c"
    using I' by (simp_all add: vb1_def)
  have e: "vb_unlock cfg alloc_ok enc_ok ?vb =
      (if vb_lock_count ?vb \<noteq> 0 \<and> c \<noteq> 0 then (D3D_OK, vb1, None)
       else case range_span (vb_dirty ?vb) of
              None \<Rightarrow> (D3D_OK, vb1, None)
            | Some (mn, mx) \<Rightarrow>
                if \<not> alloc_ok then (DeviceError, vb1, None)
                else if \<not> enc_ok then (DeviceError, vb1, Some (mn, snapshot_span pb mn mx))
                else (D3D_OK, vb1\<lparr>vb_dirty := range_clear (vb_dirty ?vb)\<rparr>,
                      Some (mn, snapshot_span pb mn mx)))"
    (is "_ = ?rhs")
  proof -
    have mn: "\<not> unat mn > length pb" if "range_span (vb_dirty ?vb) = Some (mn, mx)" for mn mx
      using that I'(5) by (auto simp: range_span_def range_is_empty_def word_le_nat_alt split: if_splits)
    have nu: "note_upload (vb_backing ?vb) mn mx = vb_backing ?vb" for mn mx
      using I'(3) by (simp add: note_upload_def)
    have id: "vb1\<lparr>vb_backing := vb_backing ?vb\<rparr> = vb1" by (simp add: vb1_def)
    have rel: "release_backing_after_upload cfg (vb1\<lparr>vb_dirty := x\<rparr>) = vb1\<lparr>vb_dirty := x\<rparr>" for x
      using I'(2,4) by (simp add: release_backing_after_upload_def ignore_lock_bounds_def vb1_def)
        blast
    show ?thesis
    proof (cases "range_span (vb_dirty ?vb)")
      case None
      then show ?thesis unfolding vb_unlock_def vb1 Let_def v by (simp add: v)
    next
      case (Some sp)
      obtain a b where sp: "sp = (a, b)" by force
      show ?thesis
        unfolding vb_unlock_def vb1 Let_def
        using mn [of a b] Some by (simp add: v sp pb nu id rel)
    qed
  qed
  have c0: "c = 0" if "\<not> (vb_lock_count ?vb \<noteq> 0 \<and> c \<noteq> 0)" using that by (auto simp: c_def)
  show thesis
  proof (cases "range_span (vb_dirty ?vb)")
    case None
    then show thesis
      using u e range_span_None [OF None] by (intro kept [of c]) (auto simp: vb1_def split: if_splits)
  next
    case (Some sp)
    obtain mn mx where sp: "sp = (mn, mx)" by force
    show thesis
    proof (cases "u = None")
      case True
      then show thesis
        using u e Some sp by (intro kept [of c]) (auto simp: vb1_def split: if_splits)
    next
      case False
      then show thesis
        using u e Some sp c0 by (intro sent [of mn mx]) (auto simp: vb1_def split: if_splits)
    qed
  qed
qed

lemma inv_sys_unlock:
  assumes I: "sys_inv cfg s"
  shows "sys_inv cfg (sys_unlock cfg alloc_ok enc_ok s)"
proof -
  obtain pb where pb: "bb_box (vb_backing (sy_vb s)) = Some pb"
    "unat (vb_length (sy_vb s)) \<le> length pb" "\<forall>i<unat (vb_length (sy_vb s)). pb ! i = sy_truth s i"
    and mx: "unat (rg_max (vb_dirty (sy_vb s))) \<le> unat (vb_length (sy_vb s))"
    using I by (auto simp: sys_inv_def Let_def)
  obtain hr vb' u where u: "vb_unlock cfg alloc_ok enc_ok (sy_vb s) = (hr, vb', u)"
    by (cases "vb_unlock cfg alloc_ok enc_ok (sy_vb s)") auto
  show ?thesis
  proof (cases rule: unlock_outcome [OF I pb(1) u])
    case (1 c)
    with I show ?thesis by (auto simp: sys_unlock_def u sys_inv_def Let_def apply_upload_def)
  next
    case (2 mn mx')
    have le: "unat mx' \<le> length pb" using range_span_max [OF 2(1)] mx pb(2) by simp
    note ap = apply_snapshot [OF 2(1) le, of "sy_dev s"]
    from 2(3) show ?thesis
    proof
      assume "vb' = (sy_vb s)\<lparr>vb_lock_count := 0\<rparr> \<and> hr \<noteq> D3D_OK"
      with I pb show ?thesis
        by (auto simp: sys_unlock_def u 2(2) sys_inv_def Let_def ap)
    next
      assume "vb' = (sy_vb s)\<lparr>vb_lock_count := 0, vb_dirty := range_clear (vb_dirty (sy_vb s))\<rparr>"
      with I pb show ?thesis
        by (auto simp: sys_unlock_def u 2(2) sys_inv_def Let_def ap) (simp_all add: range_clear_def)
    qed
  qed
qed

lemma padded_len_ge: "n \<le> padded_len n"
proof -
  define a where "a = max n 1"
  define q where "q = (a + PAGE_SIZE - 1) div PAGE_SIZE"
  define r where "r = (a + PAGE_SIZE - 1) mod PAGE_SIZE"
  have "r < PAGE_SIZE" by (simp add: r_def PAGE_SIZE_def)
  moreover have "a + PAGE_SIZE - 1 = q * PAGE_SIZE + r" by (simp add: q_def r_def)
  ultimately have "a \<le> q * PAGE_SIZE" by linarith
  then show ?thesis by (simp add: padded_len_def q_def a_def)
qed

lemma sys_init_inv:
  assumes "sys_init cfg s"
  shows "sys_inv cfg s"
proof -
  obtain len usage pool where s: "sy_vb s = vb_new len usage pool" "classify_map_mode usage pool = Staged"
    "cfg \<or> \<not> may_release_backing usage pool" "sy_truth s = (\<lambda>_. 0)" "sy_windows s = []"
    using assms by (auto simp: sys_init_def)
  have "replicate (padded_len (unat len)) 0 ! i = (0::u8)" if "i < unat len" for i
    using that padded_len_ge [of "unat len"] by simp
  moreover have "unat (rg_max (range_full len)) \<le> unat len" by (simp add: range_full_def)
  ultimately show ?thesis
    using s(3) by (simp add: sys_inv_def s vb_new_def backing_new_def page_box_new_zeroed_def
        padded_len_ge Let_def)
qed

interpretation staged: step_invariant "sys_init cfg" "sys_step cfg" "sys_inv cfg" for cfg
proof
  show "sys_inv cfg s" if "sys_init cfg s" for s using that by (rule sys_init_inv)
  show "sys_inv cfg t" if "sys_inv cfg s" "sys_step cfg s t" for s t
    using that(2,1) by cases (auto intro: inv_sys_lock inv_sys_write inv_sys_flush inv_sys_unlock)
qed

text \<open>
  C10. What the application wrote is what the GPU reads. For every staged buffer that keeps its
  CPU copy (any pool and usage but the write-only static class, or any under
  \<^verbatim>\<open>buffer.ignoreLockBounds\<close>), after any interleaving of locks, nested locks, failed locks, writes
  through the locked windows, mid-lock flushes and unlocks with failing allocations, an
  \<^verbatim>\<open>Unlock\<close> that ends the last lock and succeeds leaves every byte of the device buffer equal to
  what the application sees; so does the flush a draw makes while the buffer is still mapped.
\<close>

theorem staged_unlock_publishes:
  assumes "reach (sys_init cfg) (sys_step cfg) s" and "i < unat (vb_length (sy_vb s))"
  shows "(fst (vb_unlock cfg alloc_ok enc_ok (sy_vb s)) = D3D_OK
          \<and> vb_lock_count (sy_vb (sys_unlock cfg alloc_ok enc_ok s)) = 0 \<longrightarrow>
            sy_dev (sys_unlock cfg alloc_ok enc_ok s) i = sy_truth s i)
    \<and> (vb_lock_count (sy_vb s) \<noteq> 0 \<longrightarrow> sy_dev (sys_flush True s) i = sy_truth s i)"
proof -
  have I: "sys_inv cfg s" using staged.reach_inv [OF assms(1)] .
  obtain pb where pb: "bb_box (vb_backing (sy_vb s)) = Some pb"
    "unat (vb_length (sy_vb s)) \<le> length pb" "\<forall>i<unat (vb_length (sy_vb s)). pb ! i = sy_truth s i"
    and mx: "unat (rg_max (vb_dirty (sy_vb s))) \<le> unat (vb_length (sy_vb s))"
    and dev: "\<And>j. j < unat (vb_length (sy_vb s)) \<Longrightarrow> j \<notin> range_bytes (vb_dirty (sy_vb s)) \<Longrightarrow>
        sy_dev s j = sy_truth s j"
    and m: "vb_map_mode (sy_vb s) = Staged"
    using I by (auto simp: sys_inv_def Let_def)
  have le: "unat mx' \<le> length pb" if "range_span (vb_dirty (sy_vb s)) = Some (mn, mx')" for mn mx'
    using range_span_max [OF that] mx pb(2) by simp
  have flush: "sy_dev (sys_flush True s) i = sy_truth s i" if "vb_lock_count (sy_vb s) \<noteq> 0"
  proof (cases "range_span (vb_dirty (sy_vb s))")
    case None
    then show ?thesis
      using that m pb(1) dev [OF assms(2)] range_span_None [OF None]
      by (simp add: sys_flush_def flush_staged_if_mapped_def flush_mapped_dirty_span_def apply_upload_def)
  next
    case (Some sp)
    obtain mn mx' where sp: "sp = (mn, mx')" by force
    with Some have span: "range_span (vb_dirty (sy_vb s)) = Some (mn, mx')" by simp
    have "\<not> unat mn > length pb"
      using le [OF span] range_span_Some [OF span] by simp
    then show ?thesis
      using that m pb dev [OF assms(2)] apply_snapshot [OF span le [OF span], of "sy_dev s" i] span
      by (simp add: sys_flush_def flush_staged_if_mapped_def flush_mapped_dirty_span_def assms(2)
          split: if_splits)
  qed
  obtain hr vb' u where u: "vb_unlock cfg alloc_ok enc_ok (sy_vb s) = (hr, vb', u)"
    by (cases "vb_unlock cfg alloc_ok enc_ok (sy_vb s)") auto
  have "sy_dev (sys_unlock cfg alloc_ok enc_ok s) i = sy_truth s i"
    if "hr = D3D_OK" "vb_lock_count vb' = 0"
  proof (cases rule: unlock_outcome [OF I pb(1) u])
    case (1 c)
    then show ?thesis
      using that dev [OF assms(2)] by (simp add: sys_unlock_def u apply_upload_def)
  next
    case (2 mn mx')
    then show ?thesis
      using apply_snapshot [OF 2(1) le [OF 2(1)], of "sy_dev s" i] pb(3) dev [OF assms(2)] assms(2)
      by (simp add: sys_unlock_def u)
  qed
  then show ?thesis using flush by (simp add: u sys_unlock_def)
qed

definition demo_vb :: vb_system where
  "demo_vb = sys_write 1 5 (sys_lock False 0 None False 0 2 0
     \<lparr>sy_vb = vb_new 4 0 D3DPOOL_MANAGED, sy_dev = \<lambda>_. 9, sy_truth = \<lambda>_. 0, sy_windows = []\<rparr>)"

theorem staged_unlock_publishes_witness:
  "sy_dev (sys_flush True demo_vb) 1 = 5 \<and> sy_dev (sys_flush True demo_vb) 3 = 0"
proof -
  let ?s = "\<lparr>sy_vb = vb_new 4 0 D3DPOOL_MANAGED, sy_dev = \<lambda>_. 9, sy_truth = \<lambda>_. 0, sy_windows = []\<rparr>"
  let ?l = "sys_lock False 0 None False 0 2 0 ?s"
  have mode: "classify_map_mode 0 D3DPOOL_MANAGED = Staged" "\<not> may_release_backing 0 D3DPOOL_MANAGED"
    by (simp_all add: classify_map_mode_def has_flag_def may_release_backing_def)
  then have r0: "reach (sys_init False) (sys_step False) ?s"
    by (intro reach_init) (auto simp: sys_init_def)
  have l: "lr_hr (vb_lock False 0 None False 0 2 0 (sy_vb ?s)) = D3D_OK"
    "vb_lock_count (lr_vb (vb_lock False 0 None False 0 2 0 (sy_vb ?s))) = 1"
    "vb_length (lr_vb (vb_lock False 0 None False 0 2 0 (sy_vb ?s))) = 4"
    using mode by (simp_all add: vb_lock_def vb_new_def backing_new_def restore_backing_def
        backing_is_released_def lock_staged_def lock_direct_def ptr_at_def has_flag_def
        records_dirty_range_def sat_add_def)
  have r1: "reach (sys_init False) (sys_step False) ?l" by (rule reach_step [OF r0 sys_step_lock])
  have "reach (sys_init False) (sys_step False) demo_vb"
    unfolding demo_vb_def
    by (rule reach_step [OF r1 sys_step_write [of "(0, 2)"]])
      (simp_all add: sys_lock_def l [simplified] has_flag_def lock_bytes_def)
  note th = staged_unlock_publishes [OF this, of _ True True]
  have "vb_lock_count (sy_vb demo_vb) \<noteq> 0" "vb_length (sy_vb demo_vb) = 4"
    "sy_truth demo_vb 1 = 5" "sy_truth demo_vb 3 = 0"
    using l by (simp_all add: demo_vb_def sys_write_def vb_write_def sys_lock_def)
  then show ?thesis using th [of 1] th [of 3] by simp
qed

section \<open>Refilling a buffer whose backing is released\<close>

text \<open>
  The write-only static class drops its CPU copy after an upload. A refill is what such a title
  does: lock a window, write every byte of it, unlock.
\<close>

definition vb_fill :: "nat set \<Rightarrow> (nat \<Rightarrow> u8) \<Rightarrow> vertex_buffer \<Rightarrow> vertex_buffer" where
  "vb_fill W data vb =
     vb\<lparr>vb_backing := (vb_backing vb)\<lparr>bb_box := map_option
          (\<lambda>pb. map (\<lambda>i. if i \<in> W then data i else pb ! i) [0..<length pb])
          (bb_box (vb_backing vb))\<rparr>\<rparr>"

definition sys_fill :: "nat set \<Rightarrow> (nat \<Rightarrow> u8) \<Rightarrow> vb_system \<Rightarrow> vb_system" where
  "sys_fill W data s = s\<lparr>sy_vb := vb_fill W data (sy_vb s),
     sy_truth := \<lambda>i. if i \<in> W then data i else sy_truth s i\<rparr>"

type_synonym refill = "u32 \<times> u32 \<times> u32 \<times> (nat \<Rightarrow> u8)"

definition sys_refill :: "bool \<Rightarrow> vb_system \<Rightarrow> refill \<Rightarrow> vb_system" where
  "sys_refill cfg s r =
     (let (off, sz, flags, data) = r
      in sys_unlock cfg True True
           (sys_fill (lock_bytes (vb_length (sy_vb s)) (off, sz)) data
             (sys_lock cfg 0 None False off sz flags s)))"

definition refill_ok :: "u32 \<Rightarrow> refill \<Rightarrow> bool" where
  "refill_ok len r =
     (let (off, sz, flags, data) = r
      in off \<le> len \<and> \<not> has_flag flags D3DLOCK_READONLY \<and> \<not> has_flag flags D3DLOCK_DISCARD)"

definition spec_refill :: "u32 \<Rightarrow> (nat \<Rightarrow> u8) \<Rightarrow> refill \<Rightarrow> nat \<Rightarrow> u8" where
  "spec_refill len T r =
     (let (off, sz, flags, data) = r
      in (\<lambda>i. if i \<in> lock_bytes len (off, sz) then data i else T i))"

text \<open>The state between refills: what each backing state promises.\<close>

definition rest_inv :: "vb_system \<Rightarrow> bool" where
  "rest_inv s \<longleftrightarrow>
     (let vb = sy_vb s; b = vb_backing vb; len = unat (vb_length vb); D = range_bytes (vb_dirty vb)
      in vb_map_mode vb = Staged \<and> \<not> vb_device_null vb \<and> vb_lock_count vb = 0
         \<and> sy_windows s = [] \<and> bb_logical_len b = vb_length vb
         \<and> unat (rg_max (vb_dirty vb)) \<le> len
         \<and> (\<forall>i<len. i \<notin> D \<longrightarrow> sy_dev s i = sy_truth s i)
         \<and> (case bb_state b of
              Mirrors \<Rightarrow> (\<exists>pb. bb_box b = Some pb \<and> len \<le> length pb
                           \<and> (\<forall>i<len. pb ! i = sy_truth s i))
            | Partial \<Rightarrow> (\<exists>pb. bb_box b = Some pb \<and> len \<le> length pb) \<and> D = {}
            | Released \<Rightarrow> bb_box b = None \<and> D = {}))"

lemma vb_unlock_last:
  assumes "vb_map_mode vb = Staged" "\<not> vb_device_null vb" "vb_lock_count vb = 1"
    "bb_box (vb_backing vb) = Some pb" "unat (rg_max (vb_dirty vb)) \<le> length pb"
  shows "vb_unlock cfg True True vb =
    (case range_span (vb_dirty vb) of
       None \<Rightarrow> (D3D_OK, vb\<lparr>vb_lock_count := 0\<rparr>, None)
     | Some (mn, mx) \<Rightarrow>
         (D3D_OK, release_backing_after_upload cfg
            (vb\<lparr>vb_lock_count := 0, vb_backing := note_upload (vb_backing vb) mn mx,
                vb_dirty := range_clear (vb_dirty vb)\<rparr>),
          Some (mn, snapshot_span pb mn mx)))"
proof (cases "range_span (vb_dirty vb)")
  case (Some sp)
  obtain mn mx where sp: "sp = (mn, mx)" by force
  have "\<not> unat mn > length pb"
    using range_span_Some [of "vb_dirty vb" mn mx] range_span_max [of "vb_dirty vb" mn mx] Some sp
      assms(5) by simp
  then show ?thesis using assms Some sp by (simp add: vb_unlock_def)
qed (use assms in \<open>simp add: vb_unlock_def\<close>)

lemma refill_lock:
  fixes cfg :: bool and off sz flags :: u32
  assumes R: "rest_inv s" and ok: "off \<le> vb_length (sy_vb s)"
    "\<not> has_flag flags D3DLOCK_READONLY" "\<not> has_flag flags D3DLOCK_DISCARD"
  defines "r \<equiv> vb_lock cfg 0 None False off sz flags (sy_vb s)" and "len \<equiv> vb_length (sy_vb s)"
  obtains pb where "lr_hr r = D3D_OK" "bb_box (vb_backing (lr_vb r)) = Some pb"
    "unat len \<le> length pb" "vb_lock_count (lr_vb r) = 1" "vb_length (lr_vb r) = len"
    "vb_map_mode (lr_vb r) = Staged" "\<not> vb_device_null (lr_vb r)"
    "bb_logical_len (vb_backing (lr_vb r)) = len"
    "unat (rg_max (vb_dirty (lr_vb r))) \<le> unat len"
    "lock_bytes len (off, sz) \<subseteq> range_bytes (vb_dirty (lr_vb r))"
    "\<forall>i<unat len. i \<notin> range_bytes (vb_dirty (lr_vb r)) \<longrightarrow> sy_dev s i = sy_truth s i"
    "bb_state (vb_backing (lr_vb r)) = Mirrors \<and> (\<forall>i<unat len. pb ! i = sy_truth s i)
     \<or> bb_state (vb_backing (lr_vb r)) = Partial
       \<and> range_bytes (vb_dirty (lr_vb r)) = lock_bytes len (off, sz)"
proof -
  let ?vb = "sy_vb s"
  have I: "vb_map_mode ?vb = Staged" "\<not> vb_device_null ?vb" "vb_lock_count ?vb = 0"
    "bb_logical_len (vb_backing ?vb) = len" "unat (rg_max (vb_dirty ?vb)) \<le> unat len"
    "\<And>i. i < unat len \<Longrightarrow> i \<notin> range_bytes (vb_dirty ?vb) \<Longrightarrow> sy_dev s i = sy_truth s i"
    using R by (simp_all add: rest_inv_def Let_def len_def)
  define vb1 where "vb1 = restore_backing ?vb"
  define vb2 where "vb2 = lock_staged cfg off sz flags vb1"
  have v1: "vb_map_mode vb1 = Staged" "\<not> vb_device_null vb1" "vb_lock_count vb1 = 0"
    "bb_logical_len (vb_backing vb1) = len" "vb_dirty vb1 = vb_dirty ?vb" "vb_length vb1 = len"
    using I by (simp_all add: vb1_def restore_backing_def backing_restore_def len_def)
  obtain pb where pb: "bb_box (vb_backing vb1) = Some pb" "unat len \<le> length pb"
    and st: "bb_state (vb_backing vb1) = Mirrors \<and> (\<forall>i<unat len. pb ! i = sy_truth s i)
       \<or> bb_state (vb_backing vb1) = Partial \<and> range_bytes (vb_dirty ?vb) = {}"
  proof (cases "bb_state (vb_backing ?vb)")
    case Released
    with R show thesis
      by (intro that [of "page_box_new_zeroed (unat len)"])
        (auto simp: vb1_def restore_backing_def backing_is_released_def backing_restore_def
          rest_inv_def Let_def len_def page_box_new_zeroed_def padded_len_ge)
  qed (use R that in \<open>auto simp: vb1_def restore_backing_def backing_is_released_def rest_inv_def
        Let_def len_def\<close>)
  have mx: "unat (rg_max (vb_dirty vb1)) \<le> unat (vb_length vb1)" using I(5) by (simp add: v1)
  note d = lock_staged_dirty [where cfg = cfg and off = off and sz = sz and flags = flags,
      OF v1(1) mx, folded vb2_def]
  have v2: "vb2 = vb1\<lparr>vb_dirty := vb_dirty vb2\<rparr>" by (rule d(4))
  have dirty: "range_bytes (vb_dirty vb2) = lock_bytes len (off, sz)"
    if "bb_state (vb_backing vb1) = Partial" "range_bytes (vb_dirty ?vb) = {}"
  proof -
    have "vb_dirty vb2 = conjoin (vb_dirty vb1) off sz len"
      using that ok v1 by (simp add: vb2_def lock_staged_def records_dirty_range_def Let_def
          may_widen_upload_def)
    then have "range_bytes (vb_dirty vb2) = hull (lock_bytes len (off, sz))"
      using that by (simp add: conjoin_bytes v1)
    then show ?thesis by (simp add: lock_bytes_def)
  qed
  have off: "unat off \<le> length pb" using ok(1) pb(2) by (simp add: len_def word_le_nat_alt)
  have b2: "vb_backing vb2 = vb_backing vb1" "vb_map_mode vb2 = Staged" "vb_lock_count vb2 = 0"
    "vb_length vb2 = len" "\<not> vb_device_null vb2"
    using v1 by (subst v2, simp)+
  have r: "r = \<lparr>lr_hr = D3D_OK, lr_ptr = Some (unat off), lr_vb = vb2\<lparr>vb_lock_count := 1\<rparr>,
      lr_retained = None\<rparr>"
    using ok(1) off pb(1)
    by (simp add: r_def vb_lock_def vb1_def [symmetric] vb2_def [symmetric] lock_direct_def b2
        ptr_at_def sat_add_def not_less)
  show thesis
  proof (rule that [of pb])
    show "\<forall>i<unat len. i \<notin> range_bytes (vb_dirty (lr_vb r)) \<longrightarrow> sy_dev s i = sy_truth s i"
      using d(1) I(6) by (auto simp: r v1)
    show "bb_state (vb_backing (lr_vb r)) = Mirrors \<and> (\<forall>i<unat len. pb ! i = sy_truth s i)
     \<or> bb_state (vb_backing (lr_vb r)) = Partial
       \<and> range_bytes (vb_dirty (lr_vb r)) = lock_bytes len (off, sz)"
      using st dirty by (auto simp: r b2)
  qed (use pb d(2,3) ok v1 in \<open>auto simp: r b2\<close>)
qed

lemma refill_unlock:
  assumes v: "bb_box (vb_backing vb) = Some pb" "unat len \<le> length pb" "vb_lock_count vb = 1"
    "vb_length vb = len" "vb_map_mode vb = Staged" "\<not> vb_device_null vb"
    "bb_logical_len (vb_backing vb) = len" "unat (rg_max (vb_dirty vb)) \<le> unat len"
    and dirty: "\<forall>i\<in>range_bytes (vb_dirty vb). pb ! i = T i"
    and clean: "\<forall>i<unat len. i \<notin> range_bytes (vb_dirty vb) \<longrightarrow> dev i = T i"
    and st: "bb_state (vb_backing vb) = Mirrors \<and> (\<forall>i<unat len. pb ! i = T i)
       \<or> bb_state (vb_backing vb) = Partial"
    and s: "sy_vb s = vb" "sy_dev s = dev" "sy_truth s = T"
  shows "rest_inv (sys_unlock cfg True True s)"
    and "vb_length (sy_vb (sys_unlock cfg True True s)) = len"
    and "sy_truth (sys_unlock cfg True True s) = T"
    and "\<And>i. i < unat len \<Longrightarrow> sy_dev (sys_unlock cfg True True s) i = T i"
proof -
  have le: "unat (rg_max (vb_dirty vb)) \<le> length pb" using v by simp
  note un = vb_unlock_last [OF v(5,6,3,1) le, of cfg]
  have "rest_inv (sys_unlock cfg True True s)
    \<and> vb_length (sy_vb (sys_unlock cfg True True s)) = len
    \<and> sy_truth (sys_unlock cfg True True s) = T
    \<and> (\<forall>i<unat len. sy_dev (sys_unlock cfg True True s) i = T i)"
  proof (cases "range_span (vb_dirty vb)")
    case None
    note e = range_span_None [OF None]
    show ?thesis
      using v st clean e
      by (auto simp: sys_unlock_def s un None apply_upload_def rest_inv_def Let_def)
  next
    case (Some sp)
    obtain mn mx where sp: "sp = (mn, mx)" by force
    with Some have span: "range_span (vb_dirty vb) = Some (mn, mx)" by simp
    have mx: "unat mx \<le> length pb" "mx = rg_max (vb_dirty vb)"
      using range_span_max [OF span] le by simp_all
    have dev: "apply_upload (Some (mn, snapshot_span pb mn mx)) dev i = T i" if "i < unat len" for i
      using apply_snapshot [OF span mx(1), of dev i] dirty clean that by simp
    define b where "b = note_upload (vb_backing vb) mn mx"
    define vb1 where "vb1 = vb\<lparr>vb_lock_count := 0, vb_backing := b,
        vb_dirty := range_clear (vb_dirty vb)\<rparr>"
    define vb2 where "vb2 = release_backing_after_upload cfg vb1"
    have b: "bb_box b = Some pb" "bb_logical_len b = len"
      using v by (simp_all add: b_def note_upload_def)
    have bst: "bb_state b = Mirrors \<and> (\<forall>i<unat len. pb ! i = T i) \<or> bb_state b = Partial"
    proof (cases "bb_state (vb_backing vb) = Partial \<and> mn = 0 \<and> mx \<ge> len")
      case True
      then have "range_bytes (vb_dirty vb) = {..<unat mx}" "unat len \<le> unat mx"
        using range_span_Some [OF span] by (auto simp: word_le_nat_alt)
      then show ?thesis using True dirty v by (auto simp: b_def note_upload_def)
    next
      case False
      then show ?thesis using st v by (auto simp: b_def note_upload_def)
    qed
    have v2: "vb2 = vb1\<lparr>vb_backing := (if vb2 = vb1 then b else snd (backing_release b))\<rparr>"
      by (simp add: vb2_def release_backing_after_upload_def vb1_def)
    have cl: "range_clear (vb_dirty vb) = range_empty"
      by (simp add: range_clear_def range_empty_def)
    have t: "sys_unlock cfg True True s = s\<lparr>sy_vb := vb2,
        sy_dev := apply_upload (Some (mn, snapshot_span pb mn mx)) dev, sy_windows := []\<rparr>"
    proof -
      have "vb_lock_count vb2 = 0" by (subst v2) (simp add: vb1_def)
      then show ?thesis
        by (simp add: sys_unlock_def s un span vb2_def [symmetric] vb1_def [symmetric]
            b_def [symmetric])
    qed
    have rel: "snd (backing_release b) = b\<lparr>bb_box := None, bb_state := Released\<rparr>"
      by (simp add: backing_release_def b)
    have "rest_inv (s\<lparr>sy_vb := vb2,
        sy_dev := apply_upload (Some (mn, snapshot_span pb mn mx)) dev, sy_windows := []\<rparr>)"
    proof (cases "vb2 = vb1")
      case True
      show ?thesis unfolding True
        using v b bst dev by (auto simp: rest_inv_def Let_def vb1_def cl s range_empty_def range_bytes_def)
    next
      case False
      then have "vb2 = vb1\<lparr>vb_backing := b\<lparr>bb_box := None, bb_state := Released\<rparr>\<rparr>"
        using v2 rel by simp
      then show ?thesis
        using v b dev by (simp add: rest_inv_def Let_def vb1_def cl s) (simp add: range_empty_def)
    qed
    moreover have "vb_length vb2 = len" using v by (subst v2) (simp add: vb1_def)
    ultimately show ?thesis using dev s by (simp add: t)
  qed
  then show "rest_inv (sys_unlock cfg True True s)"
    "vb_length (sy_vb (sys_unlock cfg True True s)) = len"
    "sy_truth (sys_unlock cfg True True s) = T"
    "\<And>i. i < unat len \<Longrightarrow> sy_dev (sys_unlock cfg True True s) i = T i" by auto
qed

lemma refill_step:
  fixes cfg :: bool
  assumes R: "rest_inv s" and ok: "refill_ok (vb_length (sy_vb s)) r"
  defines "t \<equiv> sys_refill cfg s r" and "len \<equiv> vb_length (sy_vb s)"
  shows "rest_inv t" and "vb_length (sy_vb t) = len"
    and "sy_truth t = spec_refill len (sy_truth s) r"
    and "\<And>i. i < unat len \<Longrightarrow> sy_dev t i = sy_truth t i"
proof -
  obtain off sz flags data where r: "r = (off, sz, flags, data)" by (cases r)
  have ok': "off \<le> vb_length (sy_vb s)" "\<not> has_flag flags D3DLOCK_READONLY"
    "\<not> has_flag flags D3DLOCK_DISCARD" using ok by (simp_all add: refill_ok_def r)
  let ?W = "lock_bytes len (off, sz)"
  define vb where "vb = lr_vb (vb_lock cfg 0 None False off sz flags (sy_vb s))"
  obtain pb where hr: "lr_hr (vb_lock cfg 0 None False off sz flags (sy_vb s)) = D3D_OK"
    and v: "bb_box (vb_backing vb) = Some pb" "unat len \<le> length pb" "vb_lock_count vb = 1" "vb_length vb = len"
    "vb_map_mode vb = Staged" "\<not> vb_device_null vb" "bb_logical_len (vb_backing vb) = len"
    "unat (rg_max (vb_dirty vb)) \<le> unat len" "?W \<subseteq> range_bytes (vb_dirty vb)"
    "\<forall>i<unat len. i \<notin> range_bytes (vb_dirty vb) \<longrightarrow> sy_dev s i = sy_truth s i"
    "bb_state (vb_backing vb) = Mirrors \<and> (\<forall>i<unat len. pb ! i = sy_truth s i)
     \<or> bb_state (vb_backing vb) = Partial \<and> range_bytes (vb_dirty vb) = ?W"
    unfolding vb_def len_def by (rule refill_lock [where cfg = cfg and sz = sz, OF R ok'])
  let ?s = "sys_fill ?W data (sys_lock cfg 0 None False off sz flags s)"
  let ?T = "\<lambda>i. if i \<in> ?W then data i else sy_truth s i"
  let ?pb = "map (\<lambda>i. if i \<in> ?W then data i else pb ! i) [0..<length pb]"
  let ?f = "vb_fill ?W data vb"
  have inlen: "i < unat len" if "i \<in> range_bytes (vb_dirty vb)" for i
    using that v(8) by (auto simp: range_bytes_def)
  have s: "sy_vb ?s = ?f" "sy_dev ?s = sy_dev s" "sy_truth ?s = ?T"
    by (simp_all add: sys_fill_def sys_lock_def vb_def Let_def fun_eq_iff)
  have f: "bb_box (vb_backing ?f) = Some ?pb" "unat len \<le> length ?pb" "vb_lock_count ?f = 1"
    "vb_length ?f = len" "vb_map_mode ?f = Staged" "\<not> vb_device_null ?f"
    "bb_logical_len (vb_backing ?f) = len" "unat (rg_max (vb_dirty ?f)) \<le> unat len"
    "vb_dirty ?f = vb_dirty vb" "bb_state (vb_backing ?f) = bb_state (vb_backing vb)"
    using v(1-8) by (simp_all add: vb_fill_def)
  have dirty: "\<forall>i\<in>range_bytes (vb_dirty ?f). ?pb ! i = ?T i"
  proof
    fix i assume "i \<in> range_bytes (vb_dirty ?f)"
    then show "?pb ! i = ?T i" using v(2,11) inlen [of i] by (auto simp: f(9))
  qed
  have clean: "\<forall>i<unat len. i \<notin> range_bytes (vb_dirty ?f) \<longrightarrow> sy_dev s i = ?T i"
    using v(9,10) by (auto simp: f(9))
  have st: "bb_state (vb_backing ?f) = Mirrors \<and> (\<forall>i<unat len. ?pb ! i = ?T i)
       \<or> bb_state (vb_backing ?f) = Partial"
    using v(2,11) by (auto simp: f(10))
  note un = refill_unlock [where cfg = cfg and T = ?T and dev = "sy_dev s" and vb = ?f and s = ?s,
      OF f(1-8) dirty clean st s]
  have t: "t = sys_unlock cfg True True ?s" by (simp add: t_def sys_refill_def r len_def)
  show "rest_inv t" unfolding t by (rule un(1))
  show "vb_length (sy_vb t) = len" unfolding t by (rule un(2))
  show tr: "sy_truth t = spec_refill len (sy_truth s) r"
    unfolding t un(3) by (simp add: spec_refill_def r)
  show "sy_dev t i = sy_truth t i" if "i < unat len" for i
    unfolding t un(3) by (rule un(4) [OF that])
qed

lemma refills_rest:
  assumes "rest_inv s" "list_all (refill_ok (vb_length (sy_vb s))) rs"
  shows "rest_inv (foldl (sys_refill cfg) s rs)
    \<and> sy_truth (foldl (sys_refill cfg) s rs) = foldl (spec_refill (vb_length (sy_vb s))) (sy_truth s) rs
    \<and> vb_length (sy_vb (foldl (sys_refill cfg) s rs)) = vb_length (sy_vb s)"
  using assms
proof (induction rs arbitrary: s)
  case (Cons r rs)
  then have ok: "refill_ok (vb_length (sy_vb s)) r" by simp
  note st = refill_step [where cfg = cfg, OF Cons.prems(1) ok]
  show ?case using Cons.IH [OF st(1)] Cons.prems(2) by (simp add: st(2,3))
qed simp

text \<open>
  C18. Refilling a released buffer is exact. Starting from a new staged buffer of any pool and
  usage, the write-only static class included, whose device copy is undefined, any non-empty
  sequence of refills (lock a window with a plain lock, write every byte of it, unlock) leaves
  the device buffer equal, at every byte, to the refills applied in order to a zeroed buffer:
  neither the release of the CPU copy nor its zeroed re-creation nor the narrowed upload
  windows ever lose or overwrite a byte.
\<close>

theorem refills_reach_device:
  assumes "sy_vb s = vb_new len usage pool" and "classify_map_mode usage pool = Staged"
    and "sy_truth s = (\<lambda>_. 0)" and "sy_windows s = []"
    and "list_all (refill_ok len) rs" and "rs \<noteq> []" and "i < unat len"
  shows "sy_dev (foldl (sys_refill cfg) s rs) i = foldl (spec_refill len) (\<lambda>_. 0) rs i"
proof -
  have len: "vb_length (sy_vb s) = len" by (simp add: assms(1) vb_new_def Let_def)
  have "replicate (padded_len (unat len)) 0 ! i = (0::u8)" if "i < unat len" for i
    using that padded_len_ge [of "unat len"] by simp
  then have R: "rest_inv s"
    by (simp add: rest_inv_def assms vb_new_def backing_new_def page_box_new_zeroed_def
        padded_len_ge Let_def) (simp add: range_full_def)
  obtain r' rs' where rs: "rs = rs' @ [r']" using assms(6) by (metis append_butlast_last_id)
  let ?s = "foldl (sys_refill cfg) s rs'"
  have st: "rest_inv ?s" "sy_truth ?s = foldl (spec_refill len) (\<lambda>_. 0) rs'" "vb_length (sy_vb ?s) = len"
    using refills_rest [where cfg = cfg and rs = rs', OF R] assms(3,5) by (simp_all add: len rs)
  have ok: "refill_ok (vb_length (sy_vb ?s)) r'" using assms(5) by (simp add: rs st(3))
  note un = refill_step [where cfg = cfg, OF st(1) ok]
  show ?thesis using un(3) un(4) [of i] assms(7) by (simp add: rs st)
qed

theorem refills_reach_device_witness:
  "sy_dev (foldl (sys_refill False)
      \<lparr>sy_vb = vb_new 4 D3DUSAGE_WRITEONLY D3DPOOL_DEFAULT, sy_dev = \<lambda>_. 9, sy_truth = \<lambda>_. 0,
       sy_windows = []\<rparr> [(0, 0, 0, \<lambda>_. 1), (1, 1, 0, \<lambda>_. 2)]) 1 = 2
   \<and> sy_dev (foldl (sys_refill False)
      \<lparr>sy_vb = vb_new 4 D3DUSAGE_WRITEONLY D3DPOOL_DEFAULT, sy_dev = \<lambda>_. 9, sy_truth = \<lambda>_. 0,
       sy_windows = []\<rparr> [(0, 0, 0, \<lambda>_. 1), (1, 1, 0, \<lambda>_. 2)]) 3 = 1"
proof -
  have "classify_map_mode D3DUSAGE_WRITEONLY D3DPOOL_DEFAULT = Staged"
    by (simp add: classify_map_mode_def has_flag_def D3DUSAGE_WRITEONLY_def D3DUSAGE_DYNAMIC_def)
  then have "sy_dev (foldl (sys_refill False)
      \<lparr>sy_vb = vb_new 4 D3DUSAGE_WRITEONLY D3DPOOL_DEFAULT, sy_dev = \<lambda>_. 9, sy_truth = \<lambda>_. 0,
       sy_windows = []\<rparr> [(0, 0, 0, \<lambda>_. 1), (1, 1, 0, \<lambda>_. 2)]) i
      = foldl (spec_refill 4) (\<lambda>_. 0) [(0, 0, 0, \<lambda>_. 1), (1, 1, 0, \<lambda>_. 2)] i" if "i < 4" for i
    by (rule refills_reach_device [rotated])
      (use that in \<open>simp_all add: refill_ok_def has_flag_def\<close>)
  from this [of 1] this [of 3] show ?thesis
    by (simp add: spec_refill_def lock_bytes_def)
qed

section \<open>Two open locks on a re-created backing\<close>

text \<open>
  The re-created backing of a released buffer holds zeros outside what the application writes,
  which is why a lock on it must not widen its upload past the announced window. The dirty range
  is a single interval, though: two locks open at once on such a backing conjoin to the interval
  between them, and the zeros in the gap are uploaded over bytes nobody rewrote. Below, a
  four-byte write-only static buffer is filled with ones; then bytes 0 and 3 are locked, both
  are written, and both locks end. Byte 1, never locked again, reads zero on the device.
\<close>

definition gap_run :: "vb_system \<Rightarrow> vb_system" where
  "gap_run s =
     sys_unlock False True True (sys_unlock False True True
       (sys_write 3 2 (sys_lock False 0 None False 3 1 0
         (sys_write 0 2 (sys_lock False 0 None False 0 1 0 s)))))"

lemma reopened_gap:
  assumes v: "vb_map_mode (sy_vb s) = Staged" "\<not> vb_device_null (sy_vb s)" "vb_lock_count (sy_vb s) = 0"
    "vb_length (sy_vb s) = 4" "bb_state (vb_backing (sy_vb s)) = Released"
    "range_bytes (vb_dirty (sy_vb s)) = {}"
  shows "sy_dev (gap_run s) 1 = 0 \<and> sy_truth (gap_run s) 1 = sy_truth s 1"
proof -
  define pb :: "u8 list" where "pb = page_box_new_zeroed 4"
  have pb: "4 \<le> length pb" "pb ! 1 = 0"
    using padded_len_ge [of 4] by (simp_all add: pb_def page_box_new_zeroed_def)
  define b where "b = backing_restore (vb_backing (sy_vb s)) pb"
  define d1 where "d1 = conjoin (vb_dirty (sy_vb s)) 0 1 4"
  define d2 where "d2 = conjoin d1 3 1 4"
  have W: "lock_bytes (4::u32) (0, 1) = {0}" "lock_bytes (4::u32) (3, 1) = {3}"
    by (auto simp: lock_bytes_def)
  have h: "hull {0} = {0}" by (auto simp: hull_def)
  have d: "range_bytes d1 = {0}" "range_bytes d2 = {0..3}"
    by (simp_all add: d1_def d2_def conjoin_bytes v(6) W h) (auto simp: hull_def)
  have flags: "records_dirty_range 0 p" "may_trust_lock_bounds 0 u p 1 False" for p u
    by (simp_all add: records_dirty_range_def has_flag_def may_trust_lock_bounds_def)
  have l1: "vb_lock False 0 None False 0 1 0 (sy_vb s) = \<lparr>lr_hr = D3D_OK, lr_ptr = Some 0,
      lr_vb = (sy_vb s)\<lparr>vb_backing := b, vb_dirty := d1, vb_lock_count := 1\<rparr>, lr_retained = None\<rparr>"
    using v by (simp add: vb_lock_def restore_backing_def backing_is_released_def b_def pb_def
        lock_staged_def flags lock_direct_def ptr_at_def backing_restore_def d1_def sat_add_def
        ignore_lock_bounds_def)
  let ?vb1 = "(sy_vb s)\<lparr>vb_backing := b\<lparr>bb_box := Some (pb[0 := 2])\<rparr>, vb_dirty := d1, vb_lock_count := 1\<rparr>"
  have b: "bb_box b = Some pb" "bb_state b = Partial" by (simp_all add: b_def backing_restore_def)
  have w1: "vb_write 0 2 ((sy_vb s)\<lparr>vb_backing := b, vb_dirty := d1, vb_lock_count := 1\<rparr>) = ?vb1"
    by (simp add: vb_write_def b)
  have l2: "vb_lock False 0 None False 3 1 0 ?vb1 = \<lparr>lr_hr = D3D_OK, lr_ptr = Some 3,
      lr_vb = (sy_vb s)\<lparr>vb_backing := b\<lparr>bb_box := Some (pb[0 := 2])\<rparr>, vb_dirty := d2,
        vb_lock_count := 2\<rparr>, lr_retained = None\<rparr>"
    using v pb(1) b by (simp add: vb_lock_def restore_backing_def backing_is_released_def
        lock_staged_def flags lock_direct_def ptr_at_def d2_def sat_add_def ignore_lock_bounds_def)
  let ?pb = "pb[0 := 2, 3 := 2]"
  let ?vb2 = "(sy_vb s)\<lparr>vb_backing := b\<lparr>bb_box := Some ?pb\<rparr>, vb_dirty := d2, vb_lock_count := 2\<rparr>"
  have w2: "vb_write 3 2 ((sy_vb s)\<lparr>vb_backing := b\<lparr>bb_box := Some (pb[0 := 2])\<rparr>, vb_dirty := d2,
        vb_lock_count := 2\<rparr>) = ?vb2"
    by (simp add: vb_write_def)
  have u1: "vb_unlock False True True ?vb2 = (D3D_OK,
      (sy_vb s)\<lparr>vb_backing := b\<lparr>bb_box := Some ?pb\<rparr>, vb_dirty := d2, vb_lock_count := 1\<rparr>, None)"
    by (simp add: vb_unlock_def)
  obtain mn mx where span: "range_span d2 = Some (mn, mx)"
    using d(2) by (cases "range_span d2") (auto dest: range_span_None)
  have iv: "{unat mn..<unat mx} = {0..3}" using d(2) range_span_Some [OF span] by simp
  have "unat mn \<le> 0" using iv by (metis atLeastAtMost_iff atLeastLessThan_iff le0)
  moreover have "4 \<notin> {unat mn..<unat mx}" unfolding iv by simp
  ultimately have "unat mx \<le> 4" by simp
  then have mx: "unat mx \<le> length ?pb" "unat (rg_max d2) \<le> length ?pb"
    using pb(1) range_span_max [OF span] by auto
  let ?vb3 = "(sy_vb s)\<lparr>vb_backing := b\<lparr>bb_box := Some ?pb\<rparr>, vb_dirty := d2, vb_lock_count := 1\<rparr>"
  have u2: "snd (snd (vb_unlock False True True ?vb3)) = Some (mn, snapshot_span ?pb mn mx)"
    using vb_unlock_last [of ?vb3 ?pb False] v mx span by simp
  have run: "sy_dev (gap_run s) = apply_upload (Some (mn, snapshot_span ?pb mn mx)) (sy_dev s)"
    "sy_truth (gap_run s) = (sy_truth s)(0 := 2, 3 := 2)"
    using u2 unfolding gap_run_def sys_lock_def sys_write_def sys_unlock_def Let_def
    by (simp_all add: l1 w1 l2 w2 u1 apply_upload_def prod.case_eq_if)
  have "apply_upload (Some (mn, snapshot_span ?pb mn mx)) (sy_dev s) 1 = ?pb ! 1"
    using apply_snapshot [OF span mx(1), of "sy_dev s" 1] d(2) by simp
  then show ?thesis using pb by (simp add: run)
qed

definition filled :: vb_system where
  "filled = sys_refill False \<lparr>sy_vb = vb_new 4 D3DUSAGE_WRITEONLY D3DPOOL_DEFAULT, sy_dev = \<lambda>_. 9,
     sy_truth = \<lambda>_. 0, sy_windows = []\<rparr> (0, 0, 0, \<lambda>_. 1)"

lemma filled_released:
  "bb_state (vb_backing (sy_vb filled)) = Released \<and> rest_inv filled \<and> vb_length (sy_vb filled) = 4
   \<and> sy_truth filled 1 = 1"
proof -
  define s0 where "s0 = \<lparr>sy_vb = vb_new 4 D3DUSAGE_WRITEONLY D3DPOOL_DEFAULT, sy_dev = \<lambda>_. 9,
     sy_truth = \<lambda>_. 0, sy_windows = []\<rparr>"
  have cls: "classify_map_mode D3DUSAGE_WRITEONLY D3DPOOL_DEFAULT = Staged"
    "may_release_backing D3DUSAGE_WRITEONLY D3DPOOL_DEFAULT"
    by (simp_all add: classify_map_mode_def has_flag_def D3DUSAGE_WRITEONLY_def D3DUSAGE_DYNAMIC_def
        may_release_backing_def D3DUSAGE_SOFTWAREPROCESSING_def)
  define pb :: "u8 list" where "pb = page_box_new_zeroed 4"
  have pb: "4 \<le> length pb" "i < 4 \<Longrightarrow> pb ! i = 0" for i
    using padded_len_ge [of 4] by (simp_all add: pb_def page_box_new_zeroed_def)
  define v where "v = sy_vb s0"
  have v: "v = \<lparr>vb_device_null = False, vb_length = 4, vb_usage = D3DUSAGE_WRITEONLY,
      vb_pool = D3DPOOL_DEFAULT, vb_map_mode = Staged, vb_dirty = range_full 4,
      vb_backing = backing_new pb 4 WriteOnlyStatic, vb_last_submit_seq = 0, vb_lock_count = 0\<rparr>"
    by (simp add: v_def s0_def vb_new_def cls Let_def pb_def classify_backing_def)
  have R: "rest_inv s0"
    using pb unfolding rest_inv_def Let_def v_def [symmetric]
    by (simp add: v backing_new_def) (simp add: s0_def range_full_def)
  have len: "vb_length (sy_vb s0) = 4" by (simp add: v_def [symmetric] v)
  have ok: "refill_ok (vb_length (sy_vb s0)) (0, 0, 0, \<lambda>_. 1)"
    by (simp add: refill_ok_def has_flag_def)
  note st = refill_step [where cfg = False, OF R ok, folded s0_def]
  have f: "filled = sys_refill False s0 (0, 0, 0, \<lambda>_. 1)" by (simp add: filled_def s0_def)
  have tr: "sy_truth filled 1 = 1"
    unfolding f st(3) len by (simp add: spec_refill_def lock_bytes_def)
  define d where "d = conjoin (range_full 4) 0 0 4"
  have d: "range_bytes d = {..<4}"
    unfolding d_def conjoin_bytes by (simp add: lock_bytes_def lessThan_atLeast0)
  let ?l = "v\<lparr>vb_dirty := d, vb_lock_count := 1\<rparr>"
  have l: "vb_lock False 0 None False 0 0 0 v = \<lparr>lr_hr = D3D_OK, lr_ptr = Some 0, lr_vb = ?l,
      lr_retained = None\<rparr>"
    by (simp add: v vb_lock_def restore_backing_def backing_is_released_def backing_new_def
        lock_staged_def records_dirty_range_def has_flag_def may_trust_lock_bounds_def
        may_widen_upload_def d_def lock_direct_def ptr_at_def sat_add_def)
  let ?f = "vb_fill {..<4} (\<lambda>_. 1) ?l"
  have box: "\<exists>q. bb_box (vb_backing ?f) = Some q \<and> length q = length pb"
    by (simp add: vb_fill_def v backing_new_def)
  then obtain q where q: "bb_box (vb_backing ?f) = Some q" "length q = length pb" by blast
  obtain mn mx where span: "range_span d = Some (mn, mx)"
  proof (cases "range_span d")
    case None
    then have "range_bytes d = {}" by (rule range_span_None)
    moreover have "0 \<in> range_bytes d" by (simp add: d)
    ultimately show ?thesis by simp
  qed auto
  have "unat (rg_max d) \<le> 4"
    using conjoin_max [of "range_full 4" 4 0 0] by (simp add: d_def range_full_def)
  then have mx: "unat (rg_max (vb_dirty ?f)) \<le> length q" using q pb by (simp add: vb_fill_def v)
  have "vb_map_mode ?f = Staged" "\<not> vb_device_null ?f" "vb_lock_count ?f = 1"
    by (simp_all add: vb_fill_def v)
  note un = vb_unlock_last [OF this q(1) mx, of False]
  have "bb_state (vb_backing (fst (snd (vb_unlock False True True ?f)))) = Released"
    unfolding un using span q(1)
    by (simp add: vb_fill_def v release_backing_after_upload_def ignore_lock_bounds_def cls
        may_widen_upload_def note_upload_def backing_new_def backing_release_def)
  moreover have "sy_vb filled = fst (snd (vb_unlock False True True ?f))"
  proof -
    have "lock_bytes (vb_length v) (0, 0) = {..<4}" by (auto simp: lock_bytes_def v)
    then show ?thesis
      by (simp add: f sys_refill_def sys_unlock_def sys_fill_def sys_lock_def v_def [symmetric] l len
          Let_def prod.case_eq_if)
  qed
  ultimately show ?thesis using st(1,2) tr by (simp add: f [symmetric] len)
qed

text \<open>
  C37. Two locks open at once on a re-created backing, of byte 0 and of byte 3 of a four-byte
  buffer filled with ones: the Unlock uploads the zeros of the bytes between them, so the device
  holds 0 where the application's last write was 1.
\<close>

theorem nested_locks_overwrite_the_gap:
  "sy_truth (gap_run filled) 1 = 1 \<and> sy_dev (gap_run filled) 1 = 0"
proof -
  have "vb_map_mode (sy_vb filled) = Staged" "\<not> vb_device_null (sy_vb filled)"
    "vb_lock_count (sy_vb filled) = 0" "vb_length (sy_vb filled) = 4"
    "bb_state (vb_backing (sy_vb filled)) = Released" "range_bytes (vb_dirty (sy_vb filled)) = {}"
    using filled_released by (auto simp: rest_inv_def Let_def)
  from reopened_gap [OF this] show ?thesis using filled_released by simp
qed

end
