(* ===== verification/Dirty_Rect.thy ===== *)
theory Dirty_Rect
  imports Prelude
begin

text \<open>
  The rectangle arithmetic of \<^verbatim>\<open>src/windows/core/src/dirty_rect.rs\<close>: the sub-region of a
  texture mip a lock or a copy touches. \<open>texels\<close> is the meaning of a rectangle, the set of
  texel coordinates it covers; every operation is characterised by what it does to that set.
  All coordinates are \<open>u32\<close>, so the saturating and the wrapping additions of the source are
  told apart.
\<close>

section \<open>The rectangle and its operations\<close>

record dirty_rect =
  dr_x :: u32
  dr_y :: u32
  dr_w :: u32
  dr_h :: u32

definition rect_full :: "u32 \<Rightarrow> u32 \<Rightarrow> dirty_rect" where
  "rect_full w h = \<lparr>dr_x = 0, dr_y = 0, dr_w = w, dr_h = h\<rparr>"

definition next_mip :: "dirty_rect \<Rightarrow> dirty_rect" where
  "next_mip r =
     (let x = dr_x r div 2;
          y = dr_y r div 2;
          right = div_ceil (sat_add (dr_x r) (dr_w r)) 2;
          bottom = div_ceil (sat_add (dr_y r) (dr_h r)) 2
      in \<lparr>dr_x = x, dr_y = y, dr_w = right - x, dr_h = bottom - y\<rparr>)"

definition rect_union :: "dirty_rect \<Rightarrow> dirty_rect \<Rightarrow> dirty_rect" where
  "rect_union a b =
     (let x = min (dr_x a) (dr_x b);
          y = min (dr_y a) (dr_y b);
          right = max (dr_x a + dr_w a) (dr_x b + dr_w b);
          bottom = max (dr_y a + dr_h a) (dr_y b + dr_h b)
      in \<lparr>dr_x = x, dr_y = y, dr_w = right - x, dr_h = bottom - y\<rparr>)"

definition reaches :: "dirty_rect \<Rightarrow> u32 \<Rightarrow> u32 \<Rightarrow> bool" where
  "reaches r width height \<longleftrightarrow>
     dr_x r < width \<and> dr_y r < height \<and> dr_w r \<noteq> 0 \<and> dr_h r \<noteq> 0"

definition rect_clamp :: "dirty_rect \<Rightarrow> u32 \<Rightarrow> u32 \<Rightarrow> dirty_rect option" where
  "rect_clamp r mip_w mip_h =
     (let x = min (dr_x r) mip_w;
          y = min (dr_y r) mip_h;
          right = min (sat_add (dr_x r) (dr_w r)) mip_w;
          bottom = min (sat_add (dr_y r) (dr_h r)) mip_h
      in if right \<le> x \<or> bottom \<le> y then None
         else Some \<lparr>dr_x = x, dr_y = y, dr_w = right - x, dr_h = bottom - y\<rparr>)"

definition clip_to_level ::
  "dirty_rect \<Rightarrow> u32 \<Rightarrow> u32 \<Rightarrow> u32 \<Rightarrow> u32 \<Rightarrow> dirty_rect option" where
  "clip_to_level r level_w level_h block_w block_h =
     (let bw = max block_w 1;
          bh = max block_h 1;
          x = dr_x r - dr_x r mod bw;
          y = dr_y r - dr_y r mod bh;
          right = sat_mul (div_ceil (sat_add (dr_x r) (dr_w r)) bw) bw;
          bottom = sat_mul (div_ceil (sat_add (dr_y r) (dr_h r)) bh) bh
      in rect_clamp \<lparr>dr_x = x, dr_y = y, dr_w = right - x, dr_h = bottom - y\<rparr>
           level_w level_h)"

definition clip_copy_region ::
  "dirty_rect \<Rightarrow> u32 \<times> u32 \<Rightarrow> u32 \<times> u32 \<Rightarrow> u32 \<times> u32 \<Rightarrow> u32 \<times> u32
     \<Rightarrow> (dirty_rect \<times> dirty_rect) option" where
  "clip_copy_region region dst_origin src_level dst_level block =
     (case clip_to_level region (fst src_level) (snd src_level) (fst block) (snd block) of
        None \<Rightarrow> None
      | Some src \<Rightarrow>
          (case clip_to_level
                  \<lparr>dr_x = fst dst_origin, dr_y = snd dst_origin,
                   dr_w = dr_w region, dr_h = dr_h region\<rparr>
                  (fst dst_level) (snd dst_level) (fst block) (snd block) of
             None \<Rightarrow> None
           | Some dst \<Rightarrow>
               (let w = min (dr_w src) (dr_w dst);
                    h = min (dr_h src) (dr_h dst)
                in Some (src\<lparr>dr_w := w, dr_h := h\<rparr>, dst\<lparr>dr_w := w, dr_h := h\<rparr>))))"

text \<open>
  \<^verbatim>\<open>update_surface_region\<close>: the \<open>i32\<close> edges are 32-bit words read as two's complement
  (\<open>sint\<close>, \<open><s\<close>), \<^verbatim>\<open>cast_unsigned\<close> is the same bit pattern, and \<^verbatim>\<open>abs_diff\<close> of an ordered pair
  is the unsigned difference.
\<close>

definition abs_diff :: "u32 \<Rightarrow> u32 \<Rightarrow> u32" where
  "abs_diff a b = (if b \<le>s a then a - b else b - a)"

definition update_surface_region ::
  "(u32 \<times> u32 \<times> u32 \<times> u32) option \<Rightarrow> u32 \<times> u32 \<Rightarrow> u32 \<times> u32 \<Rightarrow> u32 \<times> u32
     \<Rightarrow> u32 \<times> u32 \<Rightarrow> (dirty_rect \<times> (u32 \<times> u32)) option" where
  "update_surface_region src_rect dst_point src_level dst_level block =
     (let (sw, sh) = src_level;
          region = (case src_rect of
              None \<Rightarrow> Some (rect_full sw sh)
            | Some (l, t, r, b) \<Rightarrow>
                if l <s 0 \<or> t <s 0 \<or> r \<le>s l \<or> b \<le>s t then None
                else Some \<lparr>dr_x = l, dr_y = t, dr_w = abs_diff r l, dr_h = abs_diff b t\<rparr>)
      in case region of
           None \<Rightarrow> None
         | Some rg \<Rightarrow>
             if fst dst_point <s 0 \<or> snd dst_point <s 0 then None
             else
               (let (dx, dy) = dst_point;
                    (dw, dh) = dst_level;
                    rx = dr_x rg; ry = dr_y rg; rw = dr_w rg; rh = dr_h rg
                in if sat_add rx rw > sw \<or> sat_add ry rh > sh
                      \<or> sat_add dx rw > dw \<or> sat_add dy rh > dh then None
                   else
                     (let bw = max (fst block) 1; bh = max (snd block) 1
                      in if (bw > 1 \<or> bh > 1)
                            \<and> (\<not> is_multiple_of rx bw \<or> \<not> is_multiple_of ry bh
                               \<or> \<not> is_multiple_of dx bw \<or> \<not> is_multiple_of dy bh
                               \<or> (\<not> is_multiple_of rw bw \<and> (rx + rw \<noteq> sw \<or> dx + rw \<noteq> dw))
                               \<or> (\<not> is_multiple_of rh bh \<and> (ry + rh \<noteq> sh \<or> dy + rh \<noteq> dh)))
                         then None
                         else Some (rg, (dx, dy)))))"

section \<open>What a rectangle covers\<close>

definition texels :: "dirty_rect \<Rightarrow> (nat \<times> nat) set" where
  "texels r = {unat (dr_x r)..<unat (dr_x r) + unat (dr_w r)}
            \<times> {unat (dr_y r)..<unat (dr_y r) + unat (dr_h r)}"

definition level_texels :: "u32 \<Rightarrow> u32 \<Rightarrow> (nat \<times> nat) set" where
  "level_texels w h = {..<unat w} \<times> {..<unat h}"

definition opt_texels :: "dirty_rect option \<Rightarrow> (nat \<times> nat) set" where
  "opt_texels r = (case r of None \<Rightarrow> {} | Some r' \<Rightarrow> texels r')"

text \<open>A rectangle that lies in a level: neither edge wraps and both stay inside.\<close>

definition in_level :: "u32 \<Rightarrow> u32 \<Rightarrow> dirty_rect \<Rightarrow> bool" where
  "in_level w h r \<longleftrightarrow>
     unat (dr_x r) + unat (dr_w r) \<le> unat w \<and> unat (dr_y r) + unat (dr_h r) \<le> unat h"

lemma in_level_texels: "in_level w h r \<Longrightarrow> texels r \<subseteq> level_texels w h"
  by (auto simp: in_level_def texels_def level_texels_def)

lemmas rect_arith = unat_min unat_max unat_sat_add unat_sub_le word_le_nat_alt word_less_nat_alt

section \<open>Clamping to a level\<close>

lemma clamp_axis:
  fixes p len m :: u32
  assumes "\<not> min (sat_add p len) m \<le> min p m"
  shows "min p m = p"
    and "unat p + unat (min (sat_add p len) m - min p m) = min (unat p + unat len) (unat m)"
    and "0 < unat (min (sat_add p len) m - min p m)"
proof -
  let ?e = "min (sat_add p len) m"
  have lt: "unat (min p m) < unat ?e" and e: "unat ?e = min (unat p + unat len) (unat m)"
    using assms u32_bound [of m] by (auto simp: word_le_nat_alt unat_min unat_sat_add)
  show p: "min p m = p"
    using lt by (auto simp: min_def word_le_nat_alt split: if_splits)
  have sub: "unat (?e - p) = unat ?e - unat p"
    using lt p by (intro unat_sub_le) (simp add: word_le_nat_alt)
  show "unat p + unat (?e - min p m) = min (unat p + unat len) (unat m)"
    and "0 < unat (?e - min p m)"
    using lt by (simp_all only: p sub e [symmetric])
qed

lemma rect_clamp_Some:
  assumes "rect_clamp r mw mh = Some c"
  shows "dr_x c = dr_x r" "dr_y c = dr_y r"
    and "unat (dr_x r) + unat (dr_w c) = min (unat (dr_x r) + unat (dr_w r)) (unat mw)"
    and "unat (dr_y r) + unat (dr_h c) = min (unat (dr_y r) + unat (dr_h r)) (unat mh)"
    and "0 < unat (dr_w c)" "0 < unat (dr_h c)"
proof -
  from assms have
    x: "\<not> min (sat_add (dr_x r) (dr_w r)) mw \<le> min (dr_x r) mw" and
    y: "\<not> min (sat_add (dr_y r) (dr_h r)) mh \<le> min (dr_y r) mh" and
    c: "c = \<lparr>dr_x = min (dr_x r) mw, dr_y = min (dr_y r) mh,
            dr_w = min (sat_add (dr_x r) (dr_w r)) mw - min (dr_x r) mw,
            dr_h = min (sat_add (dr_y r) (dr_h r)) mh - min (dr_y r) mh\<rparr>"
    by (auto simp: rect_clamp_def Let_def split: if_splits)
  show "dr_x c = dr_x r" "dr_y c = dr_y r"
    "unat (dr_x r) + unat (dr_w c) = min (unat (dr_x r) + unat (dr_w r)) (unat mw)"
    "unat (dr_y r) + unat (dr_h c) = min (unat (dr_y r) + unat (dr_h r)) (unat mh)"
    "0 < unat (dr_w c)" "0 < unat (dr_h c)"
    unfolding c dirty_rect.simps
    by (rule clamp_axis [OF x] clamp_axis [OF y])+
qed

lemma rect_clamp_None:
  assumes "rect_clamp r mw mh = None"
  shows "texels r \<inter> level_texels mw mh = {}"
  using assms u32_bound [of mw] u32_bound [of mh]
  by (auto simp: rect_clamp_def Let_def rect_arith texels_def level_texels_def split: if_splits)

lemma rect_clamp_in_level: "rect_clamp r mw mh = Some c \<Longrightarrow> in_level mw mh c"
  by (simp add: in_level_def rect_clamp_Some)

lemma opt_texels_clamp: "opt_texels (rect_clamp r mw mh) = texels r \<inter> level_texels mw mh"
proof (cases "rect_clamp r mw mh")
  case None
  then show ?thesis by (simp add: opt_texels_def rect_clamp_None)
next
  case (Some c)
  note s = rect_clamp_Some [OF Some]
  have "texels c = texels r \<inter> level_texels mw mh"
    unfolding texels_def level_texels_def s(1-4) by auto
  with Some show ?thesis by (simp add: opt_texels_def)
qed

section \<open>The bounding box\<close>

lemma union_axis:
  fixes a la b lb :: u32
  assumes "unat a + unat la \<le> m" "unat b + unat lb \<le> m" "m < 4294967296"
  shows "unat (min a b) = min (unat a) (unat b)"
    and "unat (min a b) + unat (max (a + la) (b + lb) - min a b)
           = max (unat a + unat la) (unat b + unat lb)"
proof -
  have e: "unat (a + la) = unat a + unat la" "unat (b + lb) = unat b + unat lb"
    using assms by (simp_all add: unat_add_no_overflow)
  show m: "unat (min a b) = min (unat a) (unat b)"
    by (rule unat_min)
  have "unat (max (a + la) (b + lb) - min a b) = unat (max (a + la) (b + lb)) - unat (min a b)"
    by (rule unat_sub_le) (simp add: word_le_nat_alt unat_min unat_max e)
  then show "unat (min a b) + unat (max (a + la) (b + lb) - min a b)
           = max (unat a + unat la) (unat b + unat lb)"
    by (simp add: unat_min unat_max e)
qed

lemma rect_union_edges:
  assumes "in_level w h a" "in_level w h b"
  shows "unat (dr_x (rect_union a b)) = min (unat (dr_x a)) (unat (dr_x b))"
    and "unat (dr_y (rect_union a b)) = min (unat (dr_y a)) (unat (dr_y b))"
    and "unat (dr_x (rect_union a b)) + unat (dr_w (rect_union a b))
           = max (unat (dr_x a) + unat (dr_w a)) (unat (dr_x b) + unat (dr_w b))"
    and "unat (dr_y (rect_union a b)) + unat (dr_h (rect_union a b))
           = max (unat (dr_y a) + unat (dr_h a)) (unat (dr_y b) + unat (dr_h b))"
proof -
  note x = union_axis [of "dr_x a" "dr_w a" "unat w" "dr_x b" "dr_w b"]
  note y = union_axis [of "dr_y a" "dr_h a" "unat h" "dr_y b" "dr_h b"]
  show "unat (dr_x (rect_union a b)) = min (unat (dr_x a)) (unat (dr_x b))"
    "unat (dr_y (rect_union a b)) = min (unat (dr_y a)) (unat (dr_y b))"
    "unat (dr_x (rect_union a b)) + unat (dr_w (rect_union a b))
           = max (unat (dr_x a) + unat (dr_w a)) (unat (dr_x b) + unat (dr_w b))"
    "unat (dr_y (rect_union a b)) + unat (dr_h (rect_union a b))
           = max (unat (dr_y a) + unat (dr_h a)) (unat (dr_y b) + unat (dr_h b))"
    unfolding rect_union_def Let_def dirty_rect.simps
    using assms u32_bound [of w] u32_bound [of h]
    by (auto simp: in_level_def intro!: x y)
qed

lemma rect_union_in_level:
  "in_level w h a \<Longrightarrow> in_level w h b \<Longrightarrow> in_level w h (rect_union a b)"
  using rect_union_edges(3,4) [of w h a b] by (auto simp: in_level_def)

lemma rect_union_covers:
  assumes "in_level w h a" "in_level w h b"
  shows "texels a \<union> texels b \<subseteq> texels (rect_union a b)"
  unfolding texels_def
  unfolding rect_union_edges(3,4) [OF assms]
  unfolding rect_union_edges(1,2) [OF assms]
  by auto

text \<open>
  The upload and source-dirty trackers fold \<open>rect_union\<close> over the writes of one level. They
  may copy texels between two writes once more than needed; they never skip a written one.
\<close>

interpretation rect_tracker: cover_tracker texels rect_union texels "in_level w h" "in_level w h"
  for w h
  by unfold_locales (auto dest: rect_union_in_level rect_union_covers)

text \<open>
  C31. The dirty-rectangle tracker of a level never under-covers. Starting from one recorded
  write and folding \<^verbatim>\<open>DirtyRect::union\<close> over every later one, all of them inside the
  \<open>w\<close> by \<open>h\<close> level, the tracked rectangle stays inside the level and contains every texel
  any of the writes touched.
\<close>

theorem rect_union_never_under_covers:
  assumes "in_level w h r" and "list_all (in_level w h) rs"
  shows "in_level w h (foldl rect_union r rs)
    \<and> (\<Union>s\<in>set (r # rs). texels s) \<subseteq> texels (foldl rect_union r rs)"
  using rect_tracker.fold_ok [OF assms] rect_tracker.fold_covers [OF assms] by auto

theorem rect_union_never_under_covers_witness:
  "in_level 8 8 (foldl rect_union \<lparr>dr_x = 0, dr_y = 0, dr_w = 2, dr_h = 2\<rparr>
        [\<lparr>dr_x = 4, dr_y = 5, dr_w = 3, dr_h = 1\<rparr>])
   \<and> (\<Union>s\<in>set [\<lparr>dr_x = 0, dr_y = 0, dr_w = 2, dr_h = 2\<rparr>,
               \<lparr>dr_x = 4, dr_y = 5, dr_w = 3, dr_h = 1\<rparr>]. texels s)
      \<subseteq> texels (foldl rect_union \<lparr>dr_x = 0, dr_y = 0, dr_w = 2, dr_h = 2\<rparr>
            [\<lparr>dr_x = 4, dr_y = 5, dr_w = 3, dr_h = 1\<rparr>])"
  by (rule rect_union_never_under_covers) (simp_all add: in_level_def)

section \<open>Scaling to the next mip\<close>

lemma next_mip_axis:
  fixes p len :: u32
  assumes "unat p \<le> i" "i < unat p + unat len" "i < 4294967296"
  shows "unat (p div 2) \<le> i div 2"
    and "i div 2 < unat (p div 2) + unat (div_ceil (sat_add p len) 2 - p div 2)"
proof -
  let ?e = "unat (sat_add p len)"
  have e: "?e = min (unat p + unat len) 4294967295" by (simp add: unat_sat_add)
  have r: "unat (div_ceil (sat_add p len) 2) = (?e + 1) div 2"
    by (simp add: unat_div_ceil) presburger
  have le: "unat (p div 2) \<le> unat (div_ceil (sat_add p len) 2)"
    using u32_bound [of p] unfolding r e by (simp add: unat_div)
  show "unat (p div 2) \<le> i div 2"
    using assms(1) by (simp add: unat_div div_le_mono)
  have "i + 1 \<le> ?e \<or> i = 4294967295 \<and> ?e = 4294967295"
    using assms(2,3) unfolding e by linarith
  then have "i div 2 < (?e + 1) div 2" by presburger
  moreover have "unat (div_ceil (sat_add p len) 2 - p div 2)
      = unat (div_ceil (sat_add p len) 2) - unat (p div 2)"
    using le by (intro unat_sub_le) (simp add: word_le_nat_alt)
  ultimately show "i div 2 < unat (p div 2) + unat (div_ceil (sat_add p len) 2 - p div 2)"
    using le r by linarith
qed

text \<open>
  \<^verbatim>\<open>DirtyRect::next_mip\<close> rounds outward: every texel of the next level that a texel of the
  rectangle contributes to under 2:1 reduction lies in the scaled rectangle, for every texel
  coordinate a \<open>u32\<close> can name (the source's addition saturates there).
\<close>

lemma next_mip_rounds_outward:
  assumes "(i, j) \<in> texels r" and "i < 2 ^ 32" and "j < 2 ^ 32"
  shows "(i div 2, j div 2) \<in> texels (next_mip r)"
  using assms next_mip_axis [of "dr_x r" i "dr_w r"] next_mip_axis [of "dr_y r" j "dr_h r"]
  by (simp add: texels_def next_mip_def Let_def)

section \<open>Clipping a copy to the block grid and the level\<close>

lemma clip_axis:
  fixes p len b :: u32
  assumes "0 < unat b"
  defines "s \<equiv> p - p mod b"
  defines "e \<equiv> sat_mul (div_ceil (sat_add p len) b) b"
  shows "unat s = unat b * (unat p div unat b)" and "unat s \<le> unat p"
    and "unat s + unat (e - s) = unat e"
    and "min (unat p + unat len) 4294967295 \<le> unat e"
    and "unat b dvd unat e \<or> unat e = 4294967295"
proof -
  have "p mod b \<le> p" by (simp add: word_le_nat_alt unat_mod)
  then have "unat s = unat p - unat p mod unat b"
    by (simp add: s_def unat_sub_le unat_mod)
  then show s: "unat s = unat b * (unat p div unat b)"
    by (simp add: minus_mod_eq_mult_div)
  then show sp: "unat s \<le> unat p" by simp
  let ?m = "unat (sat_add p len)"
  have m: "?m = min (unat p + unat len) 4294967295" by (simp add: unat_sat_add)
  define c where "c = unat (div_ceil (sat_add p len) b)"
  have c: "?m \<le> unat b * c"
    unfolding c_def unat_div_ceil by (rule div_ceil_ge [OF assms(1)])
  have e: "unat e = min (c * unat b) 4294967295"
    by (simp add: e_def unat_sat_mul c_def)
  show lo: "min (unat p + unat len) 4294967295 \<le> unat e"
    using c m unfolding e by (simp add: mult.commute)
  have "unat s \<le> unat e" using sp lo u32_bound [of p] by linarith
  then show "unat s + unat (e - s) = unat e"
    by (subst unat_sub_le) (simp_all add: word_le_nat_alt)
  show "unat b dvd unat e \<or> unat e = 4294967295"
    unfolding e by (auto simp: min_def)
qed

text \<open>
  What \<^verbatim>\<open>clip_to_level\<close> hands to a block-compressed copy: the origin is on the block grid,
  and each far edge is on it too or is the level's own edge.
\<close>

definition on_block_grid :: "u32 \<Rightarrow> u32 \<Rightarrow> u32 \<Rightarrow> u32 \<Rightarrow> dirty_rect \<Rightarrow> bool" where
  "on_block_grid lw lh bw bh r \<longleftrightarrow>
     unat (max bw 1) dvd unat (dr_x r) \<and> unat (max bh 1) dvd unat (dr_y r)
     \<and> (unat (max bw 1) dvd unat (dr_x r) + unat (dr_w r)
        \<or> unat (dr_x r) + unat (dr_w r) = unat lw)
     \<and> (unat (max bh 1) dvd unat (dr_y r) + unat (dr_h r)
        \<or> unat (dr_y r) + unat (dr_h r) = unat lh)"

lemma clip_to_level_Some:
  assumes "clip_to_level r lw lh bw bh = Some c"
  shows "in_level lw lh c" and "texels r \<inter> level_texels lw lh \<subseteq> texels c"
    and "on_block_grid lw lh bw bh c"
    and "0 < unat (dr_w c)" and "0 < unat (dr_h c)"
proof -
  define bw' where "bw' = max bw 1"
  define bh' where "bh' = max bh 1"
  have pos: "0 < unat bw'" "0 < unat bh'" by (simp_all add: bw'_def bh'_def unat_max)
  define g where "g = \<lparr>dr_x = dr_x r - dr_x r mod bw', dr_y = dr_y r - dr_y r mod bh',
     dr_w = sat_mul (div_ceil (sat_add (dr_x r) (dr_w r)) bw') bw' - (dr_x r - dr_x r mod bw'),
     dr_h = sat_mul (div_ceil (sat_add (dr_y r) (dr_h r)) bh') bh' - (dr_y r - dr_y r mod bh')\<rparr>"
  have cl: "rect_clamp g lw lh = Some c"
    using assms by (simp add: clip_to_level_def Let_def g_def bw'_def bh'_def)
  note X = clip_axis(1,2) [OF pos(1), where p = "dr_x r"]
    clip_axis(3-5) [OF pos(1), where p = "dr_x r" and len = "dr_w r"]
  note Y = clip_axis(1,2) [OF pos(2), where p = "dr_y r"]
    clip_axis(3-5) [OF pos(2), where p = "dr_y r" and len = "dr_h r"]
  have gx: "unat (dr_x g) \<le> unat (dr_x r)" "unat bw' dvd unat (dr_x g)"
      "min (unat (dr_x r) + unat (dr_w r)) 4294967295 \<le> unat (dr_x g) + unat (dr_w g)"
      "unat bw' dvd unat (dr_x g) + unat (dr_w g) \<or> unat (dr_x g) + unat (dr_w g) = 4294967295"
    using X by (simp_all add: g_def)
  have gy: "unat (dr_y g) \<le> unat (dr_y r)" "unat bh' dvd unat (dr_y g)"
      "min (unat (dr_y r) + unat (dr_h r)) 4294967295 \<le> unat (dr_y g) + unat (dr_h g)"
      "unat bh' dvd unat (dr_y g) + unat (dr_h g) \<or> unat (dr_y g) + unat (dr_h g) = 4294967295"
    using Y by (simp_all add: g_def)
  note C = rect_clamp_Some [OF cl]
  show "in_level lw lh c" by (rule rect_clamp_in_level [OF cl])
  show "0 < unat (dr_w c)" "0 < unat (dr_h c)" by (rule C)+
  have "texels r \<inter> level_texels lw lh \<subseteq> texels g \<inter> level_texels lw lh"
    using gx gy u32_bound [of lw] u32_bound [of lh]
    by (auto simp: texels_def level_texels_def)
  also have "\<dots> = texels c"
    using opt_texels_clamp [of g lw lh] cl by (simp add: opt_texels_def)
  finally show "texels r \<inter> level_texels lw lh \<subseteq> texels c" .
  show "on_block_grid lw lh bw bh c"
    using gx gy C u32_bound [of lw] u32_bound [of lh]
    unfolding on_block_grid_def bw'_def [symmetric] bh'_def [symmetric]
    by (auto simp: min_def split: if_splits)
qed

text \<open>
  C33. A copy between two mip levels stays inside both and on the block grid. When
  \<^verbatim>\<open>clip_copy_region\<close> returns a pair, the two halves have the same non-zero size, each lies
  inside its own level, and each origin is on the format's block grid, so neither half of a
  block-compressed copy can address a partial block or reach past its level.
\<close>

theorem clip_copy_region_safe:
  assumes "clip_copy_region region origin sl dl block = Some (src, dst)"
  shows "dr_w src = dr_w dst \<and> dr_h src = dr_h dst \<and> 0 < unat (dr_w src) \<and> 0 < unat (dr_h src)
    \<and> in_level (fst sl) (snd sl) src \<and> in_level (fst dl) (snd dl) dst
    \<and> unat (max (fst block) 1) dvd unat (dr_x src) \<and> unat (max (snd block) 1) dvd unat (dr_y src)
    \<and> unat (max (fst block) 1) dvd unat (dr_x dst) \<and> unat (max (snd block) 1) dvd unat (dr_y dst)"
proof -
  from assms obtain s d where
    s: "clip_to_level region (fst sl) (snd sl) (fst block) (snd block) = Some s" and
    d: "clip_to_level \<lparr>dr_x = fst origin, dr_y = snd origin, dr_w = dr_w region,
          dr_h = dr_h region\<rparr> (fst dl) (snd dl) (fst block) (snd block) = Some d" and
    src: "src = s\<lparr>dr_w := min (dr_w s) (dr_w d), dr_h := min (dr_h s) (dr_h d)\<rparr>" and
    dst: "dst = d\<lparr>dr_w := min (dr_w s) (dr_w d), dr_h := min (dr_h s) (dr_h d)\<rparr>"
    by (auto simp: clip_copy_region_def Let_def split: option.splits)
  show ?thesis
    using clip_to_level_Some(1,3-5) [OF s] clip_to_level_Some(1,3-5) [OF d]
    by (simp add: src dst in_level_def on_block_grid_def unat_min) linarith
qed

theorem clip_copy_region_safe_witness:
  "clip_copy_region \<lparr>dr_x = 5, dr_y = 2, dr_w = 4, dr_h = 4\<rparr> (0, 0) (10, 10) (8, 8) (4, 4)
     = Some (\<lparr>dr_x = 4, dr_y = 0, dr_w = 4, dr_h = 4\<rparr>, \<lparr>dr_x = 0, dr_y = 0, dr_w = 4, dr_h = 4\<rparr>)
   \<and> in_level 10 10 \<lparr>dr_x = 4, dr_y = 0, dr_w = 4, dr_h = 4\<rparr>"
proof -
  have h: "clip_copy_region \<lparr>dr_x = 5, dr_y = 2, dr_w = 4, dr_h = 4\<rparr> (0, 0) (10, 10) (8, 8) (4, 4)
     = Some (\<lparr>dr_x = 4, dr_y = 0, dr_w = 4, dr_h = 4\<rparr>, \<lparr>dr_x = 0, dr_y = 0, dr_w = 4, dr_h = 4\<rparr>)"
    by (simp add: clip_copy_region_def clip_to_level_def rect_clamp_def sat_add_def sat_mul_def
        div_ceil_def)
  show ?thesis using h clip_copy_region_safe [OF h] by simp
qed

section \<open>The acceptance test of UpdateSurface\<close>

lemma signed_u32:
  fixes a b :: u32
  shows "a <s 0 \<longleftrightarrow> 2147483648 \<le> unat a"
    and "b \<le>s a \<longleftrightarrow> sint b \<le> sint a"
  using u32_bound [of a] by (simp_all add: word_sless_alt word_sle_eq sint_u32)

text \<open>
  What D3D9 requires along one axis, over the integers: \<open>[lo, hi)\<close> in a source level of
  \<open>slen\<close> texels, copied to \<open>at\<close> in a destination level of \<open>dlen\<close>, with block size \<open>b\<close>.
\<close>

definition surface_axis_ok :: "int \<Rightarrow> int \<Rightarrow> int \<Rightarrow> int \<Rightarrow> int \<Rightarrow> int \<Rightarrow> bool" where
  "surface_axis_ok lo hi at slen dlen b \<longleftrightarrow>
     0 \<le> lo \<and> lo < hi \<and> hi \<le> slen \<and> 0 \<le> at \<and> at + (hi - lo) \<le> dlen
     \<and> b dvd lo \<and> b dvd at \<and> (b dvd (hi - lo) \<or> (hi = slen \<and> at + (hi - lo) = dlen))"

text \<open>The checks the code makes along one axis.\<close>

definition axis_check :: "u32 \<Rightarrow> u32 \<Rightarrow> u32 \<Rightarrow> u32 \<Rightarrow> u32 \<Rightarrow> u32 \<Rightarrow> bool" where
  "axis_check lo hi at slen dlen b \<longleftrightarrow>
     \<not> lo <s 0 \<and> \<not> hi \<le>s lo \<and> \<not> at <s 0
     \<and> sat_add lo (abs_diff hi lo) \<le> slen \<and> sat_add at (abs_diff hi lo) \<le> dlen
     \<and> is_multiple_of lo b \<and> is_multiple_of at b
     \<and> (is_multiple_of (abs_diff hi lo) b
        \<or> lo + abs_diff hi lo = slen \<and> at + abs_diff hi lo = dlen)"

lemma axis_check_iff:
  "axis_check lo hi at slen dlen b
   \<longleftrightarrow> surface_axis_ok (sint lo) (sint hi) (sint at) (uint slen) (uint dlen) (uint b)"
proof (cases "unat lo < 2147483648 \<and> sint lo < sint hi \<and> unat at < 2147483648")
  case True
  then have hi: "unat lo < unat hi" "unat hi < 2147483648"
    using u32_bound [of hi] by (auto simp: sint_u32 split: if_splits)
  have s: "sint lo = int (unat lo)" "sint hi = int (unat hi)" "sint at = int (unat at)"
    using True hi by (simp_all add: sint_u32)
  have d: "abs_diff hi lo = hi - lo" using hi by (simp add: abs_diff_def signed_u32 s)
  have ud: "unat (hi - lo) = unat hi - unat lo"
    using hi by (intro unat_sub_le) (simp add: word_le_nat_alt)
  have a1: "sat_add lo (hi - lo) \<le> slen \<longleftrightarrow> int (unat hi) \<le> uint slen"
    using hi by (simp add: word_le_nat_alt unat_sat_add ud uint_is_unat)
  have a2: "sat_add at (hi - lo) \<le> dlen
      \<longleftrightarrow> int (unat at) + (int (unat hi) - int (unat lo)) \<le> uint dlen"
    using True hi by (simp add: word_le_nat_alt unat_sat_add ud uint_is_unat) linarith
  have a3: "at + (hi - lo) = dlen
      \<longleftrightarrow> int (unat at) + (int (unat hi) - int (unat lo)) = uint dlen"
  proof -
    have "unat (at + (hi - lo)) = unat at + (unat hi - unat lo)"
      using True hi by (subst unat_add_no_overflow) (auto simp: ud)
    then show ?thesis
      using hi by (simp add: word_unat_eq_iff uint_is_unat) linarith
  qed
  have m: "is_multiple_of lo b \<longleftrightarrow> uint b dvd int (unat lo)"
      "is_multiple_of at b \<longleftrightarrow> uint b dvd int (unat at)"
      "is_multiple_of (hi - lo) b \<longleftrightarrow> uint b dvd int (unat hi) - int (unat lo)"
    using hi unfolding is_multiple_of_unat ud uint_is_unat
    by (simp_all add: of_nat_diff flip: of_nat_dvd_iff [where 'a = int])
  have e: "lo + (hi - lo) = slen \<longleftrightarrow> int (unat hi) = uint slen"
    by (auto simp: word_unat_eq_iff uint_is_unat)
  show ?thesis
    using True hi unfolding axis_check_def surface_axis_ok_def d a1 a2 a3 m e s uint_is_unat
    by (auto simp: signed_u32 s)
next
  case False
  then show ?thesis
    using u32_bound [of lo] u32_bound [of at]
    by (auto simp: axis_check_def surface_axis_ok_def signed_u32 sint_u32 uint_is_unat split: if_splits)
qed

lemma max_one_multiple: "\<not> (1::u32) < max b 1 \<Longrightarrow> is_multiple_of a (max b 1)"
  by (simp add: is_multiple_of_unat word_less_nat_alt unat_max)

text \<open>
  C28. \<^verbatim>\<open>update_surface_region\<close> accepts exactly the regions D3D9 accepts. For an explicit source
  rectangle the call succeeds if and only if, read as signed integers on each axis, the
  rectangle is non-empty, not negative, inside the source level, its image is inside the
  destination level, both origins are on the block grid, and the extent is a multiple of the
  block or reaches the far edge of both levels. The region returned is that rectangle and
  the destination point is passed through. No 32-bit wrap-around changes the verdict.
\<close>

theorem update_surface_region_exact:
  "update_surface_region (Some (l, t, r, b)) (px, py) (sw, sh) (dw, dh) (bw, bh) =
     (if surface_axis_ok (sint l) (sint r) (sint px) (uint sw) (uint dw) (uint (max bw 1))
         \<and> surface_axis_ok (sint t) (sint b) (sint py) (uint sh) (uint dh) (uint (max bh 1))
      then Some (\<lparr>dr_x = l, dr_y = t, dr_w = r - l, dr_h = b - t\<rparr>, (px, py))
      else None)"
proof -
  have A: "update_surface_region (Some (l, t, r, b)) (px, py) (sw, sh) (dw, dh) (bw, bh) =
     (if axis_check l r px sw dw (max bw 1) \<and> axis_check t b py sh dh (max bh 1)
      then Some (\<lparr>dr_x = l, dr_y = t, dr_w = abs_diff r l, dr_h = abs_diff b t\<rparr>, (px, py))
      else None)"
    using max_one_multiple [of bw] max_one_multiple [of bh]
    by (simp add: update_surface_region_def axis_check_def not_less [symmetric] Let_def)
  have B: "surface_axis_ok (sint lo) (sint hi) p q u v \<Longrightarrow> abs_diff hi lo = hi - lo" for lo hi p q u v
    by (simp add: surface_axis_ok_def abs_diff_def word_sle_eq)
  show ?thesis
    unfolding A axis_check_iff by (auto dest: B)
qed

end
