(* ===== verification/Staging_Coverage.thy ===== *)
theory Staging_Coverage
  imports Dirty_Rect
begin

text \<open>
  \<^verbatim>\<open>src/windows/core/src/staging_coverage.rs\<close>: which texels of a texture level the writes
  since its staging was allocated cover.

  The level releases its staging once coverage is full, so a wrong \<open>Full\<close> hands the GPU
  uninitialised pages. The tracker keeps the written rectangles, drops one that is contained in
  another, and runs a band sweep once the areas add up. The theory proves the sweep exact, and
  from it that the tracker's answer is exact for every sequence of writes and resets until the
  33rd distinct rectangle makes it give up.

  The two \<^verbatim>\<open>sort_unstable\<close> calls are modelled by HOL's sort: rows are equal when they compare
  equal, and the sweep lemma \<open>sweep_reach_covers\<close> asks of the rectangles only that their \<open>x\<close>
  ascend.
\<close>

datatype coverage_state = CovPartial | CovFull | CovUntracked

record staging_coverage =
  sc_rects :: "dirty_rect list"
  sc_written_area :: u64
  sc_state :: coverage_state

definition MAX_TRACKED_RECTS :: nat where
  "MAX_TRACKED_RECTS = 32"

definition coverage_new :: staging_coverage where
  "coverage_new = \<lparr>sc_rects = [], sc_written_area = 0, sc_state = CovPartial\<rparr>"

definition is_full :: "staging_coverage \<Rightarrow> bool" where
  "is_full c \<longleftrightarrow> sc_state c = CovFull"

definition coverage_reset :: "staging_coverage \<Rightarrow> staging_coverage" where
  "coverage_reset c = c\<lparr>sc_rects := [], sc_written_area := 0, sc_state := CovPartial\<rparr>"

definition mark_full :: "staging_coverage \<Rightarrow> staging_coverage" where
  "mark_full c = c\<lparr>sc_rects := [], sc_written_area := 0, sc_state := CovFull\<rparr>"

definition rect_contains :: "dirty_rect \<Rightarrow> dirty_rect \<Rightarrow> bool" where
  "rect_contains outer inner \<longleftrightarrow>
     dr_x outer \<le> dr_x inner \<and> dr_y outer \<le> dr_y inner
     \<and> dr_x inner + dr_w inner \<le> dr_x outer + dr_w outer
     \<and> dr_y inner + dr_h inner \<le> dr_y outer + dr_h outer"

text \<open>The walk over one band: \<^verbatim>\<open>continue\<close> on a rectangle that does not span it, \<^verbatim>\<open>break\<close> on a gap.\<close>

fun sweep_reach :: "u32 \<Rightarrow> u32 \<Rightarrow> u32 \<Rightarrow> dirty_rect list \<Rightarrow> u32" where
  "sweep_reach up down reached [] = reached"
| "sweep_reach up down reached (r # rs) =
     (if up < dr_y r \<or> dr_y r + dr_h r < down then sweep_reach up down reached rs
      else if reached < dr_x r then reached
      else sweep_reach up down (max reached (dr_x r + dr_w r)) rs)"

definition bands_of :: "dirty_rect list \<Rightarrow> u32 list" where
  "bands_of rects = remdups_adj (sort (concat (map (\<lambda>r. [dr_y r, dr_y r + dr_h r]) rects)))"

definition covers_level :: "dirty_rect list \<Rightarrow> u32 \<Rightarrow> u32 \<Rightarrow> bool" where
  "covers_level rects level_w level_h =
     (let bands = bands_of rects
      in if bands = [] \<or> hd bands \<noteq> 0 \<or> last bands \<noteq> level_h then False
         else let ordered = sort_key dr_x rects
              in list_all (\<lambda>(up, down). level_w \<le> sweep_reach up down 0 ordered)
                   (zip bands (tl bands)))"

definition coverage_add :: "staging_coverage \<Rightarrow> dirty_rect \<Rightarrow> u32 \<Rightarrow> u32 \<Rightarrow> staging_coverage" where
  "coverage_add c rect level_w level_h =
     (case rect_clamp rect level_w level_h of
        None \<Rightarrow> c
      | Some r \<Rightarrow>
          if dr_x r = 0 \<and> dr_y r = 0 \<and> level_w \<le> dr_w r \<and> level_h \<le> dr_h r then mark_full c
          else if sc_state c \<noteq> CovPartial then c
          else if list_ex (\<lambda>o'. rect_contains o' r) (sc_rects c) then c
          else if MAX_TRACKED_RECTS \<le> length (sc_rects c)
            then c\<lparr>sc_rects := [], sc_state := CovUntracked\<rparr>
          else let rects = sc_rects c @ [r];
                   area = sat_add (sc_written_area c) (ucast (dr_w r) * ucast (dr_h r));
                   c' = c\<lparr>sc_rects := rects, sc_written_area := area\<rparr>
               in if ucast level_w * ucast level_h \<le> area \<and> covers_level rects level_w level_h
                  then mark_full c' else c')"

section \<open>The sweep over one band\<close>

text \<open>A tracked rectangle: non-empty and inside the level.\<close>

definition tracked :: "u32 \<Rightarrow> u32 \<Rightarrow> dirty_rect \<Rightarrow> bool" where
  "tracked w h r \<longleftrightarrow> in_level w h r \<and> 0 < unat (dr_w r) \<and> 0 < unat (dr_h r)"

lemma tracked_right: "tracked w h r \<Longrightarrow> unat (dr_x r + dr_w r) = unat (dr_x r) + unat (dr_w r)"
  using u32_bound [of w] by (intro unat_add_no_overflow) (simp add: tracked_def in_level_def)

lemma tracked_bottom: "tracked w h r \<Longrightarrow> unat (dr_y r + dr_h r) = unat (dr_y r) + unat (dr_h r)"
  using u32_bound [of h] by (intro unat_add_no_overflow) (simp add: tracked_def in_level_def)

definition spans :: "u32 \<Rightarrow> u32 \<Rightarrow> dirty_rect \<Rightarrow> bool" where
  "spans up down r \<longleftrightarrow> dr_y r \<le> up \<and> down \<le> dr_y r + dr_h r"

definition in_columns :: "dirty_rect \<Rightarrow> nat \<Rightarrow> bool" where
  "in_columns r i \<longleftrightarrow> unat (dr_x r) \<le> i \<and> i < unat (dr_x r) + unat (dr_w r)"

lemma sweep_reach_Cons:
  "\<not> spans up down r \<Longrightarrow> sweep_reach up down reached (r # rs) = sweep_reach up down reached rs"
  "spans up down r \<Longrightarrow> reached < dr_x r \<Longrightarrow> sweep_reach up down reached (r # rs) = reached"
  "spans up down r \<Longrightarrow> dr_x r \<le> reached \<Longrightarrow>
     sweep_reach up down reached (r # rs) = sweep_reach up down (max reached (dr_x r + dr_w r)) rs"
  by (auto simp: spans_def not_le not_less)

declare sweep_reach.simps(2) [simp del]

lemma sweep_reach_sound:
  assumes "list_all (tracked w h) rs" "unat reached \<le> i" "i < unat (sweep_reach up down reached rs)"
  shows "\<exists>r\<in>set rs. spans up down r \<and> in_columns r i"
  using assms
proof (induction rs arbitrary: reached)
  case (Cons r rs)
  show ?case
  proof (cases "spans up down r \<and> dr_x r \<le> reached")
    case True
    then have e: "sweep_reach up down reached (r # rs)
        = sweep_reach up down (max reached (dr_x r + dr_w r)) rs"
      by (simp add: sweep_reach_Cons)
    have t: "tracked w h r" using Cons.prems by simp
    show ?thesis
    proof (cases "unat (max reached (dr_x r + dr_w r)) \<le> i")
      case True
      then show ?thesis using Cons.IH [of "max reached (dr_x r + dr_w r)"] Cons.prems e by auto
    next
      case False
      then have "in_columns r i"
        using Cons.prems(2) \<open>_ \<and> dr_x r \<le> reached\<close> tracked_right [OF t]
        by (simp add: in_columns_def unat_max word_le_nat_alt)
      then show ?thesis using True by auto
    qed
  next
    case False
    then have "sweep_reach up down reached (r # rs) = sweep_reach up down reached rs
        \<or> sweep_reach up down reached (r # rs) = reached"
      by (cases "spans up down r") (auto simp: sweep_reach_Cons not_le)
    then show ?thesis using Cons.IH [of reached] Cons.prems by auto
  qed
qed simp

lemma sweep_reach_complete:
  assumes "list_all (tracked w h) rs" "sorted (map dr_x rs)"
    and "\<forall>i. unat reached \<le> i \<and> i < unat lw \<longrightarrow> (\<exists>r\<in>set rs. spans up down r \<and> in_columns r i)"
  shows "lw \<le> sweep_reach up down reached rs"
  using assms
proof (induction rs arbitrary: reached)
  case Nil
  then show ?case by (force simp: word_le_nat_alt not_le)
next
  case (Cons r rs)
  have t: "tracked w h r" using Cons.prems by simp
  consider (skip) "\<not> spans up down r" | (gap) "spans up down r" "reached < dr_x r"
    | (extend) "spans up down r" "dr_x r \<le> reached" by force
  then show ?case
  proof cases
    case skip
    then have "\<forall>i. unat reached \<le> i \<and> i < unat lw \<longrightarrow> (\<exists>r\<in>set rs. spans up down r \<and> in_columns r i)"
      using Cons.prems(3) by auto
    then show ?thesis using Cons.IH [of reached] Cons.prems(1,2) skip by (simp add: sweep_reach_Cons)
  next
    case gap
    have "lw \<le> reached"
    proof (rule ccontr)
      assume "\<not> lw \<le> reached"
      then obtain r' where "r' \<in> set (r # rs)" "in_columns r' (unat reached)"
        using Cons.prems(3) [rule_format, of "unat reached"] by (auto simp: word_le_nat_alt)
      moreover from this have "dr_x r \<le> dr_x r'" using Cons.prems(2) by auto
      ultimately show False
        using gap(2) by (auto simp: in_columns_def word_le_nat_alt word_less_nat_alt)
    qed
    then show ?thesis using gap by (simp add: sweep_reach_Cons)
  next
    case extend
    have "\<exists>r\<in>set rs. spans up down r \<and> in_columns r i"
      if "unat (max reached (dr_x r + dr_w r)) \<le> i" "i < unat lw" for i
      using Cons.prems(3) [rule_format, of i] that tracked_right [OF t] by (auto simp: in_columns_def unat_max)
    then show ?thesis
      using Cons.IH [of "max reached (dr_x r + dr_w r)"] Cons.prems(1,2) extend
      by (simp add: sweep_reach_Cons)
  qed
qed

lemma sweep_reach_covers:
  assumes "list_all (tracked w h) rs" "sorted (map dr_x rs)"
  shows "lw \<le> sweep_reach up down 0 rs \<longleftrightarrow>
    (\<forall>i < unat lw. \<exists>r\<in>set rs. spans up down r \<and> in_columns r i)"
  using sweep_reach_sound [OF assms(1), of 0] sweep_reach_complete [OF assms, of 0]
  by (auto simp: word_le_nat_alt)

section \<open>The bands\<close>

lemma distinct_remdups_adj_sorted: "sorted xs \<Longrightarrow> distinct (remdups_adj xs)"
  by (induction xs rule: remdups_adj.induct) (auto simp: less_le)

lemma sorted_distinct_bands: "sorted (bands_of rects)" "distinct (bands_of rects)"
  by (simp_all add: bands_of_def distinct_remdups_adj_sorted)

lemma set_bands: "set (bands_of rects) = (\<Union>r\<in>set rects. {dr_y r, dr_y r + dr_h r})"
  by (auto simp: bands_of_def)

text \<open>Every value between the ends of an ascending list lies in one window of two neighbours.\<close>

lemma window_of:
  fixes xs :: "'a::linorder list"
  assumes "sorted xs" "xs \<noteq> []" "hd xs \<le> v" "v < last xs"
  shows "\<exists>(a, b)\<in>set (zip xs (tl xs)). a \<le> v \<and> v < b"
  using assms
proof (induction xs)
  case (Cons x xs)
  show ?case
  proof (cases xs)
    case Nil
    then show ?thesis using Cons.prems by simp
  next
    case (Cons y ys)
    then show ?thesis using Cons.IH Cons.prems by (cases "v < y") auto
  qed
qed simp

lemma sorted_le_last: "sorted xs \<Longrightarrow> (x::'a::linorder) \<in> set xs \<Longrightarrow> x \<le> last xs"
  by (induction xs) auto

lemma window_gap:
  fixes xs :: "'a::linorder list"
  assumes "sorted xs" "(a, b) \<in> set (zip xs (tl xs))" "e \<in> set xs"
  shows "e \<le> a \<or> b \<le> e"
  using assms
proof (induction xs)
  case (Cons x xs)
  show ?case
  proof (cases xs)
    case (Cons y ys)
    show ?thesis
    proof (cases "a = x \<and> b = y")
      case True
      then show ?thesis using Cons.prems Cons by auto
    next
      case False
      then have w: "(a, b) \<in> set (zip xs (tl xs))" using Cons.prems(2) Cons by auto
      then have "a \<in> set xs" by (rule set_zip_leftD)
      then show ?thesis using Cons.IH w Cons.prems by auto
    qed
  qed (use Cons.prems in simp)
qed simp

lemma window_lt:
  fixes xs :: "'a::linorder list"
  assumes "sorted xs" "distinct xs" "(a, b) \<in> set (zip xs (tl xs))"
  shows "a < b \<and> a \<in> set xs \<and> b \<in> set xs"
  using assms
proof (induction xs)
  case (Cons x xs)
  then show ?case by (cases xs) (auto simp: less_le)
qed simp

section \<open>The sweep is exact\<close>

definition union_texels :: "dirty_rect list \<Rightarrow> (nat \<times> nat) set" where
  "union_texels rects = (\<Union>r\<in>set rects. texels r)"

lemma union_texels_simps [simp]:
  "union_texels [] = {}" "union_texels (xs @ ys) = union_texels xs \<union> union_texels ys"
  "union_texels (r # rs) = texels r \<union> union_texels rs"
  by (auto simp: union_texels_def)

text \<open>Within a band a rectangle covers a row exactly when it spans the band.\<close>

lemma spans_row:
  assumes "list_all (tracked w h) rects" "r \<in> set rects"
    and "(up, down) \<in> set (zip (bands_of rects) (tl (bands_of rects)))"
    and "up \<le> v" "v < down"
  shows "(i, unat v) \<in> texels r \<longleftrightarrow> spans up down r \<and> in_columns r i"
proof -
  have t: "tracked w h r" using assms(1,2) by (simp add: list_all_iff)
  have e: "dr_y r \<in> set (bands_of rects)" "dr_y r + dr_h r \<in> set (bands_of rects)"
    using assms(2) by (auto simp: set_bands)
  note g = e [THEN window_gap [OF sorted_distinct_bands(1) assms(3)]]
  have m: "(i, unat v) \<in> texels r \<longleftrightarrow> in_columns r i \<and> dr_y r \<le> v \<and> v < dr_y r + dr_h r"
    using tracked_bottom [OF t]
    by (auto simp: texels_def in_columns_def word_le_nat_alt word_less_nat_alt)
  have "spans up down r \<longleftrightarrow> dr_y r \<le> v \<and> v < dr_y r + dr_h r"
    using g assms(4,5) unfolding spans_def by (meson leD leI le_less_trans less_le_trans order_trans)
  then show ?thesis using m by blast
qed

lemma bands_top_bottom:
  assumes "list_all (tracked w h) rects" "0 < unat w" "0 < unat h"
    and "level_texels w h \<subseteq> union_texels rects"
  shows "bands_of rects \<noteq> []" "hd (bands_of rects) = 0" "last (bands_of rects) = h"
proof -
  have h1: "(0, 0) \<in> level_texels w h" "(0, unat h - 1) \<in> level_texels w h"
    using assms(2,3) by (auto simp: level_texels_def)
  obtain r where r: "r \<in> set rects" "(0, 0) \<in> texels r"
    using h1(1) assms(4) by (auto simp: union_texels_def)
  then have "dr_y r = 0" by (auto simp: texels_def unat_eq_zero)
  then have z: "0 \<in> set (bands_of rects)" using r(1) by (force simp: set_bands)
  obtain q where q: "q \<in> set rects" "(0, unat h - 1) \<in> texels q"
    using h1(2) assms(4) by (auto simp: union_texels_def)
  have t: "tracked w h q" using assms(1) q(1) by (simp add: list_all_iff)
  have "unat (dr_y q + dr_h q) = unat h"
    using q(2) t assms(3) tracked_bottom [OF t] by (auto simp: texels_def tracked_def in_level_def)
  then have hh: "h \<in> set (bands_of rects)"
    using q(1) by (force simp: set_bands word_unat_eq_iff)
  have le: "\<forall>b\<in>set (bands_of rects). b \<le> h"
  proof
    fix b assume "b \<in> set (bands_of rects)"
    then obtain r where r: "r \<in> set rects" "b = dr_y r \<or> b = dr_y r + dr_h r"
      by (auto simp: set_bands)
    have t: "tracked w h r" using assms(1) r(1) by (simp add: list_all_iff)
    then show "b \<le> h"
      using r(2) tracked_bottom [OF t] by (auto simp: tracked_def in_level_def word_le_nat_alt)
  qed
  show ne: "bands_of rects \<noteq> []" using z by auto
  have "hd (bands_of rects) \<le> 0"
    using z sorted_distinct_bands(1) [of rects] by (cases "bands_of rects") auto
  then show "hd (bands_of rects) = 0" by simp
  have "h \<le> last (bands_of rects)"
    by (intro sorted_le_last sorted_distinct_bands hh)
  then show "last (bands_of rects) = h" using le ne by (simp add: order_antisym)
qed

lemma covers_level_exact:
  assumes tr: "list_all (tracked w h) rects" and "0 < unat w" "0 < unat h"
  shows "covers_level rects w h \<longleftrightarrow> level_texels w h \<subseteq> union_texels rects"
proof -
  let ?bs = "bands_of rects"
  have tro: "list_all (tracked w h) (sort_key dr_x rects)" using tr by (simp add: list_all_iff)
  have sweep: "w \<le> sweep_reach a b 0 (sort_key dr_x rects)
      \<longleftrightarrow> (\<forall>i < unat w. (i, unat v) \<in> union_texels rects)"
    if "(a, b) \<in> set (zip ?bs (tl ?bs))" "a \<le> v" "v < b" for a b v
    unfolding sweep_reach_covers [OF tro sorted_sort_key]
    using spans_row [OF tr _ that] by (auto simp: union_texels_def)
  show ?thesis
  proof
    assume c: "covers_level rects w h"
    then have bs: "?bs \<noteq> []" "hd ?bs = 0" "last ?bs = h"
      and all: "\<And>a b. (a, b) \<in> set (zip ?bs (tl ?bs)) \<Longrightarrow> w \<le> sweep_reach a b 0 (sort_key dr_x rects)"
      by (auto simp: covers_level_def Let_def list_all_iff split: if_splits)
    show "level_texels w h \<subseteq> union_texels rects"
    proof clarify
      fix i j assume "(i, j) \<in> level_texels w h"
      then have ij: "i < unat w" "j < unat h" by (auto simp: level_texels_def)
      define v :: u32 where "v = word_of_nat j"
      have v: "unat v = j"
        using ij(2) u32_bound [of h] by (simp add: v_def unsigned_of_nat take_bit_nat_eq_self_iff)
      then have "hd ?bs \<le> v" "v < last ?bs" using bs ij(2) by (simp_all add: word_less_nat_alt)
      then obtain a b where "(a, b) \<in> set (zip ?bs (tl ?bs))" "a \<le> v" "v < b"
        using window_of [OF sorted_distinct_bands(1) bs(1)] by blast
      then show "(i, j) \<in> union_texels rects" using sweep all ij(1) v by blast
    qed
  next
    assume c: "level_texels w h \<subseteq> union_texels rects"
    note bs = bands_top_bottom [OF assms c]
    have "w \<le> sweep_reach a b 0 (sort_key dr_x rects)" if ab: "(a, b) \<in> set (zip ?bs (tl ?bs))" for a b
    proof -
      note l = window_lt [OF sorted_distinct_bands ab]
      have "b \<le> last ?bs"
        using l by (intro sorted_le_last sorted_distinct_bands) simp
      then have "unat a < unat h" using l bs(3) by (simp add: word_less_nat_alt word_le_nat_alt)
      then have "\<forall>i < unat w. (i, unat a) \<in> union_texels rects"
        using c by (auto simp: level_texels_def)
      then show ?thesis using sweep [OF ab, of a] l by simp
    qed
    then show "covers_level rects w h" using bs by (auto simp: covers_level_def Let_def list_all_iff)
  qed
qed

section \<open>The tracker\<close>

lemma card_texels: "card (texels r) = unat (dr_w r) * unat (dr_h r)" "finite (texels r)"
  by (simp_all add: texels_def card_cartesian_product)

lemma card_level: "card (level_texels w h) = unat w * unat h"
  by (simp add: level_texels_def card_cartesian_product)

lemma level_nonempty: "0 < unat w \<Longrightarrow> 0 < unat h \<Longrightarrow> level_texels w h \<noteq> {}"
  by (auto simp: level_texels_def lessThan_empty_iff)

lemma finite_union_texels: "finite (union_texels rects)"
  by (simp add: union_texels_def card_texels)

lemma contains_texels:
  assumes "tracked w h r" "tracked w h q" "rect_contains r q"
  shows "texels q \<subseteq> texels r"
  using assms(3) tracked_right [OF assms(1)] tracked_right [OF assms(2)]
    tracked_bottom [OF assms(1)] tracked_bottom [OF assms(2)]
  by (auto simp: texels_def rect_contains_def word_le_nat_alt)

text \<open>
  A history of one level's staging: writes, whole-level writes and resets. Its meaning is the set
  of texels written since the last reset.
\<close>

datatype cov_op = CovAdd dirty_rect | CovMarkFull | CovReset

definition cov_apply :: "u32 \<Rightarrow> u32 \<Rightarrow> staging_coverage \<Rightarrow> cov_op \<Rightarrow> staging_coverage" where
  "cov_apply w h c oper = (case oper of CovAdd r \<Rightarrow> coverage_add c r w h
     | CovMarkFull \<Rightarrow> mark_full c | CovReset \<Rightarrow> coverage_reset c)"

definition written_after :: "u32 \<Rightarrow> u32 \<Rightarrow> (nat \<times> nat) set \<Rightarrow> cov_op \<Rightarrow> (nat \<times> nat) set" where
  "written_after w h W oper = (case oper of CovAdd r \<Rightarrow> W \<union> (texels r \<inter> level_texels w h)
     | CovMarkFull \<Rightarrow> level_texels w h | CovReset \<Rightarrow> {})"

definition cov_inv :: "u32 \<Rightarrow> u32 \<Rightarrow> nat \<Rightarrow> staging_coverage \<Rightarrow> (nat \<times> nat) set \<Rightarrow> bool" where
  "cov_inv w h n c W \<longleftrightarrow>
     (case sc_state c of
        CovPartial \<Rightarrow> list_all (tracked w h) (sc_rects c) \<and> union_texels (sc_rects c) = W
          \<and> min (card W) (2 ^ 64 - 1) \<le> unat (sc_written_area c)
          \<and> length (sc_rects c) \<le> min n MAX_TRACKED_RECTS \<and> \<not> level_texels w h \<subseteq> W
      | CovFull \<Rightarrow> level_texels w h \<subseteq> W
      | CovUntracked \<Rightarrow> MAX_TRACKED_RECTS < n)"

lemma cov_inv_mono: "cov_inv w h n c W \<Longrightarrow> cov_inv w h (Suc n) c W"
  by (auto simp: cov_inv_def split: coverage_state.splits)

lemma cov_inv_full: "cov_inv w h n (mark_full c) W \<longleftrightarrow> level_texels w h \<subseteq> W"
  by (simp add: cov_inv_def mark_full_def)

text \<open>Pushing a rectangle: the recorded area still bounds what was written, so the sweep runs
  whenever the level could be covered.\<close>

lemma cov_push:
  assumes wh: "0 < unat w" "0 < unat h" and t: "tracked w h r"
    and inv: "cov_inv w h n c W" "sc_state c = CovPartial"
    and room: "length (sc_rects c) < MAX_TRACKED_RECTS"
  defines "c' \<equiv> c\<lparr>sc_rects := sc_rects c @ [r],
    sc_written_area := sat_add (sc_written_area c) (ucast (dr_w r) * ucast (dr_h r))\<rparr>"
  shows "cov_inv w h (Suc n)
    (if ucast w * ucast h \<le> sc_written_area c' \<and> covers_level (sc_rects c') w h
     then mark_full c' else c') (W \<union> texels r)"
proof -
  have i: "list_all (tracked w h) (sc_rects c)" "union_texels (sc_rects c) = W"
    "min (card W) (2 ^ 64 - 1) \<le> unat (sc_written_area c)" "length (sc_rects c) \<le> n"
    using inv by (simp_all add: cov_inv_def)
  have tr: "list_all (tracked w h) (sc_rects c')" "union_texels (sc_rects c') = W \<union> texels r"
    using i t by (simp_all add: c'_def)
  have "card (W \<union> texels r) \<le> card W + unat (dr_w r) * unat (dr_h r)"
    using card_Un_le [of W "texels r"] by (simp add: card_texels)
  then have area: "min (card (W \<union> texels r)) (2 ^ 64 - 1) \<le> unat (sc_written_area c')"
    using i(3) by (simp add: c'_def unat_sat_add unat_area)
  note ex = covers_level_exact [OF tr(1) wh, unfolded tr(2)]
  have "ucast w * ucast h \<le> sc_written_area c'" if "level_texels w h \<subseteq> W \<union> texels r"
  proof -
    have "unat w * unat h \<le> card (W \<union> texels r)"
      using card_mono [OF finite_union_texels [of "sc_rects c'"]] that
      by (simp add: tr(2) card_level [symmetric])
    moreover have "unat w * unat h \<le> 2 ^ 64 - 1"
      using unat_lt_len [of "ucast w * ucast h :: u64"] by (simp add: unat_area)
    ultimately show ?thesis using area by (simp add: word_le_nat_alt unat_area)
  qed
  moreover have "cov_inv w h (Suc n) c' (W \<union> texels r)" if "\<not> level_texels w h \<subseteq> W \<union> texels r"
  proof -
    have "sc_state c' = CovPartial" "length (sc_rects c') \<le> min (Suc n) MAX_TRACKED_RECTS"
      using inv(2) i(4) room by (simp_all add: c'_def)
    then show ?thesis using tr area that by (simp add: cov_inv_def)
  qed
  ultimately show ?thesis using ex by (auto simp: cov_inv_full)
qed

lemma cov_add_inv:
  assumes wh: "0 < unat w" "0 < unat h" and inv: "cov_inv w h n c W"
  shows "cov_inv w h (Suc n) (coverage_add c r w h) (W \<union> (texels r \<inter> level_texels w h))"
proof (cases "rect_clamp r w h")
  case None
  then show ?thesis
    using inv rect_clamp_None [OF None] by (simp add: coverage_add_def cov_inv_mono)
next
  case (Some q)
  have tx: "texels r \<inter> level_texels w h = texels q"
    using opt_texels_clamp [of r w h] Some by (simp add: opt_texels_def)
  have t: "tracked w h q"
    using rect_clamp_Some [OF Some] rect_clamp_in_level [OF Some] by (simp add: tracked_def)
  consider (whole) "dr_x q = 0 \<and> dr_y q = 0 \<and> w \<le> dr_w q \<and> h \<le> dr_h q"
    | (decided) "\<not> (dr_x q = 0 \<and> dr_y q = 0 \<and> w \<le> dr_w q \<and> h \<le> dr_h q)" "sc_state c \<noteq> CovPartial"
    | (known) p where "\<not> (dr_x q = 0 \<and> dr_y q = 0 \<and> w \<le> dr_w q \<and> h \<le> dr_h q)"
        "sc_state c = CovPartial" "p \<in> set (sc_rects c)" "rect_contains p q"
    | (new) "\<not> (dr_x q = 0 \<and> dr_y q = 0 \<and> w \<le> dr_w q \<and> h \<le> dr_h q)"
        "sc_state c = CovPartial" "\<not> list_ex (\<lambda>p. rect_contains p q) (sc_rects c)"
    by (auto simp: list_ex_iff)
  then show ?thesis
  proof cases
    case whole
    then have "level_texels w h \<subseteq> texels q"
      by (auto simp: level_texels_def texels_def word_le_nat_alt)
    then show ?thesis using whole by (auto simp: coverage_add_def Some tx cov_inv_full)
  next
    case decided
    then have "coverage_add c r w h = c" by (simp only: coverage_add_def Some option.case if_False) simp
    then show ?thesis
      using inv decided(2) by (auto simp: cov_inv_def split: coverage_state.splits)
  next
    case known
    then have e: "coverage_add c r w h = c"
      by (simp only: coverage_add_def Some option.case if_False) (auto simp: list_ex_iff)
    have "texels q \<subseteq> W"
      using known inv contains_texels [OF _ t known(4)]
      by (auto simp: cov_inv_def list_all_iff union_texels_def)
    then show ?thesis using inv by (simp add: e tx Un_absorb2 cov_inv_mono)
  next
    case new
    show ?thesis
    proof (cases "MAX_TRACKED_RECTS \<le> length (sc_rects c)")
      case True
      then have "coverage_add c r w h = c\<lparr>sc_rects := [], sc_state := CovUntracked\<rparr>"
        using new by (simp only: coverage_add_def Some option.case if_False) simp
      then show ?thesis using True inv new(2) by (simp add: cov_inv_def)
    next
      case False
      then show ?thesis
        using cov_push [OF wh t inv new(2)] new
        by (simp only: coverage_add_def Some option.case if_False tx) (simp add: Let_def)
    qed
  qed
qed

lemma cov_apply_inv:
  assumes wh: "0 < unat w" "0 < unat h" and inv: "cov_inv w h n c W"
  shows "cov_inv w h (Suc n) (cov_apply w h c x) (written_after w h W x)"
proof (cases x)
  case (CovAdd r)
  then show ?thesis using cov_add_inv [OF assms] by (simp add: cov_apply_def written_after_def)
next
  case CovMarkFull
  then show ?thesis by (simp add: cov_apply_def written_after_def cov_inv_full)
next
  case CovReset
  then show ?thesis
    using level_nonempty [OF wh]
    by (simp add: cov_apply_def written_after_def cov_inv_def coverage_reset_def)
qed

lemma cov_history_inv:
  assumes wh: "0 < unat w" "0 < unat h"
  shows "cov_inv w h (length ops) (foldl (cov_apply w h) coverage_new ops)
           (foldl (written_after w h) {} ops)"
proof (induction ops rule: rev_induct)
  case Nil
  then show ?case using level_nonempty [OF wh] by (simp add: cov_inv_def coverage_new_def)
next
  case (snoc x ops)
  then show ?case using cov_apply_inv [OF wh] by simp
qed

text \<open>
  C19. For every history of writes, whole-level writes and resets of a level with at least one
  texel, the tracker answers "full" only when every texel of the level was written since the last
  reset; and unless it gave up, which takes more than 32 operations, it answers "full" exactly
  then. In particular the staging of a level is never released with a texel unwritten.
\<close>

theorem coverage_exact:
  assumes "0 < unat w" and "0 < unat h"
  shows "let c = foldl (cov_apply w h) coverage_new ops; W = foldl (written_after w h) {} ops
    in (is_full c \<longrightarrow> level_texels w h \<subseteq> W)
       \<and> (sc_state c \<noteq> CovUntracked \<longrightarrow> (is_full c \<longleftrightarrow> level_texels w h \<subseteq> W))
       \<and> (sc_state c = CovUntracked \<longrightarrow> 32 < length ops)"
  using cov_history_inv [OF assms, of ops] unfolding Let_def
  by (simp add: cov_inv_def is_full_def MAX_TRACKED_RECTS_def split: coverage_state.splits)

theorem coverage_exact_witness:
  "\<not> is_full (foldl (cov_apply 2 2) coverage_new
        [CovAdd \<lparr>dr_x = 0, dr_y = 0, dr_w = 1, dr_h = 1\<rparr>, CovAdd \<lparr>dr_x = 1, dr_y = 1, dr_w = 1, dr_h = 1\<rparr>])
   \<and> is_full (foldl (cov_apply 2 2) coverage_new
        [CovAdd \<lparr>dr_x = 0, dr_y = 0, dr_w = 1, dr_h = 2\<rparr>, CovAdd \<lparr>dr_x = 1, dr_y = 0, dr_w = 1, dr_h = 2\<rparr>])"
proof -
  let ?a = "[CovAdd \<lparr>dr_x = 0, dr_y = 0, dr_w = 1, dr_h = 1\<rparr>, CovAdd \<lparr>dr_x = 1, dr_y = 1, dr_w = 1, dr_h = 1\<rparr>]"
  let ?b = "[CovAdd \<lparr>dr_x = 0, dr_y = 0, dr_w = 1, dr_h = 2\<rparr>, CovAdd \<lparr>dr_x = 1, dr_y = 0, dr_w = 1, dr_h = 2\<rparr>]"
  have "(0, 1) \<in> level_texels 2 2" "(0, 1) \<notin> foldl (written_after 2 2) {} ?a"
    by (simp_all add: level_texels_def written_after_def texels_def)
  then have "\<not> is_full (foldl (cov_apply 2 2) coverage_new ?a)"
    using coverage_exact [of 2 2 ?a] by (auto simp: Let_def)
  moreover have "level_texels 2 2 \<subseteq> foldl (written_after 2 2) {} ?b"
    by (auto simp: level_texels_def written_after_def texels_def)
  then have "is_full (foldl (cov_apply 2 2) coverage_new ?b)"
    using coverage_exact [of 2 2 ?b] by (auto simp: Let_def)
  ultimately show ?thesis by simp
qed

end
