(* ===== verification/Frame_Latency.thy ===== *)
theory Frame_Latency
  imports Prelude
begin

text \<open>
  \<^verbatim>\<open>src/windows/core/src/frame_latency.rs\<close> and \<^verbatim>\<open>query_fence.rs\<close>, with the callers in
  \<^verbatim>\<open>src/windows/d3d9/src/device.rs\<close> and \<^verbatim>\<open>device/extended.rs\<close>: how many presented frames
  a device lets the GPU fall behind.

  The ring of 31 submit sequences is proved to be a window on the full history of presents: what
  \<open>record_present\<close> answers is the present the enforced latency counts back, whatever requests
  changed the latency in between. From it follows the promise of the module: when \<^verbatim>\<open>Present\<close>
  returns, at most the enforced number of presented frames is outstanding.

  The sequence of a present is positive and grows with every submission (\<^verbatim>\<open>device.rs\<close> stamps
  frames from a counter that starts at 1), and the two retirement counters only grow.
\<close>

section \<open>Model\<close>

definition DEFAULT_FRAME_LATENCY :: u32 where
  "DEFAULT_FRAME_LATENCY = 3"

definition MAX_FRAME_LATENCY :: u32 where
  "MAX_FRAME_LATENCY = 30"

definition RING :: nat where
  "RING = unat MAX_FRAME_LATENCY + 1"

definition event_completed :: "u64 \<Rightarrow> u64 \<Rightarrow> bool" where
  "event_completed end_seq coherent_seq \<longleftrightarrow> end_seq = 0 \<or> end_seq \<le> coherent_seq"

definition end_in_recording_frame :: "u64 \<Rightarrow> u64 \<Rightarrow> bool" where
  "end_in_recording_frame end_seq current_seq \<longleftrightarrow> end_seq \<noteq> 0 \<and> current_seq \<le> end_seq"

definition event_needs_submit :: "u64 \<Rightarrow> u64 \<Rightarrow> bool" where
  "event_needs_submit end_seq current_seq = end_in_recording_frame end_seq current_seq"

definition enforced_frame_latency :: "u32 option \<Rightarrow> u32 \<Rightarrow> u32" where
  "enforced_frame_latency requested configured =
     (if configured \<noteq> 0 then configured
      else case requested of Some r \<Rightarrow> r | None \<Rightarrow> DEFAULT_FRAME_LATENCY)"

definition frame_finished :: "u64 \<Rightarrow> u64 \<Rightarrow> u64 \<Rightarrow> bool" where
  "frame_finished target draw_retired paced_retired \<longleftrightarrow>
     event_completed target draw_retired \<and> event_completed target paced_retired"

record frame_latency =
  fl_requested :: "u32 option"
  fl_configured :: u32
  fl_presents :: "u64 list"
  fl_newest :: u8
  fl_announced :: bool

definition latency_new :: "u32 \<Rightarrow> frame_latency" where
  "latency_new configured = \<lparr>fl_requested = None, fl_configured = configured,
     fl_presents = replicate RING 0, fl_newest = 0, fl_announced = False\<rparr>"

definition latency_reported :: "frame_latency \<Rightarrow> u32" where
  "latency_reported f = (case fl_requested f of Some r \<Rightarrow> r | None \<Rightarrow> DEFAULT_FRAME_LATENCY)"

definition latency_enforced :: "frame_latency \<Rightarrow> u32" where
  "latency_enforced f = enforced_frame_latency (fl_requested f) (fl_configured f)"

definition latency_set :: "frame_latency \<Rightarrow> u32 \<Rightarrow> bool \<times> frame_latency" where
  "latency_set f requested =
     (\<not> fl_announced f, f\<lparr>fl_requested := Some requested, fl_announced := True\<rparr>)"

text \<open>
  The index \<^verbatim>\<open>newest + RING - back\<close> does not underflow: the enforced latency is at most 30
  (\<open>enforced_le\<close> below), because \<^verbatim>\<open>SetMaximumFrameLatency\<close> and the configuration both refuse
  a larger one.
\<close>

definition record_present :: "frame_latency \<Rightarrow> u64 \<Rightarrow> u64 option \<times> frame_latency" where
  "record_present f seq =
     (let newest = (unat (fl_newest f) + 1) mod RING;
          presents = (fl_presents f)[newest := seq];
          back = unat (latency_enforced f);
          target = presents ! ((newest + RING - back) mod RING)
      in (if target \<noteq> 0 then Some target else None,
          f\<lparr>fl_newest := word_of_nat newest, fl_presents := presents\<rparr>))"

text \<open>What \<^verbatim>\<open>SetMaximumFrameLatency\<close> stores, and the entry point around it.\<close>

definition frame_latency_request :: "u32 \<Rightarrow> u32 option" where
  "frame_latency_request requested =
     (if requested = 0 then Some DEFAULT_FRAME_LATENCY
      else if MAX_FRAME_LATENCY < requested then None else Some requested)"

datatype hresult = D3D_OK | D3DERR_INVALIDCALL

definition set_maximum_frame_latency :: "frame_latency \<Rightarrow> u32 \<Rightarrow> hresult \<times> frame_latency" where
  "set_maximum_frame_latency f latency =
     (case frame_latency_request latency of
        None \<Rightarrow> (D3DERR_INVALIDCALL, f)
      | Some stored \<Rightarrow> (D3D_OK, snd (latency_set f stored)))"

section \<open>The ring is a window on the history\<close>

lemma RING_eq: "RING = 31"
  by (simp add: RING_def MAX_FRAME_LATENCY_def)

definition latency_ok :: "frame_latency \<Rightarrow> bool" where
  "latency_ok f \<longleftrightarrow> unat (fl_configured f) \<le> 30
     \<and> (\<forall>r. fl_requested f = Some r \<longrightarrow> unat r \<le> 30)"

lemma enforced_le: "latency_ok f \<Longrightarrow> unat (latency_enforced f) \<le> 30"
  by (auto simp: latency_ok_def latency_enforced_def enforced_frame_latency_def
      DEFAULT_FRAME_LATENCY_def split: option.splits)

text \<open>\<open>hist\<close> lists the presents so far, the newest first.\<close>

definition ring_of :: "frame_latency \<Rightarrow> u64 list \<Rightarrow> bool" where
  "ring_of f hist \<longleftrightarrow> length (fl_presents f) = 31 \<and> unat (fl_newest f) < 31
     \<and> (\<forall>k<31. fl_presents f ! ((unat (fl_newest f) + 31 - k) mod 31)
          = (if k < length hist then hist ! k else 0))"

lemma ring_of_new: "ring_of (latency_new c) []"
  by (simp add: ring_of_def latency_new_def RING_eq)

lemma ring_slot: "(n::nat) < 31 \<Longrightarrow> k < 31 \<Longrightarrow> (n + 31 - k) mod 31 = (if k \<le> n then n - k else n + 31 - k)"
proof -
  assume *: "n < 31" "k < 31"
  show ?thesis
  proof (cases "k \<le> n")
    case True
    then have "n + 31 - k = (n - k) + 31" by simp
    then show ?thesis using True * by (simp only: mod_add_self2) simp
  qed (use * in simp)
qed

lemma next_slot: "(n::nat) < 31 \<Longrightarrow> Suc n mod 31 = (if n = 30 then 0 else Suc n)"
  by (simp add: mod_Suc)

lemma newest_word: "unat (word_of_nat (Suc n mod 31) :: u8) = Suc n mod 31"
proof -
  have "Suc n mod 31 < 31" by simp
  then have "Suc n mod 31 < 2 ^ 8" by (rule less_trans) simp
  then have "take_bit 8 (Suc n mod 31) = Suc n mod 31" by (rule take_bit_nat_eq_self)
  then show ?thesis by (simp add: unsigned_of_nat)
qed

lemma ring_of_record:
  assumes "ring_of f hist"
  shows "ring_of (snd (record_present f seq)) (seq # hist)"
proof -
  let ?n = "unat (fl_newest f)" and ?m = "Suc (unat (fl_newest f)) mod 31"
  have m: "?m < 31" by simp
  have r: "length (fl_presents f) = 31" "?n < 31"
    and h: "\<And>k. k < 31 \<Longrightarrow> fl_presents f ! ((?n + 31 - k) mod 31)
              = (if k < length hist then hist ! k else 0)"
    using assms by (auto simp: ring_of_def)
  have "(fl_presents f)[?m := seq] ! ((?m + 31 - k) mod 31)
      = (if k < length (seq # hist) then (seq # hist) ! k else 0)" if k: "k < 31" for k
  proof (cases k)
    case 0
    then show ?thesis using r m by simp
  next
    case (Suc j)
    have "(?m + 31 - k) mod 31 \<noteq> ?m" "(?m + 31 - k) mod 31 = (?n + 31 - j) mod 31"
      unfolding ring_slot [OF m k] using r(2) k Suc by (auto simp: next_slot ring_slot)
    then show ?thesis using h [of j] k Suc by simp
  qed
  then show ?thesis
    using r m by (simp add: ring_of_def record_present_def Let_def RING_eq newest_word)
qed

lemma record_present_target:
  assumes "ring_of f hist" "latency_ok f" "0 \<notin> set (seq # hist)"
  shows "fst (record_present f seq) =
    (if unat (latency_enforced f) \<le> length hist
     then Some ((seq # hist) ! unat (latency_enforced f)) else None)"
proof -
  let ?f = "snd (record_present f seq)" and ?b = "unat (latency_enforced f)"
  have b: "?b < 31" using enforced_le [OF assms(2)] by simp
  have t: "fst (record_present f seq) =
      (let t = fl_presents ?f ! ((unat (fl_newest ?f) + 31 - ?b) mod 31)
       in if t \<noteq> 0 then Some t else None)"
    by (simp add: record_present_def Let_def RING_eq newest_word)
  have "fl_presents ?f ! ((unat (fl_newest ?f) + 31 - ?b) mod 31)
      = (if ?b < length (seq # hist) then (seq # hist) ! ?b else 0)"
    using ring_of_record [OF assms(1), of seq] b unfolding ring_of_def by blast
  moreover have "(seq # hist) ! ?b \<noteq> 0" if "?b < length (seq # hist)"
    using that assms(3) by (metis nth_mem)
  ultimately show ?thesis unfolding t by (auto simp: Let_def less_Suc_eq_le)
qed

section \<open>The bound on outstanding frames\<close>

text \<open>
  A device between presents: its latency state, the sequences it presented, and the two
  retirement counters. \<open>present_return\<close> is the tail of \<^verbatim>\<open>Present\<close> that succeeds: the frame
  is submitted under a fresh sequence, the target is recorded, and control comes back with the
  counters at \<open>d\<close> and \<open>p\<close>, the target finished there, either on the first look or because
  \<^verbatim>\<open>await_frame\<close> waited for it. A failed wait returns an error code instead.
\<close>

record lat_sys =
  ls_fl :: frame_latency
  ls_hist :: "u64 list"
  ls_draw :: u64
  ls_paced :: u64

definition present_return :: "lat_sys \<Rightarrow> u64 \<Rightarrow> u64 \<Rightarrow> u64 \<Rightarrow> lat_sys option" where
  "present_return s seq d p =
     (let (target, f) = record_present (ls_fl s) seq
      in if seq \<noteq> 0 \<and> list_all (\<lambda>q. q < seq) (ls_hist s) \<and> ls_draw s \<le> d \<and> ls_paced s \<le> p
            \<and> (case target of None \<Rightarrow> True | Some t \<Rightarrow> frame_finished t d p)
         then Some \<lparr>ls_fl = f, ls_hist = seq # ls_hist s, ls_draw = d, ls_paced = p\<rparr>
         else None)"

inductive lat_step :: "lat_sys \<Rightarrow> lat_sys \<Rightarrow> bool" where
  lat_set: "lat_step s (s\<lparr>ls_fl := snd (set_maximum_frame_latency (ls_fl s) latency)\<rparr>)"
| lat_retire: "ls_draw s \<le> d \<Longrightarrow> ls_paced s \<le> p \<Longrightarrow> lat_step s (s\<lparr>ls_draw := d, ls_paced := p\<rparr>)"
| lat_present: "present_return s seq d p = Some t \<Longrightarrow> lat_step s t"

definition lat_init :: "lat_sys \<Rightarrow> bool" where
  "lat_init s \<longleftrightarrow> (\<exists>c. unat c \<le> 30 \<and> ls_fl s = latency_new c) \<and> ls_hist s = []"

definition lat_inv :: "lat_sys \<Rightarrow> bool" where
  "lat_inv s \<longleftrightarrow> latency_ok (ls_fl s) \<and> ring_of (ls_fl s) (ls_hist s) \<and> 0 \<notin> set (ls_hist s)
     \<and> sorted_wrt (>) (ls_hist s)"

lemma request_le: "frame_latency_request l = Some r \<Longrightarrow> unat r \<le> 30"
  by (auto simp: frame_latency_request_def DEFAULT_FRAME_LATENCY_def MAX_FRAME_LATENCY_def
      not_less word_le_nat_alt split: if_splits)

lemma set_latency_inv:
  "latency_ok f \<Longrightarrow> latency_ok (snd (set_maximum_frame_latency f l))"
  "ring_of f hist \<Longrightarrow> ring_of (snd (set_maximum_frame_latency f l)) hist"
  using request_le [of l]
  by (auto simp: set_maximum_frame_latency_def latency_set_def latency_ok_def ring_of_def
      split: option.splits)

lemma record_present_settings:
  "latency_enforced (snd (record_present f seq)) = latency_enforced f"
  "latency_ok (snd (record_present f seq)) = latency_ok f"
  by (simp_all add: record_present_def Let_def latency_enforced_def latency_ok_def)

lemma present_return_Some:
  assumes "present_return s seq d p = Some t"
  shows "ls_fl t = snd (record_present (ls_fl s) seq)" "ls_hist t = seq # ls_hist s"
    "seq \<noteq> 0" "list_all (\<lambda>q. q < seq) (ls_hist s)"
    "\<And>q. fst (record_present (ls_fl s) seq) = Some q \<Longrightarrow> frame_finished q (ls_draw t) (ls_paced t)"
  using assms by (auto simp: present_return_def Let_def split: prod.splits if_splits option.splits)

lemma present_return_inv:
  assumes "lat_inv s" "present_return s seq d p = Some t"
  shows "lat_inv t"
  using assms(1) present_return_Some(1-4) [OF assms(2)] ring_of_record [of "ls_fl s" "ls_hist s" seq]
  by (auto simp: lat_inv_def record_present_settings list_all_iff)

interpretation latency: step_invariant lat_init lat_step lat_inv
proof
  fix s assume "lat_init s"
  then obtain c where "unat c \<le> 30" "ls_fl s = latency_new c" "ls_hist s = []"
    by (auto simp: lat_init_def)
  moreover from this(1) have "latency_ok (latency_new c)" by (simp add: latency_ok_def latency_new_def)
  ultimately show "lat_inv s" by (simp add: lat_inv_def ring_of_new)
next
  fix s t assume i: "lat_inv s" and st: "lat_step s t"
  from st show "lat_inv t"
  proof cases
    case (lat_present seq d p)
    then show ?thesis using i by (simp add: present_return_inv)
  qed (use i in \<open>simp_all add: lat_inv_def set_latency_inv\<close>)
qed

text \<open>Everything from the target back in a descending history is at most the target.\<close>

lemma finished_mono: "q \<le> t \<Longrightarrow> t \<noteq> 0 \<Longrightarrow> frame_finished t d p \<Longrightarrow> frame_finished q d p"
  by (auto simp: frame_finished_def event_completed_def)

lemma descending_drop:
  "sorted_wrt (>) xs \<Longrightarrow> n < length xs \<Longrightarrow> x \<in> set (drop n xs) \<Longrightarrow> (x::u64) \<le> xs ! n"
proof (induction xs arbitrary: n)
  case (Cons y ys)
  then show ?case by (cases n) auto
qed simp

lemma outstanding_in_prefix:
  assumes "\<forall>x\<in>set (drop n xs). \<not> P x"
  shows "length (filter P xs) \<le> n"
proof -
  have "filter P xs = filter P (take n xs) @ filter P (drop n xs)"
    by (metis append_take_drop_id filter_append)
  also have "filter P (drop n xs) = []" using assms by (simp add: filter_empty_conv)
  finally have "length (filter P xs) = length (filter P (take n xs))" by simp
  also have "\<dots> \<le> length (take n xs)" by (rule length_filter_le)
  finally show ?thesis by simp
qed

text \<open>
  C21. The frame-latency bound. In every run of a device, whatever \<^verbatim>\<open>SetMaximumFrameLatency\<close>
  calls and retirements come between its presents, a \<^verbatim>\<open>Present\<close> that returns leaves at most
  the enforced latency of presented frames unfinished, itself included.
\<close>

theorem present_bounds_outstanding:
  assumes "reach lat_init lat_step s" and "present_return s seq d p = Some t"
  shows "length (filter (\<lambda>q. \<not> frame_finished q (ls_draw t) (ls_paced t)) (ls_hist t))
    \<le> unat (latency_enforced (ls_fl t))"
proof (rule outstanding_in_prefix, intro ballI)
  let ?b = "unat (latency_enforced (ls_fl t))"
  note pr = present_return_Some [OF assms(2)]
  have inv: "lat_inv s" "lat_inv t"
    using latency.reach_inv [OF assms(1)] present_return_inv [OF _ assms(2)] by auto
  fix q assume q: "q \<in> set (drop ?b (ls_hist t))"
  then have b: "?b < length (ls_hist t)" by (cases "?b < length (ls_hist t)") auto
  have "fst (record_present (ls_fl s) seq) = Some (ls_hist t ! ?b)"
    using record_present_target [of "ls_fl s" "ls_hist s" seq] inv(1) pr b
    by (auto simp: lat_inv_def record_present_settings)
  then have "frame_finished (ls_hist t ! ?b) (ls_draw t) (ls_paced t)" by (rule pr(5))
  moreover have "q \<le> ls_hist t ! ?b" "ls_hist t ! ?b \<noteq> 0"
    using descending_drop [OF _ b q] inv(2) nth_mem [OF b] by (auto simp: lat_inv_def)
  ultimately show "\<not> \<not> frame_finished q (ls_draw t) (ls_paced t)" using finished_mono by blast
qed

text \<open>A run with the configured latency 1: the second present waits for the first.\<close>

definition lat_demo0 :: lat_sys where
  "lat_demo0 = \<lparr>ls_fl = latency_new 1, ls_hist = [], ls_draw = 0, ls_paced = 0\<rparr>"

definition lat_demo1 :: lat_sys where
  "lat_demo1 = \<lparr>ls_fl = snd (record_present (latency_new 1) 5), ls_hist = [5], ls_draw = 0, ls_paced = 0\<rparr>"

definition lat_demo2 :: lat_sys where
  "lat_demo2 = \<lparr>ls_fl = snd (record_present (ls_fl lat_demo1) 7), ls_hist = [7, 5],
     ls_draw = 6, ls_paced = 5\<rparr>"

lemma lat_demo_target:
  "fst (record_present (latency_new 1) 5) = None" "fst (record_present (ls_fl lat_demo1) 7) = Some 5"
proof -
  have ok: "latency_ok (latency_new 1)" by (simp add: latency_ok_def latency_new_def)
  have e: "unat (latency_enforced (latency_new 1)) = 1"
    by (simp add: latency_enforced_def enforced_frame_latency_def latency_new_def)
  show "fst (record_present (latency_new 1) 5) = None"
    using record_present_target [OF ring_of_new ok, of 5] by (simp add: e)
  have "ring_of (ls_fl lat_demo1) [5]"
    using ring_of_record [OF ring_of_new, of 1 5] by (simp add: lat_demo1_def)
  then show "fst (record_present (ls_fl lat_demo1) 7) = Some 5"
    using record_present_target [of "ls_fl lat_demo1" "[5]" 7] ok
    by (simp add: lat_demo1_def record_present_settings e)
qed

theorem present_bounds_outstanding_witness:
  "present_return lat_demo1 7 6 5 = Some lat_demo2
   \<and> length (filter (\<lambda>q. \<not> frame_finished q (ls_draw lat_demo2) (ls_paced lat_demo2)) (ls_hist lat_demo2))
      \<le> unat (latency_enforced (ls_fl lat_demo2))"
proof -
  have p1: "present_return lat_demo0 5 0 0 = Some lat_demo1"
    using lat_demo_target(1)
    by (simp add: present_return_def lat_demo0_def lat_demo1_def prod.case_eq_if Let_def)
  have p2: "present_return lat_demo1 7 6 5 = Some lat_demo2"
    using lat_demo_target(2)
    by (simp add: present_return_def lat_demo1_def lat_demo2_def prod.case_eq_if Let_def
        frame_finished_def event_completed_def)
  have "lat_init lat_demo0" unfolding lat_init_def lat_demo0_def by (auto intro!: exI [of _ 1])
  then have "reach lat_init lat_step lat_demo1"
    using reach_step reach_init lat_present [OF p1] by metis
  from present_bounds_outstanding [OF this p2] p2 show ?thesis by simp
qed

end
