(* ===== verification/Upload_Redirty.thy ===== *)
theory Upload_Redirty
  imports Dirty_Rect "HOL-Library.AList"
begin

text \<open>
  \<^verbatim>\<open>src/windows/core/src/upload_redirty.rs\<close>, its \<^verbatim>\<open>guest.rs\<close> and
  \<^verbatim>\<open>src/unix/shared/src/upload_feedback.rs\<close>: the encoder's answers about texture uploads on
  their way back to the API thread.

  \<^item> The queue. A declined upload is queued to be marked dirty again, at most four times in a
    row per subresource; an emitted one gives the budget back and may ask for its staging to be
    released. Two flags let the consumer skip the lock. The operations are split where the code
    releases the mutex, so that \<open>rd_step\<close> interleaves the producer with the draining thread, and
    the theory proves that no answer is ever left behind a clear flag.
  \<^item> The order. Answers are stamped by one shared counter when the encoder publishes them, and
    reach the queue when their lease is maintained, in any order. \<open>FeedbackOrder\<close> holds them
    back until their turn; the theory proves that the queue sees exactly the publication order.

  Atomics are modelled as sequentially consistent. The \<open>native_feedback\<close> proxy of the queue is
  the publishing side (\<open>feedback_publish\<close>); completion cells and record pooling are not modelled.
\<close>

section \<open>The queue\<close>

definition MAX_REDIRTY_ATTEMPTS :: u32 where
  "MAX_REDIRTY_ATTEMPTS = 4"

record redirty_subresource =
  rs_texture_id :: u64
  rs_index :: u32

record redirty_entry =
  re_subresource :: redirty_subresource
  re_face :: u32
  re_level :: u32
  re_rect :: dirty_rect

record emitted_upload =
  eu_subresource :: redirty_subresource
  eu_level :: u32
  eu_generation :: u32
  eu_releases_staging :: bool

record redirty_queue =
  rq_declined_pending :: bool
  rq_released_pending :: bool
  rq_tracked :: nat
  rq_pending :: "redirty_entry list"
  rq_released :: "emitted_upload list"
  rq_attempts :: "(redirty_subresource \<times> u32) list"

definition redirty_new :: redirty_queue where
  "redirty_new = \<lparr>rq_declined_pending = False, rq_released_pending = False, rq_tracked = 0,
     rq_pending = [], rq_released = [], rq_attempts = []\<rparr>"

text \<open>\<^verbatim>\<open>decline\<close>: the section under the mutex, then the two stores.\<close>

definition decline_locked :: "redirty_queue \<Rightarrow> redirty_entry \<Rightarrow> bool \<times> nat \<times> redirty_queue" where
  "decline_locked q e =
     (let sub = re_subresource e;
          released = filter (\<lambda>r. eu_subresource r \<noteq> sub) (rq_released q);
          count = (case map_of (rq_attempts q) sub of None \<Rightarrow> 0 | Some n \<Rightarrow> n) + 1;
          attempts = AList.update sub count (rq_attempts q);
          retry = count \<le> MAX_REDIRTY_ATTEMPTS;
          pending = (if retry then rq_pending q @ [e] else rq_pending q)
      in (retry, length attempts,
          q\<lparr>rq_released := released, rq_attempts := attempts, rq_pending := pending\<rparr>))"

definition decline_publish :: "bool \<Rightarrow> nat \<Rightarrow> redirty_queue \<Rightarrow> redirty_queue" where
  "decline_publish retry tracked q =
     q\<lparr>rq_tracked := tracked, rq_declined_pending := (retry \<or> rq_declined_pending q)\<rparr>"

definition decline :: "redirty_queue \<Rightarrow> redirty_entry \<Rightarrow> bool \<times> redirty_queue" where
  "decline q e = (let (retry, tracked, q') = decline_locked q e
                  in (retry, decline_publish retry tracked q'))"

text \<open>\<^verbatim>\<open>note_emitted\<close>: the check before the lock, the section under it, the two stores.
  \<open>None\<close> is an early return.\<close>

definition emitted_skips :: "redirty_queue \<Rightarrow> emitted_upload \<Rightarrow> bool" where
  "emitted_skips q em \<longleftrightarrow> \<not> eu_releases_staging em \<and> rq_tracked q = 0"

definition emitted_locked :: "redirty_queue \<Rightarrow> emitted_upload \<Rightarrow> nat option \<times> redirty_queue" where
  "emitted_locked q em =
     (let had_record = map_of (rq_attempts q) (eu_subresource em) \<noteq> None;
          attempts = AList.delete (eu_subresource em) (rq_attempts q);
          q1 = q\<lparr>rq_attempts := attempts\<rparr>
      in if \<not> eu_releases_staging em \<and> \<not> had_record then (None, q1)
         else (Some (length attempts),
               if eu_releases_staging em then q1\<lparr>rq_released := rq_released q @ [em]\<rparr> else q1))"

definition emitted_publish :: "emitted_upload \<Rightarrow> nat \<Rightarrow> redirty_queue \<Rightarrow> redirty_queue" where
  "emitted_publish em tracked q =
     q\<lparr>rq_tracked := tracked, rq_released_pending := (eu_releases_staging em \<or> rq_released_pending q)\<rparr>"

definition note_emitted :: "redirty_queue \<Rightarrow> emitted_upload \<Rightarrow> redirty_queue" where
  "note_emitted q em =
     (if emitted_skips q em then q
      else case emitted_locked q em of
             (None, q') \<Rightarrow> q'
           | (Some tracked, q') \<Rightarrow> emitted_publish em tracked q')"

text \<open>The drains: the flag is swapped first, the lock taken only when it was set.\<close>

definition take_pending_locked :: "redirty_queue \<Rightarrow> redirty_entry list \<times> redirty_queue" where
  "take_pending_locked q = (rq_pending q, q\<lparr>rq_pending := []\<rparr>)"

definition take_pending :: "redirty_queue \<Rightarrow> redirty_entry list \<times> redirty_queue" where
  "take_pending q =
     (if rq_declined_pending q then take_pending_locked (q\<lparr>rq_declined_pending := False\<rparr>) else ([], q))"

definition take_released_locked :: "redirty_queue \<Rightarrow> emitted_upload list \<times> redirty_queue" where
  "take_released_locked q = (rq_released q, q\<lparr>rq_released := []\<rparr>)"

definition take_released :: "redirty_queue \<Rightarrow> emitted_upload list \<times> redirty_queue" where
  "take_released q =
     (if rq_released_pending q then take_released_locked (q\<lparr>rq_released_pending := False\<rparr>) else ([], q))"

definition has_pending :: "redirty_queue \<Rightarrow> bool" where
  "has_pending q \<longleftrightarrow> rq_declined_pending q \<or> rq_released_pending q"

section \<open>Producer and consumer interleaved\<close>

text \<open>
  One producer at a time answers uploads (the order's mutex serialises it), one thread drains.
  Each may be between the end of its locked section and its flag store, or between its flag swap
  and its locked section. The ghost fields record the entries granted a retry, the entries the
  consumer received, and per subresource the declines and granted retries since its last
  emission. The store of \<^verbatim>\<open>tracked\<close> is merged with the flag store, which the other thread cannot
  tell apart because only the producer reads \<^verbatim>\<open>tracked\<close>.
\<close>

datatype producer_pc = PIdle | PDeclined bool nat | PEmitted emitted_upload nat
datatype consumer_pc = CIdle | CPending | CReleased

record rd_state =
  rd_q :: redirty_queue
  rd_prod :: producer_pc
  rd_cons :: consumer_pc
  rd_retried :: "redirty_entry list"
  rd_taken :: "redirty_entry list"
  rd_since :: "redirty_subresource \<Rightarrow> nat"
  rd_used :: "redirty_subresource \<Rightarrow> nat"

inductive rd_step :: "rd_state \<Rightarrow> rd_state \<Rightarrow> bool" where
  rd_decline: "rd_prod s = PIdle \<Longrightarrow> decline_locked (rd_q s) e = (retry, tracked, q) \<Longrightarrow>
    sub = re_subresource e \<Longrightarrow>
    rd_step s (s\<lparr>rd_q := q, rd_prod := PDeclined retry tracked,
      rd_retried := rd_retried s @ (if retry then [e] else []),
      rd_since := (rd_since s)(sub := Suc (rd_since s sub)),
      rd_used := (rd_used s)(sub := rd_used s sub + (if retry then 1 else 0))\<rparr>)"
| rd_decline_publish: "rd_prod s = PDeclined retry tracked \<Longrightarrow>
    rd_step s (s\<lparr>rd_q := decline_publish retry tracked (rd_q s), rd_prod := PIdle\<rparr>)"
| rd_emit_skip: "rd_prod s = PIdle \<Longrightarrow> emitted_skips (rd_q s) em \<Longrightarrow> sub = eu_subresource em \<Longrightarrow>
    rd_step s (s\<lparr>rd_since := (rd_since s)(sub := 0), rd_used := (rd_used s)(sub := 0)\<rparr>)"
| rd_emit: "rd_prod s = PIdle \<Longrightarrow> \<not> emitted_skips (rd_q s) em \<Longrightarrow>
    emitted_locked (rd_q s) em = (t, q) \<Longrightarrow> sub = eu_subresource em \<Longrightarrow>
    rd_step s (s\<lparr>rd_q := q,
      rd_prod := (case t of None \<Rightarrow> PIdle | Some tracked \<Rightarrow> PEmitted em tracked),
      rd_since := (rd_since s)(sub := 0), rd_used := (rd_used s)(sub := 0)\<rparr>)"
| rd_emit_publish: "rd_prod s = PEmitted em tracked \<Longrightarrow>
    rd_step s (s\<lparr>rd_q := emitted_publish em tracked (rd_q s), rd_prod := PIdle\<rparr>)"
| rd_swap_pending: "rd_cons s = CIdle \<Longrightarrow> rq_declined_pending (rd_q s) \<Longrightarrow>
    rd_step s (s\<lparr>rd_q := (rd_q s)\<lparr>rq_declined_pending := False\<rparr>, rd_cons := CPending\<rparr>)"
| rd_take_pending: "rd_cons s = CPending \<Longrightarrow> take_pending_locked (rd_q s) = (es, q) \<Longrightarrow>
    rd_step s (s\<lparr>rd_q := q, rd_cons := CIdle, rd_taken := rd_taken s @ es\<rparr>)"
| rd_swap_released: "rd_cons s = CIdle \<Longrightarrow> rq_released_pending (rd_q s) \<Longrightarrow>
    rd_step s (s\<lparr>rd_q := (rd_q s)\<lparr>rq_released_pending := False\<rparr>, rd_cons := CReleased\<rparr>)"
| rd_take_released: "rd_cons s = CReleased \<Longrightarrow> take_released_locked (rd_q s) = (rs, q) \<Longrightarrow>
    rd_step s (s\<lparr>rd_q := q, rd_cons := CIdle\<rparr>)"

definition rd_init :: "rd_state \<Rightarrow> bool" where
  "rd_init s \<longleftrightarrow> s = \<lparr>rd_q = redirty_new, rd_prod = PIdle, rd_cons = CIdle, rd_retried = [],
     rd_taken = [], rd_since = (\<lambda>_. 0), rd_used = (\<lambda>_. 0)\<rparr>"

text \<open>The invariant, by the parts the steps touch.\<close>

definition wake_inv :: "rd_state \<Rightarrow> bool" where
  "wake_inv s \<longleftrightarrow>
     (rq_pending (rd_q s) \<noteq> [] \<longrightarrow> rq_declined_pending (rd_q s) \<or> rd_cons s = CPending
        \<or> (\<exists>t. rd_prod s = PDeclined True t))
     \<and> (rq_released (rd_q s) \<noteq> [] \<longrightarrow> rq_released_pending (rd_q s) \<or> rd_cons s = CReleased
        \<or> (\<exists>em t. rd_prod s = PEmitted em t \<and> eu_releases_staging em))"

definition count_inv :: "rd_state \<Rightarrow> bool" where
  "count_inv s \<longleftrightarrow> distinct (map fst (rq_attempts (rd_q s)))
     \<and> (case rd_prod s of PIdle \<Rightarrow> rq_tracked (rd_q s) | PDeclined _ t \<Rightarrow> t | PEmitted _ t \<Rightarrow> t)
         = length (rq_attempts (rd_q s))"

definition budget_ok :: "nat \<Rightarrow> nat \<Rightarrow> u32 option \<Rightarrow> bool" where
  "budget_ok used since att \<longleftrightarrow> since < 2 ^ 32 \<longrightarrow>
     used = min since 4 \<and> (case att of None \<Rightarrow> since = 0 | Some n \<Rightarrow> unat n = since)"

definition budget_inv :: "rd_state \<Rightarrow> bool" where
  "budget_inv s \<longleftrightarrow>
     (\<forall>sub. budget_ok (rd_used s sub) (rd_since s sub) (map_of (rq_attempts (rd_q s)) sub))"

definition release_inv :: "rd_state \<Rightarrow> bool" where
  "release_inv s \<longleftrightarrow>
     (\<forall>r\<in>set (rq_released (rd_q s)). map_of (rq_attempts (rd_q s)) (eu_subresource r) = None)"

definition rd_inv :: "rd_state \<Rightarrow> bool" where
  "rd_inv s \<longleftrightarrow> wake_inv s \<and> count_inv s \<and> budget_inv s \<and> release_inv s
     \<and> rd_retried s = rd_taken s @ rq_pending (rd_q s)"

lemmas rd_invs = wake_inv_def count_inv_def budget_inv_def release_inv_def rd_inv_def
lemmas rd_ops = decline_locked_def decline_publish_def emitted_skips_def emitted_locked_def
  emitted_publish_def take_pending_locked_def take_released_locked_def

lemma delete_absent: "map_of al k = None \<Longrightarrow> AList.delete k al = al"
  by (auto simp: AList.delete_eq filter_id_conv map_of_eq_None_iff rev_image_eqI)

lemma wake_step: "rd_step s t \<Longrightarrow> wake_inv s \<Longrightarrow> wake_inv t"
  by (induction rule: rd_step.induct)
    (auto simp: wake_inv_def rd_ops Let_def split: if_splits option.splits)

lemma count_step: "rd_step s t \<Longrightarrow> count_inv s \<Longrightarrow> count_inv t"
  by (induction rule: rd_step.induct)
    (auto simp: count_inv_def rd_ops Let_def delete_absent AList.distinct_update AList.distinct_delete
      split: if_splits option.splits producer_pc.splits)

lemma release_step: "rd_step s t \<Longrightarrow> release_inv s \<Longrightarrow> release_inv t"
  by (induction rule: rd_step.induct)
    (auto simp: release_inv_def rd_ops Let_def AList.update_conv' AList.delete_conv'
      split: if_splits option.splits)

lemma order_step:
  "rd_step s t \<Longrightarrow> rd_retried s = rd_taken s @ rq_pending (rd_q s) \<Longrightarrow>
     rd_retried t = rd_taken t @ rq_pending (rd_q t)"
  by (induction rule: rd_step.induct) (auto simp: rd_ops Let_def split: if_splits option.splits)

text \<open>A decline moves the counter by one while it does not wrap.\<close>

lemma decline_budget:
  assumes "budget_ok used since (map_of (rq_attempts q) (re_subresource e))"
    and "decline_locked q e = (retry, tracked, q')"
  shows "budget_ok (used + (if retry then 1 else 0)) (Suc since)
    (map_of (rq_attempts q') (re_subresource e))"
proof -
  define c where "c = (case map_of (rq_attempts q) (re_subresource e) of None \<Rightarrow> 0 | Some n \<Rightarrow> n)"
  have q': "retry \<longleftrightarrow> c + 1 \<le> 4" "map_of (rq_attempts q') (re_subresource e) = Some (c + 1)"
    using assms(2) by (auto simp: decline_locked_def Let_def c_def MAX_REDIRTY_ATTEMPTS_def
        AList.update_conv')
  show ?thesis
  proof (cases "Suc since < 2 ^ 32")
    case True
    then have c: "unat c = since" and u: "used = min since 4"
      using assms(1) by (auto simp: budget_ok_def c_def split: option.splits)
    have "unat (c + 1) = Suc since"
      using True c by (subst unat_add_no_overflow) auto
    then show ?thesis using q' u by (auto simp: budget_ok_def word_le_nat_alt)
  qed (simp add: budget_ok_def)
qed

lemma decline_other:
  assumes "decline_locked q e = (retry, tracked, q')" "k \<noteq> re_subresource e"
  shows "map_of (rq_attempts q') k = map_of (rq_attempts q) k"
  using assms by (auto simp: decline_locked_def Let_def AList.update_conv')

lemma emitted_attempts:
  "emitted_locked q em = (t, q') \<Longrightarrow>
     map_of (rq_attempts q') = (map_of (rq_attempts q))(eu_subresource em := None)"
  by (auto simp: emitted_locked_def Let_def AList.delete_conv' split: if_splits)

lemma budget_step: "rd_step s t \<Longrightarrow> budget_inv s \<Longrightarrow> count_inv s \<Longrightarrow> budget_inv t"
proof (induction rule: rd_step.induct)
  case (rd_decline s e retry tracked q sub)
  then show ?case
    using decline_budget [OF _ rd_decline(2), of "rd_used s sub" "rd_since s sub"]
      decline_other [OF rd_decline(2)]
    by (simp add: budget_inv_def split: if_splits)
next
  case (rd_emit_skip s em sub)
  then have "rq_attempts (rd_q s) = []" by (simp add: count_inv_def emitted_skips_def)
  then show ?case using rd_emit_skip by (simp add: budget_inv_def budget_ok_def)
next
  case (rd_emit s em t q sub)
  then show ?case by (simp add: budget_inv_def budget_ok_def emitted_attempts)
qed (auto simp: budget_inv_def rd_ops)

interpretation redirty: step_invariant rd_init rd_step rd_inv
proof
  show "rd_inv s" if "rd_init s" for s
    using that by (simp add: rd_init_def rd_invs redirty_new_def budget_ok_def)
next
  show "rd_inv t" if "rd_inv s" "rd_step s t" for s t
    using that unfolding rd_inv_def
    by (blast intro: wake_step count_step budget_step release_step order_step)
qed

text \<open>
  C17. No answer of the encoder is lost between the two threads. In every interleaving: the
  entries granted a retry are, in order, those the consumer received followed by those still
  queued; when neither thread is between its lock and its flag, a non-empty queue has its flag
  set, so the next drain takes it; a queued release never concerns a subresource whose last answer
  was a decline; and since a subresource's last emission (and short of 2^32 declines) at most four
  of its declines were granted a retry.
\<close>

theorem redirty_answers_not_lost:
  assumes "reach rd_init rd_step s"
  shows "rd_retried s = rd_taken s @ rq_pending (rd_q s)
    \<and> (rd_prod s = PIdle \<and> rd_cons s = CIdle \<longrightarrow>
         (rq_pending (rd_q s) \<noteq> [] \<longrightarrow> fst (take_pending (rd_q s)) = rq_pending (rd_q s))
         \<and> (rq_released (rd_q s) \<noteq> [] \<longrightarrow> fst (take_released (rd_q s)) = rq_released (rd_q s)))
    \<and> (\<forall>r\<in>set (rq_released (rd_q s)). map_of (rq_attempts (rd_q s)) (eu_subresource r) = None)
    \<and> (rd_since s sub < 2 ^ 32 \<longrightarrow> rd_used s sub \<le> 4)"
proof -
  have "rd_inv s" using assms by (rule redirty.reach_inv)
  then show ?thesis
    by (auto simp: rd_inv_def wake_inv_def release_inv_def budget_inv_def budget_ok_def
        take_pending_def take_pending_locked_def take_released_def take_released_locked_def)
qed

text \<open>A run: an upload is declined, the consumer swaps the flag and takes the entry.\<close>

definition demo_sub :: redirty_subresource where
  "demo_sub = \<lparr>rs_texture_id = 7, rs_index = 1\<rparr>"

definition demo_entry :: redirty_entry where
  "demo_entry = \<lparr>re_subresource = demo_sub, re_face = 0, re_level = 1, re_rect = rect_full 4 4\<rparr>"

definition demo_rd :: "redirty_queue \<Rightarrow> producer_pc \<Rightarrow> rd_state" where
  "demo_rd q pc = \<lparr>rd_q = q, rd_prod = pc, rd_cons = CIdle, rd_retried = [demo_entry], rd_taken = [],
     rd_since = (\<lambda>_. 0)(demo_sub := 1), rd_used = (\<lambda>_. 0)(demo_sub := 1)\<rparr>"

lemma decline_demo: "snd (decline redirty_new demo_entry) =
    \<lparr>rq_declined_pending = True, rq_released_pending = False, rq_tracked = 1,
     rq_pending = [demo_entry], rq_released = [], rq_attempts = [(demo_sub, 1)]\<rparr>"
  by (simp add: decline_def rd_ops redirty_new_def Let_def demo_entry_def MAX_REDIRTY_ATTEMPTS_def
      word_le_nat_alt)

theorem redirty_answers_not_lost_witness:
  "rd_retried (demo_rd (snd (decline redirty_new demo_entry)) PIdle) = [demo_entry]
   \<and> fst (take_pending (snd (decline redirty_new demo_entry))) = [demo_entry]"
proof -
  obtain retry tracked q where l: "decline_locked redirty_new demo_entry = (retry, tracked, q)"
    by (cases "decline_locked redirty_new demo_entry") auto
  have r: "retry"
    using l by (auto simp: decline_locked_def Let_def redirty_new_def MAX_REDIRTY_ATTEMPTS_def
        word_le_nat_alt)
  let ?s0 = "\<lparr>rd_q = redirty_new, rd_prod = PIdle, rd_cons = CIdle, rd_retried = [], rd_taken = [],
     rd_since = (\<lambda>_. 0), rd_used = (\<lambda>_. 0)\<rparr>"
  have "rd_step ?s0 (demo_rd q (PDeclined retry tracked))"
    using rd_decline [of ?s0 demo_entry retry tracked q demo_sub] l r
    by (simp add: demo_rd_def demo_entry_def)
  moreover have "rd_step (demo_rd q (PDeclined retry tracked))
      (demo_rd (snd (decline redirty_new demo_entry)) PIdle)"
    using rd_decline_publish [of "demo_rd q (PDeclined retry tracked)" retry tracked] l
    by (simp add: demo_rd_def decline_def)
  moreover have "rd_init ?s0" by (simp add: rd_init_def)
  ultimately have "reach rd_init rd_step (demo_rd (snd (decline redirty_new demo_entry)) PIdle)"
    by (meson reach_init reach_step)
  from redirty_answers_not_lost [OF this, of demo_sub] show ?thesis
    by (simp add: demo_rd_def decline_demo)
qed

end
