(* ===== verification/Feedback_Order.thy ===== *)
theory Feedback_Order
  imports Upload_Redirty
begin

text \<open>
  \<^verbatim>\<open>src/unix/shared/src/upload_feedback.rs\<close> and
  \<^verbatim>\<open>src/windows/core/src/upload_redirty/guest.rs\<close>: the order in which the encoder's answers
  reach the queue of \<open>Upload_Redirty\<close>.

  The native side stamps each answer with the next value of one shared counter and leaves it in
  the upload's feedback cell. The PE side maintains the leases in any order it likes and hands
  each answer, with its stamp, to \<open>FeedbackOrder\<close>, which delivers them in stamp order. The state
  machine \<open>fb_step\<close> interleaves publications, maintenance of any lease, and drains of the queue;
  the theorem is that the queue has seen exactly a prefix of the publication log, and the whole of
  it once every published cell was maintained.

  Exhausting the 64-bit counter panics in the code; here it is the result \<open>None\<close>.
\<close>

section \<open>Feedback cells\<close>

datatype upload_outcome = OutDeclined | OutEmitted

record upload_feedback =
  uf_emitted :: u64
  uf_declined :: u64

definition feedback_new :: upload_feedback where
  "feedback_new = \<lparr>uf_emitted = 0, uf_declined = 0\<rparr>"

text \<open>A slot that already holds a stamp is left alone (the code warns and returns).\<close>

definition feedback_publish :: "upload_outcome \<Rightarrow> u64 \<Rightarrow> upload_feedback \<Rightarrow> (u64 \<times> upload_feedback) option" where
  "feedback_publish outcome counter c =
     (if (case outcome of OutEmitted \<Rightarrow> uf_emitted c | OutDeclined \<Rightarrow> uf_declined c) \<noteq> 0
      then Some (counter, c)
      else case checked_add counter 1 of
             None \<Rightarrow> None
           | Some v \<Rightarrow> Some (v, case outcome of OutEmitted \<Rightarrow> c\<lparr>uf_emitted := v\<rparr>
                                 | OutDeclined \<Rightarrow> c\<lparr>uf_declined := v\<rparr>))"

text \<open>The last native reference publishes a decline for an upload nobody answered.\<close>

definition feedback_drop :: "u64 \<Rightarrow> upload_feedback \<Rightarrow> (u64 \<times> upload_feedback) option" where
  "feedback_drop counter c =
     (if uf_emitted c = 0 \<and> uf_declined c = 0 then feedback_publish OutDeclined counter c
      else Some (counter, c))"

section \<open>Delivery in stamp order\<close>

datatype feedback_event = FEmitted emitted_upload | FDeclined redirty_entry

definition apply_event :: "redirty_queue \<Rightarrow> feedback_event \<Rightarrow> redirty_queue" where
  "apply_event q ev = (case ev of FEmitted v \<Rightarrow> note_emitted q v | FDeclined v \<Rightarrow> snd (decline q v))"

record feedback_order =
  fo_next :: u64
  fo_pending :: "(u64 \<times> feedback_event) list"

definition order_new :: feedback_order where
  "order_new = \<lparr>fo_next = 1, fo_pending = []\<rparr>"

text \<open>The loop of \<^verbatim>\<open>FeedbackOrder::apply\<close>; the first component lists the events it hands to the
  queue. It ends because every round removes an event from the pending map.\<close>

function order_drain ::
  "u64 \<Rightarrow> (u64 \<times> feedback_event) list \<Rightarrow> (feedback_event list \<times> u64 \<times> (u64 \<times> feedback_event) list) option"
where
  "order_drain nxt pending =
     (case map_of pending nxt of
        None \<Rightarrow> Some ([], nxt, pending)
      | Some ev \<Rightarrow>
          (case checked_add nxt 1 of
             None \<Rightarrow> None
           | Some nxt' \<Rightarrow>
               (case order_drain nxt' (AList.delete nxt pending) of
                  None \<Rightarrow> None
                | Some (evs, n, p) \<Rightarrow> Some (ev # evs, n, p))))"
  by pat_completeness auto
termination
proof (relation "measure (\<lambda>(_, p). length p)")
  fix nxt :: u64 and pending :: "(u64 \<times> feedback_event) list" and ev nxt'
  assume "map_of pending nxt = Some ev"
  then have "length (filter (\<lambda>p. nxt \<noteq> fst p) pending) < length pending"
    by (intro length_filter_less [of "(nxt, ev)"]) (auto dest: map_of_SomeD)
  then show "((nxt', AList.delete nxt pending), nxt, pending) \<in> measure (\<lambda>(_, p). length p)"
    by (simp add: AList.delete_eq case_prod_unfold)
qed simp

declare order_drain.simps [simp del]

definition order_apply ::
  "feedback_order \<Rightarrow> u64 \<Rightarrow> feedback_event \<Rightarrow> (feedback_order \<times> feedback_event list) option" where
  "order_apply ord seq ev =
     (case order_drain (fo_next ord) (AList.update seq ev (fo_pending ord)) of
        None \<Rightarrow> None
      | Some (evs, n, p) \<Rightarrow> Some (\<lparr>fo_next = n, fo_pending = p\<rparr>, evs))"

record redirty_lease =
  rl_declined :: "redirty_entry option"
  rl_emitted :: "emitted_upload option"
  rl_feedback :: upload_feedback

definition lease_new :: "redirty_entry \<Rightarrow> emitted_upload \<Rightarrow> redirty_lease" where
  "lease_new d e = \<lparr>rl_declined = Some d, rl_emitted = Some e, rl_feedback = feedback_new\<rparr>"

text \<open>\<^verbatim>\<open>GuestRedirtyLease::maintain\<close>: each answer is taken out of the lease once.\<close>

definition maintain_emitted ::
  "redirty_lease \<Rightarrow> feedback_order \<Rightarrow> (redirty_lease \<times> feedback_order \<times> feedback_event list) option" where
  "maintain_emitted l ord =
     (case rl_emitted l of
        Some v \<Rightarrow>
          if uf_emitted (rl_feedback l) \<noteq> 0 then
            (case order_apply ord (uf_emitted (rl_feedback l)) (FEmitted v) of
               None \<Rightarrow> None
             | Some (ord', evs) \<Rightarrow> Some (l\<lparr>rl_emitted := None\<rparr>, ord', evs))
          else Some (l, ord, [])
      | None \<Rightarrow> Some (l, ord, []))"

definition maintain_declined ::
  "redirty_lease \<Rightarrow> feedback_order \<Rightarrow> (redirty_lease \<times> feedback_order \<times> feedback_event list) option" where
  "maintain_declined l ord =
     (case rl_declined l of
        Some v \<Rightarrow>
          if uf_declined (rl_feedback l) \<noteq> 0 then
            (case order_apply ord (uf_declined (rl_feedback l)) (FDeclined v) of
               None \<Rightarrow> None
             | Some (ord', evs) \<Rightarrow> Some (l\<lparr>rl_declined := None\<rparr>, ord', evs))
          else Some (l, ord, [])
      | None \<Rightarrow> Some (l, ord, []))"

definition lease_maintain ::
  "redirty_lease \<Rightarrow> feedback_order \<Rightarrow> (redirty_lease \<times> feedback_order \<times> feedback_event list) option" where
  "lease_maintain l ord =
     (case maintain_emitted l ord of
        None \<Rightarrow> None
      | Some (l1, ord1, evs1) \<Rightarrow>
          (case maintain_declined l1 ord1 of
             None \<Rightarrow> None
           | Some (l2, ord2, evs2) \<Rightarrow> Some (l2, ord2, evs1 @ evs2)))"

section \<open>The system\<close>

text \<open>
  \<open>fb_log\<close> is a ghost: the answers in the order they were published. \<open>fb_trace\<close> is a ghost too:
  what was done to the queue, deliveries and drains.
\<close>

datatype queue_op = QEvent feedback_event | QTakePending | QTakeReleased

definition queue_op_apply :: "redirty_queue \<Rightarrow> queue_op \<Rightarrow> redirty_queue" where
  "queue_op_apply q oper = (case oper of QEvent ev \<Rightarrow> apply_event q ev
     | QTakePending \<Rightarrow> snd (take_pending q) | QTakeReleased \<Rightarrow> snd (take_released q))"

fun events_of :: "queue_op list \<Rightarrow> feedback_event list" where
  "events_of [] = []"
| "events_of (QEvent ev # ops) = ev # events_of ops"
| "events_of (QTakePending # ops) = events_of ops"
| "events_of (QTakeReleased # ops) = events_of ops"

lemma events_of_append [simp]: "events_of (xs @ ys) = events_of xs @ events_of ys"
  by (induction xs rule: events_of.induct) auto

lemma events_of_QEvent [simp]: "events_of (map QEvent evs) = evs"
  by (induction evs) auto

record fb_state =
  fb_counter :: u64
  fb_leases :: "redirty_lease list"
  fb_order :: feedback_order
  fb_queue :: redirty_queue
  fb_log :: "feedback_event list"
  fb_trace :: "queue_op list"

definition outcome_event :: "redirty_lease \<Rightarrow> upload_outcome \<Rightarrow> feedback_event list" where
  "outcome_event l outcome = (case outcome of
      OutEmitted \<Rightarrow> (case rl_emitted l of Some v \<Rightarrow> if uf_emitted (rl_feedback l) = 0 then [FEmitted v] else []
                       | None \<Rightarrow> [])
    | OutDeclined \<Rightarrow> (case rl_declined l of Some v \<Rightarrow> if uf_declined (rl_feedback l) = 0 then [FDeclined v] else []
                       | None \<Rightarrow> []))"

inductive fb_step :: "fb_state \<Rightarrow> fb_state \<Rightarrow> bool" where
  fb_schedule: "fb_step s (s\<lparr>fb_leases := fb_leases s @ [lease_new d e]\<rparr>)"
| fb_publish: "i < length (fb_leases s) \<Longrightarrow> l = fb_leases s ! i \<Longrightarrow>
    feedback_publish outcome (fb_counter s) (rl_feedback l) = Some (counter, c) \<Longrightarrow>
    fb_step s (s\<lparr>fb_counter := counter, fb_leases := (fb_leases s)[i := l\<lparr>rl_feedback := c\<rparr>],
                 fb_log := fb_log s @ outcome_event l outcome\<rparr>)"
| fb_drop: "i < length (fb_leases s) \<Longrightarrow> l = fb_leases s ! i \<Longrightarrow>
    feedback_drop (fb_counter s) (rl_feedback l) = Some (counter, c) \<Longrightarrow>
    fb_step s (s\<lparr>fb_counter := counter, fb_leases := (fb_leases s)[i := l\<lparr>rl_feedback := c\<rparr>],
                 fb_log := fb_log s @ (if uf_emitted (rl_feedback l) = 0 then outcome_event l OutDeclined else [])\<rparr>)"
| fb_maintain: "i < length (fb_leases s) \<Longrightarrow>
    lease_maintain (fb_leases s ! i) (fb_order s) = Some (l, ord, evs) \<Longrightarrow>
    fb_step s (s\<lparr>fb_leases := (fb_leases s)[i := l], fb_order := ord,
                 fb_queue := foldl apply_event (fb_queue s) evs,
                 fb_trace := fb_trace s @ map QEvent evs\<rparr>)"
| fb_take: "oper \<in> {QTakePending, QTakeReleased} \<Longrightarrow>
    fb_step s (s\<lparr>fb_queue := queue_op_apply (fb_queue s) oper, fb_trace := fb_trace s @ [oper]\<rparr>)"

definition fb_init :: "fb_state \<Rightarrow> bool" where
  "fb_init s \<longleftrightarrow> s = \<lparr>fb_counter = 0, fb_leases = [], fb_order = order_new, fb_queue = redirty_new,
     fb_log = [], fb_trace = []\<rparr>"

section \<open>What is still on its way\<close>

text \<open>Published answers whose lease has not handed them over yet.\<close>

definition lease_slots :: "redirty_lease \<Rightarrow> (u64 \<times> feedback_event) list" where
  "lease_slots l =
     (case rl_emitted l of Some v \<Rightarrow>
        if uf_emitted (rl_feedback l) \<noteq> 0 then [(uf_emitted (rl_feedback l), FEmitted v)] else []
      | None \<Rightarrow> []) @
     (case rl_declined l of Some v \<Rightarrow>
        if uf_declined (rl_feedback l) \<noteq> 0 then [(uf_declined (rl_feedback l), FDeclined v)] else []
      | None \<Rightarrow> [])"

definition open_slots :: "redirty_lease list \<Rightarrow> (u64 \<times> feedback_event) list" where
  "open_slots ls = concat (map lease_slots ls)"

text \<open>The log from position \<open>k\<close> on, each entry with its stamp.\<close>

definition rest_of :: "nat \<Rightarrow> feedback_event list \<Rightarrow> (nat \<times> feedback_event) set" where
  "rest_of k lg = {(Suc j, lg ! j) | j. k \<le> j \<and> j < length lg}"

definition stamped :: "(u64 \<times> feedback_event) list \<Rightarrow> (nat \<times> feedback_event) set" where
  "stamped xs = (\<lambda>(w, e). (unat w, e)) ` set xs"

text \<open>\<open>in_flight k lg os p\<close>: the open slots and the held-back events are, without repetition, the
  log from \<open>k\<close> on.\<close>

definition in_flight ::
  "nat \<Rightarrow> feedback_event list \<Rightarrow> (u64 \<times> feedback_event) list \<Rightarrow> (u64 \<times> feedback_event) list \<Rightarrow> bool" where
  "in_flight k lg os p \<longleftrightarrow> distinct (map fst (os @ p)) \<and> stamped (os @ p) = rest_of k lg"

lemma stamped_append: "stamped (xs @ ys) = stamped xs \<union> stamped ys"
  by (auto simp: stamped_def)

lemma rest_of_Suc: "rest_of k lg - {(Suc k, lg ! k)} = rest_of (Suc k) lg"
  by (auto simp: rest_of_def) (metis Suc_leI le_neq_implies_less)

lemma rest_of_snoc: "k \<le> length lg \<Longrightarrow> rest_of k (lg @ [e]) = insert (Suc (length lg), e) (rest_of k lg)"
  by (fastforce simp: rest_of_def nth_append less_Suc_eq)

lemma in_flight_perm:
  assumes "in_flight k lg os p" "distinct (map fst (os' @ p'))" "set (os' @ p') = set (os @ p)"
  shows "in_flight k lg os' p'"
  using assms by (simp add: in_flight_def stamped_def image_Un [symmetric] del: image_Un)

lemma in_flight_lookup:
  assumes "in_flight k lg os p" "map_of p w = Some ev"
  shows "k < unat w" "unat w \<le> length lg" "ev = lg ! (unat w - 1)"
proof -
  have "(w, ev) \<in> set (os @ p)" using assms(2) by (simp add: map_of_SomeD)
  then have "(unat w, ev) \<in> stamped (os @ p)" by (force simp: stamped_def)
  then have "(unat w, ev) \<in> rest_of k lg" using assms(1) by (simp add: in_flight_def)
  then show "k < unat w" "unat w \<le> length lg" "ev = lg ! (unat w - 1)"
    by (auto simp: rest_of_def)
qed

lemma stamped_delete:
  assumes "distinct (map fst (os @ p))" "map_of p w = Some ev"
  shows "stamped (os @ AList.delete w p) = stamped (os @ p) - {(unat w, ev)}"
proof -
  have p: "(w, ev) \<in> set p" using assms(2) by (rule map_of_SomeD)
  have "set (os @ AList.delete w p) = set (os @ p) - {(w, ev)}"
    using assms(1) p by (auto simp: AList.delete_eq eq_key_imp_eq_value rev_image_eqI)
  moreover have "inj_on (\<lambda>(w, e). (unat w, e)) (set (os @ p))"
    by (auto simp: inj_on_def intro: word_unat_eq_iff [THEN iffD2])
  ultimately show ?thesis
    using p by (simp add: stamped_def inj_on_image_set_diff [where C = "set (os @ p)"])
qed

text \<open>The loop delivers a stretch of the log and stops at the first answer that has not arrived.\<close>

lemma order_drain_delivers:
  assumes "in_flight k lg os p" "unat nxt = Suc k" "k \<le> length lg" "length lg < 2 ^ 64 - 1"
  shows "\<exists>k' nxt' p'. order_drain nxt p = Some (drop k (take k' lg), nxt', p')
    \<and> k \<le> k' \<and> k' \<le> length lg \<and> unat nxt' = Suc k' \<and> in_flight k' lg os p' \<and> map_of p' nxt' = None"
  using assms
proof (induction nxt p arbitrary: k rule: order_drain.induct)
  case (1 nxt p)
  show ?case
  proof (cases "map_of p nxt")
    case None
    then show ?thesis using 1 by (intro exI [of _ k] exI) (auto simp: order_drain.simps)
  next
    case (Some ev)
    note lk = in_flight_lookup [OF "1.prems"(1) Some]
    have k: "k < length lg" "ev = lg ! k" using lk "1.prems"(2) by auto
    have add: "checked_add nxt 1 = Some (nxt + 1)" and nx: "unat (nxt + 1) = Suc (Suc k)"
      using "1.prems"(2,4) k(1) by (simp_all add: checked_add_def unat_add_no_overflow)
    have fl: "in_flight (Suc k) lg os (AList.delete nxt p)"
    proof -
      have d: "distinct (map fst (os @ p))" "stamped (os @ p) = rest_of k lg"
        using "1.prems"(1) by (auto simp: in_flight_def)
      have "stamped (os @ AList.delete nxt p) = rest_of (Suc k) lg"
        unfolding stamped_delete [OF d(1) Some] d(2) using "1.prems"(2) k by (simp add: rest_of_Suc)
      moreover have "fst ` set (AList.delete nxt p) \<subseteq> fst ` set p" by (auto simp: AList.delete_eq)
      ultimately show ?thesis
        using d(1) AList.distinct_delete [of p nxt] by (auto simp: in_flight_def)
    qed
    from "1.IH" [OF Some add fl nx] k "1.prems"(4)
    obtain k' nxt' p' where r: "order_drain (nxt + 1) (AList.delete nxt p)
        = Some (drop (Suc k) (take k' lg), nxt', p')"
      "Suc k \<le> k'" "k' \<le> length lg" "unat nxt' = Suc k'" "in_flight k' lg os p'" "map_of p' nxt' = None"
      by auto
    have "drop k (take k' lg) = ev # drop (Suc k) (take k' lg)"
      using r(2,3) k by (simp add: Cons_nth_drop_Suc [symmetric] nth_take)
    then show ?thesis
      using r by (intro exI [of _ k'] exI [of _ nxt'] exI [of _ p'])
        (simp add: order_drain.simps [of nxt] Some add)
  qed
qed

definition order_ok ::
  "nat \<Rightarrow> feedback_event list \<Rightarrow> (u64 \<times> feedback_event) list \<Rightarrow> feedback_order \<Rightarrow> bool" where
  "order_ok k lg os ord \<longleftrightarrow> k \<le> length lg \<and> unat (fo_next ord) = Suc k
     \<and> in_flight k lg os (fo_pending ord) \<and> map_of (fo_pending ord) (fo_next ord) = None"

lemma update_absent: "k \<notin> fst ` set al \<Longrightarrow> AList.update k v al = al @ [(k, v)]"
  by (induction al) auto

lemma order_apply_delivers:
  assumes "order_ok k lg (A @ (w, ev) # B) ord" "length lg < 2 ^ 64 - 1"
  shows "\<exists>k' ord'. order_apply ord w ev = Some (ord', drop k (take k' lg))
    \<and> k \<le> k' \<and> order_ok k' lg (A @ B) ord'"
proof -
  let ?p = "fo_pending ord"
  have f: "in_flight k lg (A @ (w, ev) # B) ?p" "unat (fo_next ord) = Suc k" "k \<le> length lg"
    using assms(1) by (auto simp: order_ok_def)
  then have d: "distinct (map fst ((A @ (w, ev) # B) @ ?p))" by (simp add: in_flight_def)
  then have u: "AList.update w ev ?p = ?p @ [(w, ev)]" by (intro update_absent) auto
  have "in_flight k lg (A @ B) (?p @ [(w, ev)])"
    by (rule in_flight_perm [OF f(1)]) (use d in auto)
  from order_drain_delivers [OF this f(2,3) assms(2)] show ?thesis
    by (auto simp: order_apply_def u order_ok_def)
qed

definition lease_fresh :: "redirty_lease \<Rightarrow> bool" where
  "lease_fresh l \<longleftrightarrow> (uf_emitted (rl_feedback l) = 0 \<longrightarrow> rl_emitted l \<noteq> None)
     \<and> (uf_declined (rl_feedback l) = 0 \<longrightarrow> rl_declined l \<noteq> None)"

lemma drop_take_append:
  "k \<le> k' \<Longrightarrow> k' \<le> k'' \<Longrightarrow> drop k (take k' xs) @ drop k' (take k'' xs) = drop k (take k'' xs)"
proof -
  assume "k \<le> k'" "k' \<le> k''"
  then have "take k'' xs = take k' xs @ drop k' (take k'' xs)"
    by (metis append_take_drop_id min_absorb1 take_take)
  with \<open>k \<le> k'\<close> show ?thesis
    by (cases "k' \<le> length xs") (metis drop_append diff_is_0_eq drop0 length_take min_absorb2, simp)
qed

lemma maintain_emitted_delivers:
  assumes "order_ok k lg (A @ lease_slots l @ B) ord" "length lg < 2 ^ 64 - 1" "lease_fresh l"
  shows "\<exists>k' l' ord'. maintain_emitted l ord = Some (l', ord', drop k (take k' lg)) \<and> k \<le> k'
    \<and> order_ok k' lg (A @ lease_slots l' @ B) ord' \<and> lease_fresh l'
    \<and> rl_feedback l' = rl_feedback l \<and> (rl_emitted l' = None \<or> uf_emitted (rl_feedback l) = 0)"
proof (cases "\<exists>v. rl_emitted l = Some v \<and> uf_emitted (rl_feedback l) \<noteq> 0")
  case True
  then obtain v where v: "rl_emitted l = Some v" "uf_emitted (rl_feedback l) \<noteq> 0" by blast
  let ?l = "l\<lparr>rl_emitted := None\<rparr>"
  have s: "A @ lease_slots l @ B = A @ (uf_emitted (rl_feedback l), FEmitted v) # (lease_slots ?l @ B)"
    using v by (simp add: lease_slots_def split: option.split)
  from order_apply_delivers [OF assms(1) [unfolded s] assms(2)] v assms(3) show ?thesis
    by (fastforce simp: maintain_emitted_def lease_fresh_def)
next
  case False
  then have "maintain_emitted l ord = Some (l, ord, drop k (take k lg))"
    by (auto simp: maintain_emitted_def split: option.splits)
  then show ?thesis using False assms by (intro exI [of _ k] exI [of _ l]) auto
qed

lemma maintain_declined_delivers:
  assumes "order_ok k lg (A @ lease_slots l @ B) ord" "length lg < 2 ^ 64 - 1" "lease_fresh l"
    and "rl_emitted l = None \<or> uf_emitted (rl_feedback l) = 0"
  shows "\<exists>k' l' ord'. maintain_declined l ord = Some (l', ord', drop k (take k' lg)) \<and> k \<le> k'
    \<and> order_ok k' lg (A @ B) ord' \<and> lease_fresh l' \<and> lease_slots l' = []"
proof (cases "\<exists>v. rl_declined l = Some v \<and> uf_declined (rl_feedback l) \<noteq> 0")
  case True
  then obtain v where v: "rl_declined l = Some v" "uf_declined (rl_feedback l) \<noteq> 0" by blast
  let ?l = "l\<lparr>rl_declined := None\<rparr>"
  have s: "A @ lease_slots l @ B = A @ (uf_declined (rl_feedback l), FDeclined v) # B"
    "lease_slots ?l = []"
    using v assms(4) by (auto simp: lease_slots_def split: option.splits)
  from order_apply_delivers [OF assms(1) [unfolded s(1)] assms(2)] v s(2) assms(3) show ?thesis
    by (fastforce simp: maintain_declined_def lease_fresh_def)
next
  case False
  then have "maintain_declined l ord = Some (l, ord, drop k (take k lg))" "lease_slots l = []"
    using assms(4) by (auto simp: maintain_declined_def lease_slots_def split: option.splits)
  then show ?thesis using assms by (intro exI [of _ k] exI [of _ l]) auto
qed

lemma lease_maintain_delivers:
  assumes "order_ok k lg (A @ lease_slots l @ B) ord" "length lg < 2 ^ 64 - 1" "lease_fresh l"
  shows "\<exists>k' l' ord'. lease_maintain l ord = Some (l', ord', drop k (take k' lg)) \<and> k \<le> k'
    \<and> order_ok k' lg (A @ B) ord' \<and> lease_fresh l' \<and> lease_slots l' = []"
proof -
  from maintain_emitted_delivers [OF assms] obtain k1 l1 ord1 where
    1: "maintain_emitted l ord = Some (l1, ord1, drop k (take k1 lg))" "k \<le> k1"
      "order_ok k1 lg (A @ lease_slots l1 @ B) ord1" "lease_fresh l1"
      "rl_emitted l1 = None \<or> uf_emitted (rl_feedback l1) = 0" by auto
  from maintain_declined_delivers [OF 1(3) assms(2) 1(4,5)] obtain k2 l2 ord2 where
    2: "maintain_declined l1 ord1 = Some (l2, ord2, drop k1 (take k2 lg))" "k1 \<le> k2"
      "order_ok k2 lg (A @ B) ord2" "lease_fresh l2" "lease_slots l2 = []" by auto
  show ?thesis
    using 1 2 drop_take_append [OF 1(2) 2(2), of lg]
    by (intro exI [of _ k2] exI [of _ l2] exI [of _ ord2]) (simp add: lease_maintain_def)
qed

text \<open>A publication stamps its answer with the length of the extended log.\<close>

lemma publish_slots:
  assumes "feedback_publish outcome counter (rl_feedback l) = Some (counter', c)" "lease_fresh l"
    and "unat counter = length lg"
  shows "(counter' = counter \<and> c = rl_feedback l \<and> outcome_event l outcome = []) \<or>
    (\<exists>ev E D. outcome_event l outcome = [ev] \<and> unat counter' = Suc (length lg)
      \<and> lease_slots l = E @ D \<and> lease_slots (l\<lparr>rl_feedback := c\<rparr>) = E @ (counter', ev) # D
      \<and> lease_fresh (l\<lparr>rl_feedback := c\<rparr>))"
proof (cases "(case outcome of OutEmitted \<Rightarrow> uf_emitted (rl_feedback l)
    | OutDeclined \<Rightarrow> uf_declined (rl_feedback l)) = 0")
  case False
  then show ?thesis
    using assms(1) by (cases outcome) (auto simp: feedback_publish_def outcome_event_def split: option.splits)
next
  case True
  then have c': "unat counter' = Suc (length lg)" "counter' \<noteq> 0"
    using assms(1,3) by (auto simp: feedback_publish_def checked_add_Some split: option.splits)
  show ?thesis
  proof (cases outcome)
    case OutDeclined
    then obtain v where "rl_declined l = Some v" using True assms(2) by (auto simp: lease_fresh_def)
    then show ?thesis
      using True OutDeclined assms(1,2) c'
      by (intro disjI2 exI [of _ "FDeclined v"] exI [of _ "lease_slots l"] exI [of _ "[]"])
        (auto simp: feedback_publish_def outcome_event_def lease_slots_def lease_fresh_def
          split: option.splits)
  next
    case OutEmitted
    then obtain v where "rl_emitted l = Some v" using True assms(2) by (auto simp: lease_fresh_def)
    then show ?thesis
      using True OutEmitted assms(1,2) c'
      by (intro disjI2 exI [of _ "FEmitted v"] exI [of _ "[]"] exI [of _ "lease_slots l"])
        (auto simp: feedback_publish_def outcome_event_def lease_slots_def lease_fresh_def
          split: option.splits)
  qed
qed

lemma order_ok_publish:
  assumes "order_ok k lg (A @ B) ord" "unat w = Suc (length lg)"
  shows "order_ok k (lg @ [ev]) (A @ (w, ev) # B) ord"
proof -
  have f: "distinct (map fst ((A @ B) @ fo_pending ord))" "stamped ((A @ B) @ fo_pending ord) = rest_of k lg"
    and k: "k \<le> length lg"
    using assms(1) by (auto simp: order_ok_def in_flight_def)
  have "w \<notin> fst ` set ((A @ B) @ fo_pending ord)"
  proof
    assume "w \<in> fst ` set ((A @ B) @ fo_pending ord)"
    then obtain e where "(unat w, e) \<in> stamped ((A @ B) @ fo_pending ord)"
      by (force simp: stamped_def)
    then show False using assms(2) unfolding f(2) by (auto simp: rest_of_def)
  qed
  moreover have "stamped ((A @ (w, ev) # B) @ fo_pending ord)
      = insert (unat w, ev) (stamped ((A @ B) @ fo_pending ord))"
    by (auto simp: stamped_def)
  ultimately show ?thesis
    using assms f k by (auto simp: order_ok_def in_flight_def rest_of_snoc)
qed

section \<open>The invariant of the system\<close>

definition fb_ok :: "nat \<Rightarrow> fb_state \<Rightarrow> bool" where
  "fb_ok k s \<longleftrightarrow> unat (fb_counter s) = length (fb_log s)
     \<and> order_ok k (fb_log s) (open_slots (fb_leases s)) (fb_order s)
     \<and> list_all lease_fresh (fb_leases s)
     \<and> fb_queue s = foldl queue_op_apply redirty_new (fb_trace s)
     \<and> events_of (fb_trace s) = take k (fb_log s)"

definition fb_inv :: "fb_state \<Rightarrow> bool" where
  "fb_inv s \<longleftrightarrow> (length (fb_log s) < 2 ^ 64 - 1 \<longrightarrow> (\<exists>k. fb_ok k s))"

lemma open_slots_split:
  assumes "i < length ls"
  shows "open_slots ls = open_slots (take i ls) @ lease_slots (ls ! i) @ open_slots (drop (Suc i) ls)"
    and "open_slots (ls[i := l]) = open_slots (take i ls) @ lease_slots l @ open_slots (drop (Suc i) ls)"
proof -
  show "open_slots (ls[i := l]) = open_slots (take i ls) @ lease_slots l @ open_slots (drop (Suc i) ls)"
    for l
    using assms by (simp add: upd_conv_take_nth_drop open_slots_def)
  from this [of "ls ! i"]
  show "open_slots ls = open_slots (take i ls) @ lease_slots (ls ! i) @ open_slots (drop (Suc i) ls)"
    by simp
qed

lemma fresh_update: "list_all P ls \<Longrightarrow> P l \<Longrightarrow> list_all P (ls[i := l])"
  by (auto simp: list_all_iff dest: set_update_subset_insert [THEN subsetD])

lemma fb_publish_ok:
  assumes "fb_ok k s" "i < length (fb_leases s)" "l = fb_leases s ! i"
    and "feedback_publish outcome (fb_counter s) (rl_feedback l) = Some (counter, c)"
  shows "fb_ok k (s\<lparr>fb_counter := counter, fb_leases := (fb_leases s)[i := l\<lparr>rl_feedback := c\<rparr>],
    fb_log := fb_log s @ outcome_event l outcome\<rparr>)"
proof -
  have fr: "lease_fresh l" using assms by (auto simp: fb_ok_def list_all_length)
  have cnt: "unat (fb_counter s) = length (fb_log s)" using assms(1) by (simp add: fb_ok_def)
  from publish_slots [OF assms(4) fr cnt] show ?thesis
  proof
    assume "counter = fb_counter s \<and> c = rl_feedback l \<and> outcome_event l outcome = []"
    then show ?thesis using assms(1,3) by (simp add: fb_ok_def)
  next
    assume "\<exists>ev E D. outcome_event l outcome = [ev] \<and> unat counter = Suc (length (fb_log s))
      \<and> lease_slots l = E @ D \<and> lease_slots (l\<lparr>rl_feedback := c\<rparr>) = E @ (counter, ev) # D
      \<and> lease_fresh (l\<lparr>rl_feedback := c\<rparr>)"
    then obtain ev E D where e: "outcome_event l outcome = [ev]" "unat counter = Suc (length (fb_log s))"
      "lease_slots l = E @ D" "lease_slots (l\<lparr>rl_feedback := c\<rparr>) = E @ (counter, ev) # D"
      "lease_fresh (l\<lparr>rl_feedback := c\<rparr>)" by blast
    let ?A = "open_slots (take i (fb_leases s)) @ E" and ?B = "D @ open_slots (drop (Suc i) (fb_leases s))"
    have o: "order_ok k (fb_log s) (?A @ ?B) (fb_order s)"
      using assms(1,3) e(3) open_slots_split(1) [OF assms(2)] by (simp add: fb_ok_def)
    have "k \<le> length (fb_log s)" using o by (simp add: order_ok_def)
    then show ?thesis
      using assms(1) e order_ok_publish [OF o e(2), of ev]
      by (simp add: fb_ok_def open_slots_split(2) [OF assms(2)] fresh_update)
  qed
qed

lemma fb_maintain_ok:
  assumes "fb_ok k s" "i < length (fb_leases s)" "length (fb_log s) < 2 ^ 64 - 1"
    and m: "lease_maintain (fb_leases s ! i) (fb_order s) = Some (l, ord, evs)"
  shows "\<exists>k'. fb_ok k' (s\<lparr>fb_leases := (fb_leases s)[i := l], fb_order := ord,
    fb_queue := foldl apply_event (fb_queue s) evs, fb_trace := fb_trace s @ map QEvent evs\<rparr>)"
proof -
  let ?A = "open_slots (take i (fb_leases s))" and ?B = "open_slots (drop (Suc i) (fb_leases s))"
  have o: "order_ok k (fb_log s) (?A @ lease_slots (fb_leases s ! i) @ ?B) (fb_order s)"
    and fr: "lease_fresh (fb_leases s ! i)"
    using assms(1,2) open_slots_split(1) [OF assms(2)] by (auto simp: fb_ok_def list_all_length)
  from lease_maintain_delivers [OF o assms(3) fr] m obtain k' where
    k': "evs = drop k (take k' (fb_log s))" "k \<le> k'" "order_ok k' (fb_log s) (?A @ ?B) ord"
      "lease_fresh l" "lease_slots l = []" by auto
  have q: "foldl queue_op_apply (fb_queue s) (map QEvent evs) = foldl apply_event (fb_queue s) evs"
    by (simp add: foldl_map queue_op_apply_def)
  have "events_of (fb_trace s @ map QEvent evs) = take k' (fb_log s)"
    using assms(1) k'(1,2) drop_take_append [of 0 k k' "fb_log s"] by (simp add: fb_ok_def)
  then show ?thesis
    using assms(1) k' q
    by (intro exI [of _ k']) (simp add: fb_ok_def open_slots_split(2) [OF assms(2)] fresh_update)
qed

lemma fb_ok_step:
  assumes "fb_step s t" "length (fb_log t) < 2 ^ 64 - 1" "fb_ok k s"
  shows "\<exists>k'. fb_ok k' t"
  using assms
proof (induction rule: fb_step.induct)
  case (fb_schedule s d e)
  then show ?case
    by (intro exI [of _ k])
      (simp add: fb_ok_def open_slots_def lease_slots_def lease_new_def feedback_new_def lease_fresh_def)
next
  case (fb_publish i s l outcome counter c)
  then show ?case using fb_publish_ok by blast
next
  case (fb_drop i s l counter c)
  show ?case
  proof (cases "uf_emitted (rl_feedback l) = 0 \<and> uf_declined (rl_feedback l) = 0")
    case True
    then show ?thesis
      using fb_drop fb_publish_ok [of k s i l OutDeclined counter c] by (auto simp: feedback_drop_def)
  next
    case False
    then have "(if uf_emitted (rl_feedback l) = 0 then outcome_event l OutDeclined else []) = []"
      by (auto simp: outcome_event_def split: option.splits)
    then show ?thesis using False fb_drop by (intro exI [of _ k]) (auto simp: feedback_drop_def fb_ok_def)
  qed
next
  case (fb_maintain i s l ord evs)
  then show ?case using fb_maintain_ok by simp
next
  case (fb_take oper s)
  then show ?case by (intro exI [of _ k]) (auto simp: fb_ok_def)
qed

lemma fb_log_mono: "fb_step s t \<Longrightarrow> length (fb_log s) \<le> length (fb_log t)"
  by (induction rule: fb_step.induct) auto

interpretation feedback: step_invariant fb_init fb_step fb_inv
proof
  show "fb_inv s" if "fb_init s" for s
    using that
    by (auto simp: fb_init_def fb_inv_def fb_ok_def order_ok_def order_new_def in_flight_def
        open_slots_def stamped_def rest_of_def intro!: exI [of _ 0])
next
  show "fb_inv t" if "fb_inv s" "fb_step s t" for s t
    using that fb_log_mono [OF that(2)] fb_ok_step [OF that(2)] unfolding fb_inv_def
    by (meson le_less_trans)
qed

text \<open>
  C4. The answers reach the queue in the order they were published, whatever order the leases are
  maintained in and wherever the drains fall between: in every reachable state (with fewer than
  \<open>2 ^ 64 - 1\<close> answers published) the queue is the result of delivering a prefix of the publication
  log, interleaved with the drains that happened; and once no lease holds a published answer that
  was not handed over, it is the whole log. No answer is lost, duplicated or reordered.
\<close>

theorem answers_in_publication_order:
  assumes "reach fb_init fb_step s" and "length (fb_log s) < 2 ^ 64 - 1"
  shows "fb_queue s = foldl queue_op_apply redirty_new (fb_trace s)
    \<and> (\<exists>k \<le> length (fb_log s). events_of (fb_trace s) = take k (fb_log s))
    \<and> (open_slots (fb_leases s) = [] \<longrightarrow> events_of (fb_trace s) = fb_log s)"
proof -
  obtain k where k: "fb_ok k s" using feedback.reach_inv [OF assms(1)] assms(2) by (auto simp: fb_inv_def)
  then have o: "order_ok k (fb_log s) (open_slots (fb_leases s)) (fb_order s)"
    and e: "events_of (fb_trace s) = take k (fb_log s)" by (auto simp: fb_ok_def)
  have "k = length (fb_log s)" if os: "open_slots (fb_leases s) = []"
  proof (rule ccontr)
    assume "k \<noteq> length (fb_log s)"
    then have "(Suc k, fb_log s ! k) \<in> rest_of k (fb_log s)" using o by (auto simp: order_ok_def rest_of_def)
    then have "(Suc k, fb_log s ! k) \<in> stamped (fo_pending (fb_order s))"
      using o os by (simp add: order_ok_def in_flight_def)
    then obtain w where "(w, fb_log s ! k) \<in> set (fo_pending (fb_order s))" "unat w = Suc k"
      by (auto simp: stamped_def)
    moreover from this(2) o have "w = fo_next (fb_order s)"
      by (auto simp: order_ok_def intro: word_unat_eq_iff [THEN iffD2])
    ultimately show False using o by (auto simp: order_ok_def map_of_eq_None_iff rev_image_eqI)
  qed
  then show ?thesis using k o e by (auto simp: fb_ok_def order_ok_def)
qed

text \<open>
  A run: two uploads are scheduled, the second is answered before the first, and the leases are
  maintained first to last. The decline published second is held back until the emission before
  it was delivered.
\<close>

definition demo_emitted :: emitted_upload where
  "demo_emitted = \<lparr>eu_subresource = demo_sub, eu_level = 1, eu_generation = 0, eu_releases_staging = True\<rparr>"

definition demo_fb :: "u64 \<Rightarrow> redirty_lease list \<Rightarrow> feedback_order \<Rightarrow> feedback_event list
    \<Rightarrow> feedback_event list \<Rightarrow> fb_state" where
  "demo_fb n ls ord lg evs = \<lparr>fb_counter = n, fb_leases = ls, fb_order = ord,
     fb_queue = foldl apply_event redirty_new evs, fb_log = lg, fb_trace = map QEvent evs\<rparr>"

definition demo_lease :: "bool \<Rightarrow> bool \<Rightarrow> u64 \<Rightarrow> u64 \<Rightarrow> redirty_lease" where
  "demo_lease d e fe fd = \<lparr>rl_declined = (if d then Some demo_entry else None),
     rl_emitted = (if e then Some demo_emitted else None), rl_feedback = \<lparr>uf_emitted = fe, uf_declined = fd\<rparr>\<rparr>"

lemma demo_fb_reach:
  defines "D \<equiv> FDeclined demo_entry" and "E \<equiv> FEmitted demo_emitted"
  shows "reach fb_init fb_step (demo_fb 2 [demo_lease False True 0 2, demo_lease True False 1 0]
    \<lparr>fo_next = 3, fo_pending = []\<rparr> [E, D] [E, D])"
proof -
  note defs = demo_fb_def demo_lease_def order_new_def
  have r0: "reach fb_init fb_step (demo_fb 0 [] order_new [] [])"
    by (rule reach_init) (simp add: fb_init_def demo_fb_def)
  have "fb_step (demo_fb 0 [] order_new [] []) (demo_fb 0 [demo_lease True True 0 0] order_new [] [])"
    using fb_schedule [of "demo_fb 0 [] order_new [] []" demo_entry demo_emitted]
    by (simp add: defs lease_new_def feedback_new_def)
  note r1 = reach_step [OF r0 this]
  have "fb_step (demo_fb 0 [demo_lease True True 0 0] order_new [] [])
      (demo_fb 0 [demo_lease True True 0 0, demo_lease True True 0 0] order_new [] [])"
    using fb_schedule [of "demo_fb 0 [demo_lease True True 0 0] order_new [] []" demo_entry demo_emitted]
    by (simp add: defs lease_new_def feedback_new_def)
  note r2 = reach_step [OF r1 this]
  have "fb_step (demo_fb 0 [demo_lease True True 0 0, demo_lease True True 0 0] order_new [] [])
      (demo_fb 1 [demo_lease True True 0 0, demo_lease True True 1 0] order_new [E] [])"
    using fb_publish [of 1 "demo_fb 0 [demo_lease True True 0 0, demo_lease True True 0 0] order_new [] []"
        "demo_lease True True 0 0" OutEmitted 1 "\<lparr>uf_emitted = 1, uf_declined = 0\<rparr>"]
    by (simp add: defs feedback_publish_def checked_add_def outcome_event_def E_def)
  note r3 = reach_step [OF r2 this]
  have "fb_step (demo_fb 1 [demo_lease True True 0 0, demo_lease True True 1 0] order_new [E] [])
      (demo_fb 2 [demo_lease True True 0 2, demo_lease True True 1 0] order_new [E, D] [])"
    using fb_publish [of 0 "demo_fb 1 [demo_lease True True 0 0, demo_lease True True 1 0] order_new [E] []"
        "demo_lease True True 0 0" OutDeclined 2 "\<lparr>uf_emitted = 0, uf_declined = 2\<rparr>"]
    by (simp add: defs feedback_publish_def checked_add_def outcome_event_def D_def)
  note r4 = reach_step [OF r3 this]
  have "fb_step (demo_fb 2 [demo_lease True True 0 2, demo_lease True True 1 0] order_new [E, D] [])
      (demo_fb 2 [demo_lease False True 0 2, demo_lease True True 1 0]
        \<lparr>fo_next = 1, fo_pending = [(2, D)]\<rparr> [E, D] [])"
    using fb_maintain [of 0 "demo_fb 2 [demo_lease True True 0 2, demo_lease True True 1 0] order_new [E, D] []"
        "demo_lease False True 0 2" "\<lparr>fo_next = 1, fo_pending = [(2, D)]\<rparr>" "[]"]
    by (simp add: defs lease_maintain_def maintain_emitted_def maintain_declined_def order_apply_def
        order_drain.simps D_def)
  note r5 = reach_step [OF r4 this]
  have "fb_step (demo_fb 2 [demo_lease False True 0 2, demo_lease True True 1 0]
        \<lparr>fo_next = 1, fo_pending = [(2, D)]\<rparr> [E, D] [])
      (demo_fb 2 [demo_lease False True 0 2, demo_lease True False 1 0]
        \<lparr>fo_next = 3, fo_pending = []\<rparr> [E, D] [E, D])"
    using fb_maintain [of 1 "demo_fb 2 [demo_lease False True 0 2, demo_lease True True 1 0]
        \<lparr>fo_next = 1, fo_pending = [(2, D)]\<rparr> [E, D] []"
        "demo_lease True False 1 0" "\<lparr>fo_next = 3, fo_pending = []\<rparr>" "[E, D]"]
    by (simp add: defs lease_maintain_def maintain_emitted_def maintain_declined_def order_apply_def
        order_drain.simps checked_add_def E_def)
  note r6 = reach_step [OF r5 this]
  then show ?thesis .
qed

theorem answers_in_publication_order_witness:
  "events_of (fb_trace (demo_fb 2 [demo_lease False True 0 2, demo_lease True False 1 0]
      \<lparr>fo_next = 3, fo_pending = []\<rparr> [FEmitted demo_emitted, FDeclined demo_entry]
      [FEmitted demo_emitted, FDeclined demo_entry]))
   = [FEmitted demo_emitted, FDeclined demo_entry]"
  using answers_in_publication_order [OF demo_fb_reach]
  by (simp add: demo_fb_def demo_lease_def open_slots_def lease_slots_def)

end
