(* ===== verification/Texture_Staging.thy ===== *)
theory Texture_Staging
  imports Dirty_Rect D3D9_Types
begin

text \<open>
  \<^verbatim>\<open>src/windows/core/src/texture_staging.rs\<close>: what a CPU write of a texture level does with the
  level's staging pages, which textures may release them, and how a partial upload's box is
  copied out of them.

  The lock decision is proved equivalent to its table; the snapshot layout is proved to lie inside
  the staging and to copy exactly the blocks the box touches. \<open>usize\<close> offsets are natural
  numbers: the theorems give each as a position inside an allocation, so it cannot wrap.
\<close>

section \<open>Model\<close>

datatype tex_preserve = TexPreserveNone | TexPreserveCpu
datatype lock_action = TexWriteInPlace | FreshBox tex_preserve

record mip_shape =
  ms_w :: u32
  ms_h :: u32
  ms_block_w :: u32
  ms_block_h :: u32

definition is_in_flight :: "u64 \<Rightarrow> u64 \<Rightarrow> bool" where
  "is_in_flight slot_last_submit_seq coherent_seq \<longleftrightarrow> coherent_seq < slot_last_submit_seq"

definition is_whole_mip :: "dirty_rect option \<Rightarrow> mip_shape \<Rightarrow> bool" where
  "is_whole_mip rect shape = (case rect of
      None \<Rightarrow> True
    | Some r \<Rightarrow> dr_x r = 0 \<and> dr_y r = 0 \<and> ms_w shape \<le> dr_w r \<and> ms_h shape \<le> dr_h r)"

definition honoured_lock_flags :: "u32 \<Rightarrow> u32 \<Rightarrow> dirty_rect option \<Rightarrow> mip_shape \<Rightarrow> u32" where
  "honoured_lock_flags flags pool rect shape =
     (let flags = flags AND NOT D3DLOCK_NOOVERWRITE
      in if pool = D3DPOOL_DEFAULT \<and> is_whole_mip rect shape then flags
         else flags AND NOT D3DLOCK_DISCARD)"

definition rect_block_aligned :: "dirty_rect \<Rightarrow> mip_shape \<Rightarrow> bool" where
  "rect_block_aligned r shape \<longleftrightarrow>
     is_multiple_of (dr_x r) (ms_block_w shape) \<and> is_multiple_of (dr_y r) (ms_block_h shape)
     \<and> (is_multiple_of (dr_w r) (ms_block_w shape) \<or> dr_x r + dr_w r = ms_w shape)
     \<and> (is_multiple_of (dr_h r) (ms_block_h shape) \<or> dr_y r + dr_h r = ms_h shape)"

text \<open>\<open>StagingWrite\<close>, a set of bits in a byte.\<close>

type_synonym staging_write = u8

definition SW_MAPPED :: staging_write where "SW_MAPPED = 1"
definition SW_HAS_READERS :: staging_write where "SW_HAS_READERS = 2"
definition SW_SAME_FRAME :: staging_write where "SW_SAME_FRAME = 4"
definition SW_OBSERVED :: staging_write where "SW_OBSERVED = 8"
definition SW_ALWAYS_RENAME :: staging_write where "SW_ALWAYS_RENAME = 16"
definition SW_WHOLE_LEVEL :: staging_write where "SW_WHOLE_LEVEL = 32"

definition sw_contains :: "staging_write \<Rightarrow> staging_write \<Rightarrow> bool" where
  "sw_contains w m \<longleftrightarrow> w AND m = m"

definition decide_staging_write :: "staging_write \<Rightarrow> lock_action" where
  "decide_staging_write w =
     (if sw_contains w SW_MAPPED \<or> \<not> sw_contains w SW_HAS_READERS then TexWriteInPlace
      else let seen = has_flag w (SW_OBSERVED OR SW_ALWAYS_RENAME)
           in if sw_contains w SW_SAME_FRAME \<and> \<not> seen then TexWriteInPlace
              else FreshBox (if sw_contains w SW_WHOLE_LEVEL then TexPreserveNone else TexPreserveCpu))"

definition decide_lock_action ::
  "staging_write \<Rightarrow> u32 \<Rightarrow> u32 \<Rightarrow> dirty_rect option \<Rightarrow> mip_shape \<Rightarrow> lock_action" where
  "decide_lock_action w flags pool rect shape =
     (let flags = honoured_lock_flags flags pool rect shape
      in if has_flag flags D3DLOCK_READONLY then TexWriteInPlace
         else if \<not> sw_contains w SW_HAS_READERS then TexWriteInPlace
         else if has_flag flags D3DLOCK_DISCARD then FreshBox TexPreserveNone
         else if is_whole_mip rect shape then FreshBox TexPreserveCpu
         else if (case rect of Some r \<Rightarrow> \<not> rect_block_aligned r shape | None \<Rightarrow> False)
           then FreshBox TexPreserveCpu
         else decide_staging_write (w AND NOT (SW_MAPPED OR SW_WHOLE_LEVEL)))"

definition released_level_lock_needs_readback :: "u32 \<Rightarrow> bool" where
  "released_level_lock_needs_readback flags \<longleftrightarrow> \<not> has_flag flags D3DLOCK_DISCARD"

definition released_level_write_needs_readback :: "bool \<Rightarrow> bool \<Rightarrow> bool" where
  "released_level_write_needs_readback whole_level was_uploaded \<longleftrightarrow> \<not> whole_level \<and> was_uploaded"

definition TF_DEPTH_FORMAT :: u8 where "TF_DEPTH_FORMAT = 4"
definition TF_CUBE :: u8 where "TF_CUBE = 8"
definition TF_OFFSCREEN_PLAIN :: u8 where "TF_OFFSCREEN_PLAIN = 16"
definition TF_VOLUME_TEXTURE :: u8 where "TF_VOLUME_TEXTURE = 32"

definition staging_droppable_class :: "u32 \<Rightarrow> u32 \<Rightarrow> u8 \<Rightarrow> u32 \<Rightarrow> bool" where
  "staging_droppable_class pool usage flags depth \<longleftrightarrow>
     pool = D3DPOOL_DEFAULT
     \<and> \<not> has_flag usage (D3DUSAGE_DYNAMIC OR D3DUSAGE_RENDERTARGET OR D3DUSAGE_DEPTHSTENCIL)
     \<and> \<not> has_flag flags (TF_CUBE OR TF_OFFSCREEN_PLAIN OR TF_DEPTH_FORMAT OR TF_VOLUME_TEXTURE)
     \<and> depth \<le> 1"

definition staging_lazy_class :: "u32 \<Rightarrow> u32 \<Rightarrow> u8 \<Rightarrow> u32 \<Rightarrow> bool" where
  "staging_lazy_class pool usage flags depth \<longleftrightarrow>
     pool = D3DPOOL_DEFAULT \<and> has_flag usage D3DUSAGE_RENDERTARGET
     \<and> \<not> has_flag usage (D3DUSAGE_DYNAMIC OR D3DUSAGE_DEPTHSTENCIL)
     \<and> \<not> has_flag flags (TF_CUBE OR TF_OFFSCREEN_PLAIN OR TF_DEPTH_FORMAT OR TF_VOLUME_TEXTURE)
     \<and> depth \<le> 1"

definition texture_lock_offset :: "dirty_rect option \<Rightarrow> u32 \<Rightarrow> u32 \<Rightarrow> u32 \<Rightarrow> u32 \<Rightarrow> nat" where
  "texture_lock_offset rect pitch block_w block_h block_bytes = (case rect of
      Some r \<Rightarrow> unat (dr_y r div block_h) * unat pitch + unat (dr_x r div block_w) * unat block_bytes
    | None \<Rightarrow> 0)"

record snapshot_layout =
  sl_src_offset :: nat
  sl_row_bytes :: u32
  sl_rows :: u32
  sl_pitch :: u32
  sl_len :: u32

definition fits_source :: "snapshot_layout \<Rightarrow> u32 \<Rightarrow> nat \<Rightarrow> bool" where
  "fits_source l src_pitch src_len =
     (let last_row = ucast (sat_sub (sl_rows l) 1) * ucast src_pitch;
          start = word_of_nat (sl_src_offset l) :: u64
      in case checked_add start last_row of
           None \<Rightarrow> False
         | Some v \<Rightarrow> (case checked_add v (ucast (sl_row_bytes l)) of
               None \<Rightarrow> False
             | Some end' \<Rightarrow> unat end' \<le> src_len))"

definition SNAPSHOT_MAX_BYTES :: nat where
  "SNAPSHOT_MAX_BYTES = 256 * 1024"

datatype snapshot_plan = WholeLevel | Declined | Copy snapshot_layout

text \<open>\<^verbatim>\<open>u32::try_from\<close> on a 64-bit value.\<close>

definition u32_try_from :: "u64 \<Rightarrow> u32 option" where
  "u32_try_from v = (if unat v < 2 ^ 32 then Some (ucast v) else None)"

definition snapshot_box :: "dirty_rect \<Rightarrow> mip_shape \<Rightarrow> u32 \<Rightarrow> u32 \<Rightarrow> u32 \<Rightarrow> snapshot_plan" where
  "snapshot_box rect shape block_bytes src_pitch pitch_align =
     (if is_whole_mip (Some rect) shape then WholeLevel
      else if dr_w rect = 0 \<or> dr_h rect = 0 \<or> pitch_align = 0 \<or> \<not> rect_block_aligned rect shape
      then Declined
      else
        (let block_x = dr_x rect div ms_block_w shape;
             block_y = dr_y rect div ms_block_h shape;
             cols = ucast (div_ceil (dr_x rect + dr_w rect) (ms_block_w shape) - block_x) :: u64;
             rows = ucast (div_ceil (dr_y rect + dr_h rect) (ms_block_h shape) - block_y) :: u64;
             row_bytes = cols * ucast block_bytes;
             pitch = next_multiple_of row_bytes (ucast pitch_align);
             len = pitch * rows
         in if row_bytes = 0 \<or> word_of_nat SNAPSHOT_MAX_BYTES < len then Declined
            else (case (u32_try_from row_bytes, u32_try_from rows, u32_try_from pitch, u32_try_from len) of
                (Some row_bytes, Some rows, Some pitch, Some len) \<Rightarrow>
                  Copy \<lparr>sl_src_offset = texture_lock_offset (Some rect) src_pitch
                          (ms_block_w shape) (ms_block_h shape) block_bytes,
                        sl_row_bytes = row_bytes, sl_rows = rows, sl_pitch = pitch, sl_len = len\<rparr>
              | _ \<Rightarrow> Declined)))"

text \<open>
  \<^verbatim>\<open>copy_rows\<close>: the flag, and the destination afterwards. The checked arithmetic of the bounds
  fails only for a position past every allocation, which the comparison refuses as well.
\<close>

definition copy_row :: "u8 list \<Rightarrow> nat \<Rightarrow> nat \<Rightarrow> nat \<Rightarrow> u8 list \<Rightarrow> u8 list" where
  "copy_row src from to row_bytes dst =
     take to dst @ take row_bytes (drop from src) @ drop (to + row_bytes) dst"

definition copy_rows ::
  "u8 list \<Rightarrow> nat \<Rightarrow> nat \<Rightarrow> u8 list \<Rightarrow> nat \<Rightarrow> nat \<Rightarrow> nat \<Rightarrow> bool \<times> u8 list" where
  "copy_rows src src_offset src_pitch dst dst_pitch row_bytes rows =
     (if rows = 0 then (True, dst)
      else let last_row = rows - 1;
               src_end = last_row * src_pitch + src_offset + row_bytes;
               dst_end = last_row * dst_pitch + row_bytes
           in if length src < src_end \<or> length dst < dst_end then (False, dst)
              else (True, foldl (\<lambda>d row. copy_row src (src_offset + row * src_pitch) (row * dst_pitch) row_bytes d)
                            dst [0..<rows]))"

section \<open>The lock decision\<close>

lemmas lock_bits = D3DLOCK_NOOVERWRITE_def D3DLOCK_DISCARD_def D3DLOCK_READONLY_def
lemmas staging_bits = SW_MAPPED_def SW_HAS_READERS_def SW_SAME_FRAME_def SW_OBSERVED_def
  SW_ALWAYS_RENAME_def SW_WHOLE_LEVEL_def

text \<open>A one-bit set is contained exactly when it meets.\<close>

lemma sw_contains_bit:
  assumes "n < 8"
  shows "sw_contains w (2 ^ n) \<longleftrightarrow> has_flag w (2 ^ n)"
proof -
  have "w AND 2 ^ n = (if bit w n then 2 ^ n else 0)"
    by (auto intro!: bit_eqI simp: bit_and_iff bit_exp_iff)
  moreover have "(2 ^ n :: u8) \<noteq> 0" using assms by (simp add: exp_eq_zero_iff)
  ultimately show ?thesis by (simp add: sw_contains_def has_flag_def)
qed

lemma sw_contains_flag:
  "sw_contains w SW_MAPPED = has_flag w SW_MAPPED"
  "sw_contains w SW_HAS_READERS = has_flag w SW_HAS_READERS"
  "sw_contains w SW_SAME_FRAME = has_flag w SW_SAME_FRAME"
  "sw_contains w SW_WHOLE_LEVEL = has_flag w SW_WHOLE_LEVEL"
  using sw_contains_bit [of 0 w] sw_contains_bit [of 1 w] sw_contains_bit [of 2 w] sw_contains_bit [of 5 w]
  by (simp_all add: staging_bits)

lemma honoured_flags:
  "has_flag (honoured_lock_flags flags pool rect shape) D3DLOCK_READONLY = has_flag flags D3DLOCK_READONLY"
  "has_flag (honoured_lock_flags flags pool rect shape) D3DLOCK_DISCARD \<longleftrightarrow>
     has_flag flags D3DLOCK_DISCARD \<and> pool = D3DPOOL_DEFAULT \<and> is_whole_mip rect shape"
  by (auto simp: honoured_lock_flags_def Let_def lock_bits has_flag_def and.assoc)

lemma lock_decides_bits:
  "has_flag (w AND NOT (SW_MAPPED OR SW_WHOLE_LEVEL)) SW_MAPPED = False"
  "has_flag (w AND NOT (SW_MAPPED OR SW_WHOLE_LEVEL)) SW_WHOLE_LEVEL = False"
  "has_flag (w AND NOT (SW_MAPPED OR SW_WHOLE_LEVEL)) SW_HAS_READERS = has_flag w SW_HAS_READERS"
  "has_flag (w AND NOT (SW_MAPPED OR SW_WHOLE_LEVEL)) SW_SAME_FRAME = has_flag w SW_SAME_FRAME"
  "has_flag (w AND NOT (SW_MAPPED OR SW_WHOLE_LEVEL)) SW_OBSERVED = has_flag w SW_OBSERVED"
  "has_flag (w AND NOT (SW_MAPPED OR SW_WHOLE_LEVEL)) SW_ALWAYS_RENAME = has_flag w SW_ALWAYS_RENAME"
  by (simp_all add: has_flag_def staging_bits and.assoc)

lemma partial_lock_write:
  "decide_staging_write (w AND NOT (SW_MAPPED OR SW_WHOLE_LEVEL)) =
     (if \<not> has_flag w SW_HAS_READERS
         \<or> has_flag w SW_SAME_FRAME \<and> \<not> has_flag w SW_OBSERVED \<and> \<not> has_flag w SW_ALWAYS_RENAME
      then TexWriteInPlace else FreshBox TexPreserveCpu)"
  unfolding decide_staging_write_def sw_contains_flag has_flag_or lock_decides_bits by simp



section \<open>Copying rows\<close>

lemma length_copy_row:
  "to + rb \<le> length dst \<Longrightarrow> from + rb \<le> length src \<Longrightarrow> length (copy_row src from to rb dst) = length dst"
  by (simp add: copy_row_def)

lemma nth_copy_row:
  assumes "to + rb \<le> length dst" "from + rb \<le> length src" "i < length dst"
  shows "copy_row src from to rb dst ! i =
    (if to \<le> i \<and> i < to + rb then src ! (from + (i - to)) else dst ! i)"
  using assms by (auto simp: copy_row_def nth_append)

lemma row_end: "row < rows \<Longrightarrow> row * pitch + off \<le> (rows - 1) * pitch + (off::nat)"
  by (cases rows) (auto simp: less_Suc_eq_le)

text \<open>With rows that do not overlap in the destination, byte \<open>i\<close> belongs to at most one row.\<close>

lemma fold_rows:
  assumes "\<forall>row<rows. src_offset + row * src_pitch + rb \<le> length src"
    and "\<forall>row<rows. row * dst_pitch + rb \<le> length dst" and "rb \<le> dst_pitch" and "n \<le> rows"
  shows "length (foldl (\<lambda>d row. copy_row src (src_offset + row * src_pitch) (row * dst_pitch) rb d) dst [0..<n])
      = length dst
    \<and> (\<forall>i<length dst. foldl (\<lambda>d row. copy_row src (src_offset + row * src_pitch) (row * dst_pitch) rb d) dst [0..<n] ! i
        = (if i div dst_pitch < n \<and> i mod dst_pitch < rb
           then src ! (src_offset + (i div dst_pitch) * src_pitch + i mod dst_pitch) else dst ! i))"
  using assms(4)
proof (induction n)
  case (Suc n)
  let ?f = "\<lambda>d row. copy_row src (src_offset + row * src_pitch) (row * dst_pitch) rb d"
  let ?d = "foldl ?f dst [0..<n]"
  have IH: "length ?d = length dst" "\<And>i. i < length dst \<Longrightarrow> ?d ! i =
      (if i div dst_pitch < n \<and> i mod dst_pitch < rb
       then src ! (src_offset + (i div dst_pitch) * src_pitch + i mod dst_pitch) else dst ! i)"
    using Suc by auto
  have b: "n * dst_pitch + rb \<le> length ?d" "src_offset + n * src_pitch + rb \<le> length src"
    using assms(1,2) Suc.prems IH(1) by auto
  have row: "n * dst_pitch \<le> i \<and> i < n * dst_pitch + rb \<longleftrightarrow> i div dst_pitch = n \<and> i mod dst_pitch < rb" for i
  proof
    assume i: "n * dst_pitch \<le> i \<and> i < n * dst_pitch + rb"
    then obtain k where k: "i = n * dst_pitch + k" "k < rb" by (metis le_Suc_ex nat_add_left_cancel_less)
    then show "i div dst_pitch = n \<and> i mod dst_pitch < rb" using assms(3) by auto
  next
    assume "i div dst_pitch = n \<and> i mod dst_pitch < rb"
    then show "n * dst_pitch \<le> i \<and> i < n * dst_pitch + rb"
      by (metis add_less_cancel_left div_mult_mod_eq le_add1)
  qed
  have "?f ?d n ! i = (if i div dst_pitch < Suc n \<and> i mod dst_pitch < rb
       then src ! (src_offset + (i div dst_pitch) * src_pitch + i mod dst_pitch) else dst ! i)"
    if i: "i < length dst" for i
  proof (cases "i div dst_pitch = n \<and> i mod dst_pitch < rb")
    case True
    then have "i - n * dst_pitch = i mod dst_pitch" by (metis minus_div_mult_eq_mod)
    then show ?thesis
      using nth_copy_row [OF b, of i] IH(1) i True row [of i] by (simp add: add.assoc)
  next
    case False
    then show ?thesis using nth_copy_row [OF b, of i] IH i row [of i] by (auto simp: less_Suc_eq)
  qed
  then show ?case using length_copy_row [OF b] IH(1) by simp
qed simp

lemma copy_rows_ok:
  assumes "(rows - 1) * src_pitch + src_offset + rb \<le> length src" "(rows - 1) * dst_pitch + rb \<le> length dst"
    and "rb \<le> dst_pitch"
  obtains dst' where "copy_rows src src_offset src_pitch dst dst_pitch rb rows = (True, dst')"
    "length dst' = length dst"
    "\<And>r c. r < rows \<Longrightarrow> c < rb \<Longrightarrow> dst' ! (r * dst_pitch + c) = src ! (src_offset + r * src_pitch + c)"
proof (cases "rows = 0")
  case True
  then show thesis by (intro that [of dst]) (auto simp: copy_rows_def)
next
  case False
  let ?d = "foldl (\<lambda>d row. copy_row src (src_offset + row * src_pitch) (row * dst_pitch) rb d) dst [0..<rows]"
  have "\<forall>row<rows. src_offset + row * src_pitch + rb \<le> length src"
  proof (intro allI impI)
    fix row assume "row < rows"
    from row_end [OF this, of src_pitch "src_offset + rb"] assms(1)
    show "src_offset + row * src_pitch + rb \<le> length src" by linarith
  qed
  moreover have d: "\<forall>row<rows. row * dst_pitch + rb \<le> length dst"
    using assms(2) row_end [of _ rows dst_pitch rb] by (meson order_trans)
  ultimately have f: "length ?d = length dst" "\<And>i. i < length dst \<Longrightarrow> ?d ! i =
      (if i div dst_pitch < rows \<and> i mod dst_pitch < rb
       then src ! (src_offset + (i div dst_pitch) * src_pitch + i mod dst_pitch) else dst ! i)"
    using fold_rows [of rows src_offset src_pitch rb src dst_pitch dst rows] assms(3) by auto
  show thesis
  proof (rule that [of ?d])
    show "copy_rows src src_offset src_pitch dst dst_pitch rb rows = (True, ?d)"
      using False assms by (simp add: copy_rows_def Let_def)
    show "length ?d = length dst" by (rule f)
    fix r c assume rc: "r < rows" "c < rb"
    moreover have "r * dst_pitch + c < length dst" using d rc by (metis add_less_cancel_left le_less_trans less_le_trans)
    moreover have "(r * dst_pitch + c) div dst_pitch = r" "(r * dst_pitch + c) mod dst_pitch = c"
      using rc assms(3) by auto
    ultimately show "?d ! (r * dst_pitch + c) = src ! (src_offset + r * src_pitch + c)"
      using f(2) by simp
  qed
qed

section \<open>The snapshot of a box\<close>

text \<open>Blocks along one axis: a span of texels and the blocks it touches.\<close>

definition nat_ceil :: "nat \<Rightarrow> nat \<Rightarrow> nat" where
  "nat_ceil a b = (if a mod b = 0 then a div b else Suc (a div b))"

lemma unat_div_ceil': "unat (div_ceil a b) = nat_ceil (unat a) (unat b)"
  by (simp add: unat_div_ceil nat_ceil_def)

lemma nat_ceil_mono: "a \<le> c \<Longrightarrow> nat_ceil a b \<le> nat_ceil c b"
proof -
  assume ac: "a \<le> c"
  then have d: "a div b \<le> c div b" by (rule div_le_mono)
  show ?thesis
  proof (cases "a div b = c div b")
    case True
    then have "a mod b \<le> c mod b" using ac by (metis add_le_cancel_left mult_div_mod_eq)
    then show ?thesis using True by (auto simp: nat_ceil_def)
  next
    case False
    then show ?thesis using d by (auto simp: nat_ceil_def)
  qed
qed

lemma nat_ceil_last: "0 < b \<Longrightarrow> i < a \<Longrightarrow> i div b < nat_ceil a b"
proof -
  assume *: "0 < b" "i < a"
  have "a \<le> b * nat_ceil a b" using div_ceil_ge [OF *(1), of a] by (simp add: nat_ceil_def)
  then have "i < b * nat_ceil a b" using *(2) by linarith
  then show ?thesis by (simp add: less_mult_imp_div_less mult.commute)
qed

lemma nat_ceil_floor: "a div b \<le> nat_ceil a b"
  by (simp add: nat_ceil_def)

lemma block_span:
  fixes x w b m :: u32
  assumes "unat x + unat w \<le> unat m" "0 < unat w" "0 < unat b"
  shows "unat (div_ceil (x + w) b - x div b) = nat_ceil (unat x + unat w) (unat b) - unat x div unat b"
    and "unat x div unat b < nat_ceil (unat x + unat w) (unat b)"
    and "nat_ceil (unat x + unat w) (unat b) \<le> nat_ceil (unat m) (unat b)"
proof -
  have s: "unat (x + w) = unat x + unat w"
    using assms(1) u32_bound [of m] by (intro unat_add_no_overflow) simp
  show l: "unat x div unat b < nat_ceil (unat x + unat w) (unat b)"
    using assms(2,3) by (intro nat_ceil_last) auto
  then have "x div b \<le> div_ceil (x + w) b"
    by (simp add: word_le_nat_alt unat_div unat_div_ceil' s)
  then show "unat (div_ceil (x + w) b - x div b) = nat_ceil (unat x + unat w) (unat b) - unat x div unat b"
    by (simp add: unat_sub_le unat_div unat_div_ceil' s)
  show "nat_ceil (unat x + unat w) (unat b) \<le> nat_ceil (unat m) (unat b)"
    using assms(1) by (rule nat_ceil_mono)
qed

lemma u32_try_from_Some: "u32_try_from v = Some w \<Longrightarrow> unat w = unat v"
  by (auto simp: u32_try_from_def unsigned_ucast_eq take_bit_nat_eq_self_iff split: if_splits)

text \<open>What a layout is, in natural numbers, for a box inside a level that its staging holds.\<close>

lemma snapshot_box_Copy:
  fixes shape :: mip_shape
  defines "bw \<equiv> unat (ms_block_w shape)" and "bh \<equiv> unat (ms_block_h shape)"
  assumes inl: "in_level (ms_w shape) (ms_h shape) rect" and b: "0 < bw" "0 < bh"
    and pitch: "nat_ceil (unat (ms_w shape)) bw * unat block_bytes \<le> unat src_pitch"
    and size: "unat src_pitch * nat_ceil (unat (ms_h shape)) bh < 2 ^ 32"
    and align: "unat pitch_align \<le> 65536"
    and copy: "snapshot_box rect shape block_bytes src_pitch pitch_align = Copy L"
  defines "x0 \<equiv> unat (dr_x rect) div bw" and "y0 \<equiv> unat (dr_y rect) div bh"
    and "x1 \<equiv> nat_ceil (unat (dr_x rect) + unat (dr_w rect)) bw"
    and "y1 \<equiv> nat_ceil (unat (dr_y rect) + unat (dr_h rect)) bh"
  shows "sl_src_offset L = y0 * unat src_pitch + x0 * unat block_bytes"
    "unat (sl_row_bytes L) = (x1 - x0) * unat block_bytes" "unat (sl_rows L) = y1 - y0"
    "unat (sl_row_bytes L) \<le> unat (sl_pitch L)" "unat (sl_len L) = unat (sl_pitch L) * unat (sl_rows L)"
    "unat (sl_len L) \<le> SNAPSHOT_MAX_BYTES" "x0 < x1" "y0 < y1"
    "x1 \<le> nat_ceil (unat (ms_w shape)) bw" "y1 \<le> nat_ceil (unat (ms_h shape)) bh"
proof -
  have ne: "0 < unat (dr_w rect)" "0 < unat (dr_h rect)" "0 < unat pitch_align"
    using copy by (auto simp: snapshot_box_def unat_gt_0 split: if_splits)
  note xs = block_span [of "dr_x rect" "dr_w rect" "ms_w shape" "ms_block_w shape"]
  note ys = block_span [of "dr_y rect" "dr_h rect" "ms_h shape" "ms_block_h shape"]
  show x01: "x0 < x1" and y01: "y0 < y1"
    and xm: "x1 \<le> nat_ceil (unat (ms_w shape)) bw" and ym: "y1 \<le> nat_ceil (unat (ms_h shape)) bh"
    using xs ys inl ne b by (auto simp: in_level_def bw_def bh_def x0_def x1_def y0_def y1_def)
  define cols where "cols = div_ceil (dr_x rect + dr_w rect) (ms_block_w shape) - dr_x rect div ms_block_w shape"
  define rows where "rows = div_ceil (dr_y rect + dr_h rect) (ms_block_h shape) - dr_y rect div ms_block_h shape"
  have c: "unat cols = x1 - x0" "unat rows = y1 - y0"
    using xs(1) ys(1) inl ne b
    by (auto simp: in_level_def bw_def bh_def x0_def x1_def y0_def y1_def cols_def rows_def)
  define rb where "rb = ucast cols * (ucast block_bytes :: u64)"
  define pt where "pt = next_multiple_of rb (ucast pitch_align)"
  have rb: "unat rb = (x1 - x0) * unat block_bytes" by (simp add: rb_def unat_area c)
  have rbp: "unat rb \<le> unat src_pitch"
  proof -
    have "x1 - x0 \<le> nat_ceil (unat (ms_w shape)) bw" using xm by simp
    then have "(x1 - x0) * unat block_bytes \<le> nat_ceil (unat (ms_w shape)) bw * unat block_bytes"
      by (rule mult_le_mono1)
    also note pitch
    finally show ?thesis unfolding rb .
  qed
  have nm: "0 < unat (ucast pitch_align :: u64)" "unat rb + unat (ucast pitch_align :: u64) < 2 ^ LENGTH(64)"
    using ne(3) align rbp u32_bound [of src_pitch] by (simp_all add: unat_ucast_up)
  have pt: "unat rb \<le> unat pt" "unat pt < unat rb + 65537"
    using next_multiple_bounds [OF nm] align by (auto simp: pt_def unat_ucast_up)
  have "unat pt * unat rows < 2 ^ 64"
  proof -
    have r: "unat rows \<le> nat_ceil (unat (ms_h shape)) bh" using c ym by simp
    have "unat rb * unat rows < 2 ^ 32"
      using mult_le_mono [OF rbp r] size by linarith
    moreover have "unat pt * unat rows \<le> (unat rb + 65537) * unat rows"
      using pt(2) by (intro mult_le_mono1) simp
    moreover have "65537 * unat rows \<le> 65537 * 4294967296" using u32_bound [of rows] by simp
    ultimately show ?thesis by (simp add: algebra_simps)
  qed
  then have len: "unat (pt * ucast rows :: u64) = unat pt * unat rows"
    by (simp add: unat_mul_no_overflow unat_ucast_up)
  have L: "\<not> word_of_nat SNAPSHOT_MAX_BYTES < pt * ucast rows"
    "u32_try_from rb = Some (sl_row_bytes L)" "u32_try_from (ucast rows) = Some (sl_rows L)"
    "u32_try_from pt = Some (sl_pitch L)" "u32_try_from (pt * ucast rows) = Some (sl_len L)"
    "sl_src_offset L = texture_lock_offset (Some rect) src_pitch (ms_block_w shape) (ms_block_h shape) block_bytes"
    using copy by (auto simp: snapshot_box_def Let_def rows_def [symmetric] cols_def [symmetric] rb_def [symmetric]
        pt_def [symmetric] split: if_splits option.splits)
  show "sl_src_offset L = y0 * unat src_pitch + x0 * unat block_bytes"
    by (simp add: L(6) texture_lock_offset_def unat_div x0_def y0_def bw_def bh_def)
  show "unat (sl_row_bytes L) = (x1 - x0) * unat block_bytes" "unat (sl_rows L) = y1 - y0"
    "unat (sl_row_bytes L) \<le> unat (sl_pitch L)" "unat (sl_len L) = unat (sl_pitch L) * unat (sl_rows L)"
    using L(2-5) [THEN u32_try_from_Some] rb c pt(1) len by (simp_all add: unat_ucast_up)
  show "unat (sl_len L) \<le> SNAPSHOT_MAX_BYTES"
    using L(1) L(5) [THEN u32_try_from_Some] by (simp add: SNAPSHOT_MAX_BYTES_def not_less word_le_nat_alt)
qed

text \<open>The last row of the box ends inside the staging.\<close>

lemma box_end:
  fixes sp bb x0 x1 y0 y1 nx ny :: nat
  assumes "x0 < x1" "y0 < y1" "x1 \<le> nx" "y1 \<le> ny" "nx * bb \<le> sp"
  shows "(y1 - y0 - 1) * sp + (y0 * sp + x0 * bb) + (x1 - x0) * bb \<le> sp * ny"
proof -
  have "x0 * bb + (x1 - x0) * bb = x1 * bb" using assms(1) by (simp add: add_mult_distrib [symmetric])
  also have "\<dots> \<le> sp" using assms(3,5) by (meson le_trans mult_le_mono1)
  finally have "x0 * bb + (x1 - x0) * bb \<le> sp" .
  moreover have "(y1 - y0 - 1) * sp + y0 * sp = (y1 - 1) * sp"
    using assms(2) by (simp add: add_mult_distrib [symmetric])
  moreover have "(y1 - 1) * sp + sp = y1 * sp" using assms(2) by (cases y1) auto
  moreover have "y1 * sp \<le> sp * ny" using assms(4) by (simp add: mult.commute)
  ultimately show ?thesis by linarith
qed

lemma fits_source_iff:
  assumes "sl_src_offset l < 2 ^ 63" "unat (sl_rows l - 1) * unat src_pitch < 2 ^ 62" "sl_rows l \<noteq> 0"
  shows "fits_source l src_pitch n \<longleftrightarrow>
    sl_src_offset l + (unat (sl_rows l) - 1) * unat src_pitch + unat (sl_row_bytes l) \<le> n"
proof -
  let ?s = "word_of_nat (sl_src_offset l) :: u64"
  have r: "sat_sub (sl_rows l) 1 = sl_rows l - 1" "unat (sl_rows l - 1) = unat (sl_rows l) - 1"
    using assms(3) by (auto simp: sat_sub_def unat_sub_le word_le_nat_alt unat_gt_0 Suc_le_eq)
  have a: "unat ?s = sl_src_offset l"
    using assms(1) by (simp add: unsigned_of_nat take_bit_nat_eq_self)
  let ?v = "?s + ucast (sl_rows l - 1) * ucast src_pitch"
  have v: "unat ?v = sl_src_offset l + (unat (sl_rows l) - 1) * unat src_pitch"
    using assms(1,2) by (subst unat_add_no_overflow) (auto simp: a unat_area r)
  have w: "unat (?v + ucast (sl_row_bytes l)) = unat ?v + unat (sl_row_bytes l)"
    using assms(1,2) u32_bound [of "sl_row_bytes l"]
    by (subst unat_add_no_overflow) (auto simp: v r unat_ucast_up)
  have "checked_add ?s (ucast (sl_rows l - 1) * ucast src_pitch) = Some ?v"
    "checked_add ?v (ucast (sl_row_bytes l)) = Some (?v + ucast (sl_row_bytes l))"
    using assms(1,2) u32_bound [of "sl_row_bytes l"]
    by (auto simp: checked_add_def a unat_area v unat_ucast_up r)
  then show ?thesis by (simp add: fits_source_def Let_def r(1) w v)
qed

text \<open>
  C23. The snapshot of a partial upload carries the texels of its box. For a box inside a level
  whose staging \<open>src\<close> holds every block row of the level (and is smaller than 4 GiB), a layout the
  code accepts reads only inside the staging, takes at most one arena chunk, and the row copy it
  drives succeeds and leaves, for every texel of the box, every byte of the texel's block in the
  snapshot where the layout's pitch puts it.
\<close>

theorem snapshot_copies_box:
  fixes shape :: mip_shape and src dst :: "u8 list"
  assumes "in_level (ms_w shape) (ms_h shape) rect"
    and "0 < unat (ms_block_w shape)" and "0 < unat (ms_block_h shape)"
    and "unat (div_ceil (ms_w shape) (ms_block_w shape)) * unat block_bytes \<le> unat src_pitch"
    and "unat src_pitch * unat (div_ceil (ms_h shape) (ms_block_h shape)) \<le> length src"
    and "length src < 2 ^ 32" and "unat pitch_align \<le> 65536"
    and "snapshot_box rect shape block_bytes src_pitch pitch_align = Copy L"
    and "length dst = unat (sl_len L)"
  shows "fits_source L src_pitch (length src) \<and> length dst \<le> SNAPSHOT_MAX_BYTES
    \<and> (\<exists>dst'. copy_rows src (sl_src_offset L) (unat src_pitch) dst (unat (sl_pitch L))
            (unat (sl_row_bytes L)) (unat (sl_rows L)) = (True, dst')
        \<and> length dst' = length dst
        \<and> (\<forall>i j c. (i, j) \<in> texels rect \<and> c < unat block_bytes \<longrightarrow>
             dst' ! ((j div unat (ms_block_h shape) - unat (dr_y rect) div unat (ms_block_h shape)) * unat (sl_pitch L)
                     + ((i div unat (ms_block_w shape) - unat (dr_x rect) div unat (ms_block_w shape)) * unat block_bytes + c))
             = src ! ((j div unat (ms_block_h shape)) * unat src_pitch
                      + (i div unat (ms_block_w shape)) * unat block_bytes + c)))"
proof -
  define bw bh sp bb where "bw = unat (ms_block_w shape)" and "bh = unat (ms_block_h shape)"
    and "sp = unat src_pitch" and "bb = unat block_bytes"
  define x0 y0 x1 y1 where "x0 = unat (dr_x rect) div bw" and "y0 = unat (dr_y rect) div bh"
    and "x1 = nat_ceil (unat (dr_x rect) + unat (dr_w rect)) bw"
    and "y1 = nat_ceil (unat (dr_y rect) + unat (dr_h rect)) bh"
  note d = bw_def bh_def sp_def bb_def x0_def y0_def x1_def y1_def
  have pitch: "nat_ceil (unat (ms_w shape)) bw * bb \<le> sp"
    and size: "sp * nat_ceil (unat (ms_h shape)) bh \<le> length src"
    using assms(4,5) by (simp_all add: d unat_div_ceil')
  have "sp * nat_ceil (unat (ms_h shape)) bh < 2 ^ 32" using size assms(6) by linarith
  note L = snapshot_box_Copy [OF assms(1-3) pitch [unfolded d] this [unfolded d] assms(7,8),
      folded bw_def bh_def sp_def bb_def, folded x0_def y0_def x1_def y1_def]
  have fin: "(unat (sl_rows L) - 1) * sp + sl_src_offset L + unat (sl_row_bytes L) \<le> length src"
    using box_end [OF L(7-10) pitch] size by (simp add: L(1-3))
  have rows: "sl_rows L \<noteq> 0" "unat (sl_rows L - 1) = unat (sl_rows L) - 1"
    using L(3,8) by (auto simp: unat_sub_le word_le_nat_alt)
  have "fits_source L src_pitch (length src)"
    using fin assms(6) rows by (subst fits_source_iff) (auto simp: sp_def)
  moreover have dfin: "(unat (sl_rows L) - 1) * unat (sl_pitch L) + unat (sl_row_bytes L) \<le> length dst"
    using L(4,5) assms(9) rows(1) by (cases "unat (sl_rows L)") (auto simp: unat_eq_zero mult.commute)
  obtain dst' where c: "copy_rows src (sl_src_offset L) sp dst (unat (sl_pitch L))
      (unat (sl_row_bytes L)) (unat (sl_rows L)) = (True, dst')" "length dst' = length dst"
    "\<And>r c. r < unat (sl_rows L) \<Longrightarrow> c < unat (sl_row_bytes L) \<Longrightarrow>
      dst' ! (r * unat (sl_pitch L) + c) = src ! (sl_src_offset L + r * sp + c)"
    using copy_rows_ok [OF fin dfin L(4)] by blast
  have "dst' ! ((j div bh - y0) * unat (sl_pitch L) + ((i div bw - x0) * bb + c))
      = src ! ((j div bh) * sp + (i div bw) * bb + c)"
    if "(i, j) \<in> texels rect" "c < bb" for i j c
  proof -
    have ij: "x0 \<le> i div bw" "i div bw < x1" "y0 \<le> j div bh" "j div bh < y1"
      using that(1) assms(2,3) nat_ceil_last
      by (auto simp: texels_def x0_def y0_def x1_def y1_def bw_def bh_def intro: div_le_mono)
    have "(i div bw - x0) * bb + c < (x1 - x0) * bb"
    proof -
      have "Suc (i div bw - x0) \<le> x1 - x0" using ij(1,2) by linarith
      then have "Suc (i div bw - x0) * bb \<le> (x1 - x0) * bb" by (rule mult_le_mono1)
      then show ?thesis using that(2) by simp
    qed
    moreover have e: "y0 * sp + x0 * bb + (j div bh - y0) * sp + ((i div bw - x0) * bb + c)
        = (j div bh) * sp + (i div bw) * bb + c"
    proof -
      have "y0 * sp + (j div bh - y0) * sp = (j div bh) * sp" "x0 * bb + (i div bw - x0) * bb = (i div bw) * bb"
        using ij(1,3) by (simp_all add: add_mult_distrib [symmetric])
      then show ?thesis by linarith
    qed
    ultimately show ?thesis
      using c(3) [of "j div bh - y0" "(i div bw - x0) * bb + c"] ij unfolding L(1-3) e by simp
  qed
  ultimately show ?thesis using c L(6) assms(9) by (auto simp: d)
qed

text \<open>A 2-by-2 box at (1, 1) of a 4-by-4 level with one byte per texel.\<close>

theorem snapshot_copies_box_witness:
  "\<exists>L. snapshot_box \<lparr>dr_x = 1, dr_y = 1, dr_w = 2, dr_h = 2\<rparr>
          \<lparr>ms_w = 4, ms_h = 4, ms_block_w = 1, ms_block_h = 1\<rparr> 1 4 16 = Copy L
     \<and> fits_source L 4 (length (map word_of_nat [0..<16] :: u8 list))"
proof -
  let ?r = "\<lparr>dr_x = 1, dr_y = 1, dr_w = 2, dr_h = 2\<rparr>"
  let ?s = "\<lparr>ms_w = 4, ms_h = 4, ms_block_w = 1, ms_block_h = 1\<rparr>"
  let ?L = "\<lparr>sl_src_offset = 5, sl_row_bytes = 2, sl_rows = 2, sl_pitch = 16, sl_len = 32\<rparr>"
  have c: "snapshot_box ?r ?s 1 4 16 = Copy ?L"
    by (simp add: snapshot_box_def is_whole_mip_def rect_block_aligned_def is_multiple_of_def div_ceil_def
        next_multiple_of_def u32_try_from_def texture_lock_offset_def SNAPSHOT_MAX_BYTES_def Let_def)
  have "fits_source ?L 4 (length (map word_of_nat [0..<16] :: u8 list))"
    using snapshot_copies_box [OF _ _ _ _ _ _ _ c, of "map word_of_nat [0..<16]" "replicate 32 0"]
    by (simp add: in_level_def div_ceil_def)
  with c show ?thesis by blast
qed

end
