(* ===== verification/Upload_Snapshot.thy ===== *)
theory Upload_Snapshot
  imports Texture_Staging
begin

text \<open>
  \<^verbatim>\<open>src/windows/core/src/upload_snapshot.rs\<close>: the arena that partial texture uploads copy their
  box into, with \<^verbatim>\<open>write_snapshot\<close> of \<^verbatim>\<open>src/windows/d3d9/src/texture.rs\<close> on top.

  A chunk is named by its page box; the memory of page boxes is a map from names to bytes.
  Whether a chunk still has readers, and the outcome of an allocation, come from \<open>PageBox\<close> and
  are arguments of the operations. The state machine \<open>ar_step\<close> adds the snapshots in flight: each
  holds a read of its chunk until it is dropped. The theory proves the safety argument in the
  \<^verbatim>\<open>SAFETY\<close> comment of \<^verbatim>\<open>write\<close>: no write ever touches a byte a live snapshot covers.
\<close>

definition CHUNK_BYTES :: nat where "CHUNK_BYTES = 256 * 1024"
definition MAX_CHUNKS :: nat where "MAX_CHUNKS = 64"
definition SNAPSHOT_ALIGN :: nat where "SNAPSHOT_ALIGN = 16"

record chunk =
  ck_pages :: nat
  ck_last_seq :: u64

record upload_snapshots =
  us_active :: "chunk option"
  us_cursor :: nat
  us_full :: "chunk list"
  us_waited_through :: u64

definition snapshots_default :: upload_snapshots where
  "snapshots_default = \<lparr>us_active = None, us_cursor = 0, us_full = [], us_waited_through = 0\<rparr>"

definition chunk_count :: "upload_snapshots \<Rightarrow> nat" where
  "chunk_count a = length (us_full a) + (if us_active a \<noteq> None then 1 else 0)"

definition held_bytes :: "(nat \<Rightarrow> u8 list) \<Rightarrow> upload_snapshots \<Rightarrow> nat" where
  "held_bytes mem a =
     sum_list (map (\<lambda>c. length (mem (ck_pages c)))
       ((case us_active a of Some c \<Rightarrow> [c] | None \<Rightarrow> []) @ us_full a))"

definition nat_next_multiple :: "nat \<Rightarrow> nat \<Rightarrow> nat" where
  "nat_next_multiple a b = (if a mod b = 0 then a else a + (b - a mod b))"

text \<open>The active chunk goes to the back of the queue of full ones.\<close>

definition retire_active :: "upload_snapshots \<Rightarrow> upload_snapshots" where
  "retire_active a = a\<lparr>us_active := None,
     us_full := us_full a @ (case us_active a of Some c \<Rightarrow> [c] | None \<Rightarrow> [])\<rparr>"

text \<open>\<open>alloc\<close> is the name of the freshly allocated chunk, or a failed allocation. The early
  return of a failed one leaves the arena without an active chunk.\<close>

definition room_for ::
  "(nat \<Rightarrow> bool) \<Rightarrow> nat option \<Rightarrow> upload_snapshots \<Rightarrow> nat \<Rightarrow> nat option \<times> upload_snapshots" where
  "room_for has_readers alloc a len =
     (let start = nat_next_multiple (us_cursor a) SNAPSHOT_ALIGN; a1 = retire_active a
      in if us_active a \<noteq> None \<and> start + len \<le> CHUNK_BYTES then (Some start, a)
         else if us_full a1 \<noteq> [] \<and> \<not> has_readers (ck_pages (hd (us_full a1)))
         then (Some 0, a1\<lparr>us_active := Some (hd (us_full a1)), us_full := tl (us_full a1), us_cursor := 0\<rparr>)
         else if chunk_count a1 < MAX_CHUNKS
         then (case alloc of
                 None \<Rightarrow> (None, a1)
               | Some pages \<Rightarrow> (Some 0, a1\<lparr>us_active := Some \<lparr>ck_pages = pages, ck_last_seq = 0\<rparr>,
                                         us_cursor := 0\<rparr>))
         else (None, a1))"

text \<open>\<open>fill\<close> answers whether it wrote the slice, and what the slice holds afterwards.\<close>

definition arena_write ::
  "(nat \<Rightarrow> bool) \<Rightarrow> nat option \<Rightarrow> (u8 list \<Rightarrow> bool \<times> u8 list) \<Rightarrow> nat \<Rightarrow> u64
     \<Rightarrow> upload_snapshots \<Rightarrow> (nat \<Rightarrow> u8 list) \<Rightarrow> (nat \<times> nat) option \<times> upload_snapshots \<times> (nat \<Rightarrow> u8 list)" where
  "arena_write has_readers alloc fill len seq a mem =
     (if len = 0 \<or> SNAPSHOT_MAX_BYTES < len then (None, a, mem)
      else case room_for has_readers alloc a len of
             (None, a') \<Rightarrow> (None, a', mem)
           | (Some start, a') \<Rightarrow>
               (case us_active a' of
                  None \<Rightarrow> (None, a', mem)
                | Some c \<Rightarrow>
                    (let pages = mem (ck_pages c);
                         (ok, bytes) = fill (take len (drop start pages));
                         mem' = mem(ck_pages c := take start pages @ bytes @ drop (start + len) pages)
                     in if \<not> ok then (None, a', mem')
                        else (Some (ck_pages c, start),
                              a'\<lparr>us_active := Some (c\<lparr>ck_last_seq := seq\<rparr>), us_cursor := start + len\<rparr>,
                              mem'))))"

definition wait_target :: "(nat \<Rightarrow> bool) \<Rightarrow> upload_snapshots \<Rightarrow> u64 option" where
  "wait_target has_readers a =
     (if chunk_count a < MAX_CHUNKS then None
      else case us_full a of
             [] \<Rightarrow> None
           | oldest # _ \<Rightarrow> if has_readers (ck_pages oldest) \<and> us_waited_through a < ck_last_seq oldest
                           then Some (ck_last_seq oldest) else None)"

definition note_wait :: "upload_snapshots \<Rightarrow> u64 \<Rightarrow> upload_snapshots" where
  "note_wait a seq = a\<lparr>us_waited_through := max (us_waited_through a) seq\<rparr>"

text \<open>The copy of a box into the arena, the fill of \<^verbatim>\<open>write_snapshot\<close>.\<close>

definition write_snapshot ::
  "(nat \<Rightarrow> bool) \<Rightarrow> nat option \<Rightarrow> u64 \<Rightarrow> u8 list \<Rightarrow> u32 \<Rightarrow> snapshot_layout
     \<Rightarrow> upload_snapshots \<Rightarrow> (nat \<Rightarrow> u8 list) \<Rightarrow> (nat \<times> nat) option \<times> upload_snapshots \<times> (nat \<Rightarrow> u8 list)" where
  "write_snapshot has_readers alloc seq source src_pitch l a mem =
     arena_write has_readers alloc
       (\<lambda>dst. copy_rows source (sl_src_offset l) (unat src_pitch) dst (unat (sl_pitch l))
                (unat (sl_row_bytes l)) (unat (sl_rows l)))
       (unat (sl_len l)) seq a mem"

section \<open>Snapshots in flight\<close>

record live_snapshot =
  lv_pages :: nat
  lv_offset :: nat
  lv_bytes :: "u8 list"

record ar_state =
  as_arena :: upload_snapshots
  as_mem :: "nat \<Rightarrow> u8 list"
  as_live :: "live_snapshot list"

definition live_readers :: "live_snapshot list \<Rightarrow> nat \<Rightarrow> bool" where
  "live_readers ls p \<longleftrightarrow> (\<exists>l\<in>set ls. lv_pages l = p)"

definition arena_pages :: "upload_snapshots \<Rightarrow> nat list" where
  "arena_pages a = map ck_pages ((case us_active a of Some c \<Rightarrow> [c] | None \<Rightarrow> []) @ us_full a)"

text \<open>
  A new chunk is zeroed and named by no chunk of the arena. A fill keeps the length of its slice.
  A snapshot lives from the write that returned it until its read is dropped; \<open>lv_bytes\<close> is a
  ghost, the bytes its fill wrote.
\<close>

definition fresh_chunk :: "ar_state \<Rightarrow> nat option \<Rightarrow> (nat \<Rightarrow> u8 list) \<Rightarrow> bool" where
  "fresh_chunk s alloc mem \<longleftrightarrow> (case alloc of
      None \<Rightarrow> mem = as_mem s
    | Some p \<Rightarrow> p \<notin> set (arena_pages (as_arena s)) \<and> mem = (as_mem s)(p := replicate CHUNK_BYTES 0))"

inductive ar_step :: "ar_state \<Rightarrow> ar_state \<Rightarrow> bool" where
  ar_write: "fresh_chunk s alloc mem \<Longrightarrow> (\<forall>xs. length (snd (fill xs)) = length xs) \<Longrightarrow>
    arena_write (live_readers (as_live s)) alloc fill len seq (as_arena s) mem = (r, a, mem') \<Longrightarrow>
    live = (case r of None \<Rightarrow> as_live s
            | Some (p, off) \<Rightarrow> \<lparr>lv_pages = p, lv_offset = off,
                                lv_bytes = take len (drop off (mem' p))\<rparr> # as_live s) \<Longrightarrow>
    ar_step s \<lparr>as_arena = a, as_mem = mem', as_live = live\<rparr>"
| ar_drop: "as_live s = xs @ l # ys \<Longrightarrow> ar_step s (s\<lparr>as_live := xs @ ys\<rparr>)"
| ar_note_wait: "ar_step s (s\<lparr>as_arena := note_wait (as_arena s) seq\<rparr>)"

definition ar_init :: "ar_state \<Rightarrow> bool" where
  "ar_init s \<longleftrightarrow> as_arena s = snapshots_default \<and> as_live s = []"

text \<open>A live snapshot lies in a chunk of the arena, below the cursor when that chunk is active,
  and still reads what its fill wrote.\<close>

definition live_ok :: "upload_snapshots \<Rightarrow> (nat \<Rightarrow> u8 list) \<Rightarrow> live_snapshot \<Rightarrow> bool" where
  "live_ok a mem l \<longleftrightarrow> lv_pages l \<in> set (arena_pages a)
     \<and> 16 dvd lv_offset l \<and> lv_offset l + length (lv_bytes l) \<le> CHUNK_BYTES
     \<and> take (length (lv_bytes l)) (drop (lv_offset l) (mem (lv_pages l))) = lv_bytes l
     \<and> (case us_active a of Some c \<Rightarrow> ck_pages c = lv_pages l \<longrightarrow> lv_offset l + length (lv_bytes l) \<le> us_cursor a
        | None \<Rightarrow> True)"

definition live_disjoint :: "live_snapshot \<Rightarrow> live_snapshot \<Rightarrow> bool" where
  "live_disjoint l k \<longleftrightarrow> lv_pages l \<noteq> lv_pages k
     \<or> lv_offset l + length (lv_bytes l) \<le> lv_offset k \<or> lv_offset k + length (lv_bytes k) \<le> lv_offset l"

definition arena_ok :: "upload_snapshots \<Rightarrow> (nat \<Rightarrow> u8 list) \<Rightarrow> live_snapshot list \<Rightarrow> bool" where
  "arena_ok a mem live \<longleftrightarrow> distinct (arena_pages a) \<and> chunk_count a \<le> MAX_CHUNKS
     \<and> (\<forall>p\<in>set (arena_pages a). length (mem p) = CHUNK_BYTES) \<and> (\<forall>l\<in>set live. live_ok a mem l)"

definition ar_inv :: "ar_state \<Rightarrow> bool" where
  "ar_inv s \<longleftrightarrow> arena_ok (as_arena s) (as_mem s) (as_live s) \<and> sorted_wrt live_disjoint (as_live s)"

section \<open>Finding room\<close>

lemma next_multiple_16: "16 dvd nat_next_multiple a 16" "a \<le> nat_next_multiple a 16"
proof -
  obtain q r where qr: "a div 16 = q" "a mod 16 = r" by blast
  then have a: "r < 16" "a = 16 * q + r" using mult_div_mod_eq [of 16 a] by auto
  then have "nat_next_multiple a 16 = (if r = 0 then 16 * q else 16 * (q + 1))"
    by (simp add: nat_next_multiple_def qr)
  then show "16 dvd nat_next_multiple a 16" "a \<le> nat_next_multiple a 16" using a by auto
qed

text \<open>Moving the active chunk to the back of the queue keeps everything.\<close>

lemma retire_active_ok:
  assumes "arena_ok a mem live"
  shows "arena_ok (retire_active a) mem live"
proof -
  have p: "set (arena_pages (retire_active a)) = set (arena_pages a)"
    "distinct (arena_pages (retire_active a)) = distinct (arena_pages a)"
    by (cases "us_active a"; auto simp: arena_pages_def retire_active_def)+
  have "chunk_count (retire_active a) = chunk_count a"
    by (cases "us_active a") (auto simp: chunk_count_def retire_active_def)
  then show ?thesis using assms p by (auto simp: arena_ok_def live_ok_def retire_active_def)
qed

definition room_ok ::
  "upload_snapshots \<Rightarrow> live_snapshot list \<Rightarrow> nat \<Rightarrow> nat \<Rightarrow> bool" where
  "room_ok a live start len \<longleftrightarrow> (\<exists>c. us_active a = Some c \<and> start + len \<le> CHUNK_BYTES \<and> 16 dvd start
     \<and> (\<forall>l\<in>set live. lv_pages l = ck_pages c \<longrightarrow> lv_offset l + length (lv_bytes l) \<le> start))"

lemma reuse_ok:
  assumes ok: "arena_ok a mem live" and na: "us_active a = None" and f: "us_full a = c # cs"
    and nr: "\<not> live_readers live (ck_pages c)"
  shows "arena_ok (a\<lparr>us_active := Some c, us_full := cs, us_cursor := n\<rparr>) mem live"
  using assms
  by (auto simp: arena_ok_def arena_pages_def chunk_count_def live_ok_def live_readers_def)

lemma room_for_ok:
  assumes ok: "arena_ok a mem live" and len: "len \<le> CHUNK_BYTES"
    and alloc: "\<And>p. alloc = Some p \<Longrightarrow> p \<notin> set (arena_pages a) \<and> length (mem p) = CHUNK_BYTES"
    and r: "room_for (live_readers live) alloc a len = (r, a')"
  shows "arena_ok a' mem live \<and> (\<forall>start. r = Some start \<longrightarrow> room_ok a' live start len)"
proof -
  define a1 where "a1 = retire_active a"
  have ok1: "arena_ok a1 mem live" unfolding a1_def using ok by (rule retire_active_ok)
  have na: "us_active a1 = None" by (simp add: a1_def retire_active_def)
  have pg: "set (arena_pages a1) = set (arena_pages a)"
    by (cases "us_active a") (auto simp: a1_def arena_pages_def retire_active_def)
  show ?thesis
  proof (cases "us_active a \<noteq> None \<and> nat_next_multiple (us_cursor a) 16 + len \<le> CHUNK_BYTES")
    case True
    then have fits: "r = Some (nat_next_multiple (us_cursor a) 16)" "a' = a"
      using r by (auto simp: room_for_def Let_def SNAPSHOT_ALIGN_def)
    obtain c where c: "us_active a = Some c" using True by auto
    have "\<forall>l\<in>set live. lv_pages l = ck_pages c \<longrightarrow> lv_offset l + length (lv_bytes l) \<le> us_cursor a"
      using ok c by (auto simp: arena_ok_def live_ok_def)
    then have "room_ok a live (nat_next_multiple (us_cursor a) 16) len"
      using True c next_multiple_16 [of "us_cursor a"] by (fastforce simp: room_ok_def)
    then show ?thesis using ok fits by simp
  next
    case False
    then have e: "(r, a') = (if us_full a1 \<noteq> [] \<and> \<not> live_readers live (ck_pages (hd (us_full a1)))
         then (Some 0, a1\<lparr>us_active := Some (hd (us_full a1)), us_full := tl (us_full a1), us_cursor := 0\<rparr>)
         else if chunk_count a1 < MAX_CHUNKS
         then (case alloc of None \<Rightarrow> (None, a1)
               | Some p \<Rightarrow> (Some 0, a1\<lparr>us_active := Some \<lparr>ck_pages = p, ck_last_seq = 0\<rparr>, us_cursor := 0\<rparr>))
         else (None, a1))"
      using r by (simp only: room_for_def a1_def [symmetric] Let_def SNAPSHOT_ALIGN_def if_False)
    show ?thesis
    proof (cases "us_full a1 \<noteq> [] \<and> \<not> live_readers live (ck_pages (hd (us_full a1)))")
      case True
      then obtain c cs where c: "us_full a1 = c # cs" "\<not> live_readers live (ck_pages c)"
        by (cases "us_full a1") auto
      have ra: "r = Some 0" "a' = a1\<lparr>us_active := Some c, us_full := cs, us_cursor := 0\<rparr>"
        using e True c by simp_all
      have "room_ok a' live 0 len" using c(2) len by (simp add: ra(2) room_ok_def live_readers_def)
      then show ?thesis using reuse_ok [OF ok1 na c] ra by simp
    next
      case False
      show ?thesis
      proof (cases "chunk_count a1 < MAX_CHUNKS \<and> alloc \<noteq> None")
        case True
        then obtain p where p: "alloc = Some p" by auto
        have ra: "r = Some 0" "a' = a1\<lparr>us_active := Some \<lparr>ck_pages = p, ck_last_seq = 0\<rparr>, us_cursor := 0\<rparr>"
          using e False True p by auto
        have np: "p \<notin> set (arena_pages a1)" "length (mem p) = CHUNK_BYTES" using alloc [OF p] pg by auto
        have nl: "\<forall>l\<in>set live. lv_pages l \<noteq> p" using ok1 np(1) by (auto simp: arena_ok_def live_ok_def)
        have "arena_ok a' mem live"
          using ok1 np True nl na unfolding ra(2)
          by (auto simp: arena_ok_def arena_pages_def chunk_count_def live_ok_def)
        moreover have "room_ok a' live 0 len" using nl len by (simp add: ra(2) room_ok_def)
        ultimately show ?thesis using ra by simp
      next
        case n: False
        then have "r = None" "a' = a1" using e False by (auto split: option.splits)
        then show ?thesis using ok1 by simp
      qed
    qed
  qed
qed

section \<open>Writing\<close>

lemma splice_at:
  assumes "start + length ys \<le> length pages"
  shows "take (length ys) (drop start (take start pages @ ys @ zs)) = ys"
  using assms by simp

lemma live_ok_write:
  assumes "live_ok a mem l" "us_active a = Some c" "start \<le> length (mem (ck_pages c))"
    and "lv_pages l = ck_pages c \<longrightarrow> lv_offset l + length (lv_bytes l) \<le> start"
    and "us_cursor a \<le> n \<or> lv_pages l \<noteq> ck_pages c \<or> start \<le> n"
  shows "live_ok (a\<lparr>us_active := Some (c\<lparr>ck_last_seq := q\<rparr>), us_cursor := n\<rparr>)
      (mem(ck_pages c := take start (mem (ck_pages c)) @ ys)) l"
    and "live_ok a (mem(ck_pages c := take start (mem (ck_pages c)) @ ys)) l"
  using assms by (auto simp: live_ok_def arena_pages_def drop_take min_absorb1)

lemma arena_ok_write:
  assumes ok: "arena_ok a mem live" and c: "us_active a = Some c"
    and room: "start + len \<le> CHUNK_BYTES" "16 dvd start"
      "\<forall>l\<in>set live. lv_pages l = ck_pages c \<longrightarrow> lv_offset l + length (lv_bytes l) \<le> start"
    and bytes: "length bytes = len"
  defines "pages \<equiv> mem (ck_pages c)"
  defines "mem' \<equiv> mem(ck_pages c := take start pages @ bytes @ drop (start + len) pages)"
  shows "arena_ok a mem' live"
    and "arena_ok (a\<lparr>us_active := Some (c\<lparr>ck_last_seq := q\<rparr>), us_cursor := start + len\<rparr>) mem'
           (\<lparr>lv_pages = ck_pages c, lv_offset = start, lv_bytes = bytes\<rparr> # live)"
proof -
  let ?a = "a\<lparr>us_active := Some (c\<lparr>ck_last_seq := q\<rparr>), us_cursor := start + len\<rparr>"
  have cp: "ck_pages c \<in> set (arena_pages a)" using c by (simp add: arena_pages_def)
  then have lp: "length pages = CHUNK_BYTES" using ok by (simp add: arena_ok_def pages_def)
  have l: "live_ok a mem' k" "live_ok ?a mem' k" if "k \<in> set live" for k
    using that ok room lp live_ok_write(1) [OF _ c, of mem k start "start + len" q "bytes @ drop (start + len) pages"]
      live_ok_write(2) [OF _ c, of mem k start "start + len" "bytes @ drop (start + len) pages"]
    by (auto simp: arena_ok_def mem'_def pages_def)
  have len': "length (mem' p) = CHUNK_BYTES" if "p \<in> set (arena_pages a)" for p
    using that ok room(1) bytes lp by (auto simp: mem'_def arena_ok_def)
  show "arena_ok a mem' live" using ok l(1) len' by (simp add: arena_ok_def)
  have pg: "arena_pages ?a = arena_pages a" "chunk_count ?a = chunk_count a"
    using c by (simp_all add: arena_pages_def chunk_count_def)
  have "live_ok ?a mem' \<lparr>lv_pages = ck_pages c, lv_offset = start, lv_bytes = bytes\<rparr>"
    using room bytes lp cp pg(1) by (simp add: live_ok_def mem'_def)
  then show "arena_ok ?a mem' (\<lparr>lv_pages = ck_pages c, lv_offset = start, lv_bytes = bytes\<rparr> # live)"
    using ok l(2) len' pg by (simp add: arena_ok_def)
qed

lemma arena_write_ok:
  assumes ok: "arena_ok a mem live" and fill: "\<forall>xs. length (snd (fill xs)) = length xs"
    and alloc: "\<And>p. alloc = Some p \<Longrightarrow> p \<notin> set (arena_pages a) \<and> length (mem p) = CHUNK_BYTES"
    and w: "arena_write (live_readers live) alloc fill len seq a mem = (r, a', mem')"
  shows "(r = None \<and> arena_ok a' mem' live) \<or>
    (\<exists>p start. let new = \<lparr>lv_pages = p, lv_offset = start, lv_bytes = take len (drop start (mem' p))\<rparr>
      in r = Some (p, start) \<and> arena_ok a' mem' (new # live) \<and> (\<forall>l\<in>set live. live_disjoint new l))"
proof (cases "len = 0 \<or> SNAPSHOT_MAX_BYTES < len")
  case True
  then show ?thesis using w ok by (auto simp: arena_write_def)
next
  case False
  then have len: "len \<le> CHUNK_BYTES" by (simp add: CHUNK_BYTES_def SNAPSHOT_MAX_BYTES_def)
  obtain r1 a1 where r1: "room_for (live_readers live) alloc a len = (r1, a1)" by force
  note room = room_for_ok [OF ok len alloc r1]
  show ?thesis
  proof (cases r1)
    case None
    then show ?thesis using w False r1 room by (simp add: arena_write_def)
  next
    case (Some start)
    then obtain c where c: "us_active a1 = Some c" and rm: "start + len \<le> CHUNK_BYTES" "16 dvd start"
      "\<forall>l\<in>set live. lv_pages l = ck_pages c \<longrightarrow> lv_offset l + length (lv_bytes l) \<le> start"
      using room by (auto simp: room_ok_def)
    have ok1: "arena_ok a1 mem live" using room by simp
    then have lp: "length (mem (ck_pages c)) = CHUNK_BYTES" using c by (simp add: arena_ok_def arena_pages_def)
    obtain good bytes where f: "fill (take len (drop start (mem (ck_pages c)))) = (good, bytes)" by force
    have lb: "length bytes = len"
      using fill [rule_format, of "take len (drop start (mem (ck_pages c)))"] f lp rm(1) by simp
    note aw = arena_ok_write [OF ok1 c rm lb]
    show ?thesis
    proof (cases good)
      case True
      let ?mem = "mem(ck_pages c := take start (mem (ck_pages c)) @ bytes @ drop (start + len) (mem (ck_pages c)))"
      have e: "r = Some (ck_pages c, start)" "mem' = ?mem"
        "a' = a1\<lparr>us_active := Some (c\<lparr>ck_last_seq := seq\<rparr>), us_cursor := start + len\<rparr>"
        using w False r1 Some c f True by (simp_all add: arena_write_def Let_def)
      have "take len (drop start (mem' (ck_pages c))) = bytes"
        using splice_at [of start bytes "mem (ck_pages c)"] lb lp rm(1) by (simp add: e(2))
      then show ?thesis
        using aw(2) [of seq] e rm(3) by (auto simp: Let_def live_disjoint_def)
    next
      case bad: False
      then show ?thesis using w False r1 Some c f aw(1) by (auto simp: arena_write_def Let_def)
    qed
  qed
qed

interpretation arena: step_invariant ar_init ar_step ar_inv
proof
  show "ar_inv s" if "ar_init s" for s
    using that by (simp add: ar_init_def ar_inv_def arena_ok_def snapshots_default_def arena_pages_def chunk_count_def)
next
  fix s t assume inv: "ar_inv s" and st: "ar_step s t"
  from st show "ar_inv t"
  proof cases
    case (ar_write alloc mem fill len seq r a mem' live)
    have al: "p \<notin> set (arena_pages (as_arena s)) \<and> length (mem p) = CHUNK_BYTES" if "alloc = Some p" for p
      using ar_write(2) that by (simp add: fresh_chunk_def)
    have "mem p = as_mem s p" if "p \<in> set (arena_pages (as_arena s))" for p
      using ar_write(2) that by (auto simp: fresh_chunk_def split: option.splits)
    then have ok: "arena_ok (as_arena s) mem (as_live s)"
      using inv by (auto simp: ar_inv_def arena_ok_def live_ok_def)
    show ?thesis
      using arena_write_ok [OF ok ar_write(3) al ar_write(4)] inv ar_write(1,5)
      by (auto simp: ar_inv_def Let_def)
  next
    case (ar_drop xs l ys)
    then show ?thesis using inv by (auto simp: ar_inv_def arena_ok_def sorted_wrt_append)
  next
    case (ar_note_wait seq)
    then show ?thesis
      using inv by (simp add: ar_inv_def arena_ok_def note_wait_def arena_pages_def chunk_count_def live_ok_def
          split: option.splits)
  qed
qed

text \<open>
  C5. A snapshot keeps its bytes for as long as it is read. In every run of the arena, with any
  fills, failed allocations, drops and waits, each live snapshot still holds exactly the bytes its
  fill wrote, starts on a 16-byte boundary and ends inside its chunk; no two live snapshots
  overlap; and the arena never holds more than 64 chunks.
\<close>

theorem live_snapshots_stable:
  assumes "reach ar_init ar_step s"
  shows "(\<forall>l\<in>set (as_live s). take (length (lv_bytes l)) (drop (lv_offset l) (as_mem s (lv_pages l))) = lv_bytes l
      \<and> 16 dvd lv_offset l \<and> lv_offset l + length (lv_bytes l) \<le> CHUNK_BYTES)
    \<and> sorted_wrt live_disjoint (as_live s) \<and> chunk_count (as_arena s) \<le> MAX_CHUNKS"
  using arena.reach_inv [OF assms] by (auto simp: ar_inv_def arena_ok_def live_ok_def)

text \<open>The first snapshot of a run: four bytes at the start of a fresh chunk.\<close>

definition demo_fill :: "u8 list \<Rightarrow> bool \<times> u8 list" where
  "demo_fill xs = (True, map (\<lambda>_. 7) xs)"

definition demo_arena :: ar_state where
  "demo_arena = \<lparr>as_arena = \<lparr>us_active = Some \<lparr>ck_pages = 0, ck_last_seq = 9\<rparr>, us_cursor = 4, us_full = [],
       us_waited_through = 0\<rparr>,
     as_mem = (\<lambda>_. [])(0 := [7, 7, 7, 7] @ replicate (CHUNK_BYTES - 4) 0),
     as_live = [\<lparr>lv_pages = 0, lv_offset = 0, lv_bytes = [7, 7, 7, 7]\<rparr>]\<rparr>"

lemma demo_arena_step:
  "ar_step \<lparr>as_arena = snapshots_default, as_mem = \<lambda>_. [], as_live = []\<rparr> demo_arena"
proof -
  let ?s = "\<lparr>as_arena = snapshots_default, as_mem = \<lambda>_. [], as_live = []\<rparr>"
  let ?m = "(\<lambda>_. [] :: u8 list)(0 := replicate CHUNK_BYTES 0)"
  have "fresh_chunk ?s (Some 0) ?m" by (simp add: fresh_chunk_def snapshots_default_def arena_pages_def)
  moreover have "\<forall>xs. length (snd (demo_fill xs)) = length xs" by (simp add: demo_fill_def)
  moreover have "arena_write (live_readers []) (Some 0) demo_fill 4 9 snapshots_default ?m
      = (Some (0, 0), as_arena demo_arena, as_mem demo_arena)"
  proof -
    have "room_for (live_readers []) (Some 0) snapshots_default 4
        = (Some 0, snapshots_default\<lparr>us_active := Some \<lparr>ck_pages = 0, ck_last_seq = 0\<rparr>\<rparr>)"
      by (simp add: room_for_def snapshots_default_def retire_active_def chunk_count_def MAX_CHUNKS_def)
    moreover have "min 4 CHUNK_BYTES = 4" by (simp add: CHUNK_BYTES_def)
    moreover have "replicate 4 (7::u8) = [7, 7, 7, 7]" by (simp add: eval_nat_numeral)
    ultimately show ?thesis
      by (simp add: arena_write_def SNAPSHOT_MAX_BYTES_def demo_fill_def demo_arena_def map_replicate_const
          snapshots_default_def)
  qed
  ultimately show ?thesis
    using ar_write [of ?s "Some 0" ?m demo_fill 4 9 "Some (0, 0)" "as_arena demo_arena" "as_mem demo_arena"
        "as_live demo_arena"]
    by (simp add: demo_arena_def)
qed

theorem live_snapshots_stable_witness:
  "take 4 (as_mem demo_arena 0) = [7, 7, 7, 7] \<and> chunk_count (as_arena demo_arena) \<le> MAX_CHUNKS"
proof -
  have "ar_init \<lparr>as_arena = snapshots_default, as_mem = \<lambda>_. [], as_live = []\<rparr>" by (simp add: ar_init_def)
  then have "reach ar_init ar_step demo_arena" using reach_init reach_step demo_arena_step by metis
  from live_snapshots_stable [OF this] show ?thesis by (simp add: demo_arena_def)
qed

end
