(* ===== verification/Level_Authority.thy ===== *)
theory Level_Authority
  imports Prelude
begin

text \<open>
  \<^verbatim>\<open>src/windows/core/src/level_authority.rs\<close>: which copy of a texture subresource, the CPU
  staging or the Metal texture, holds the pixels the subresource is defined by. Six 32-bit masks,
  one per cube face, refine the set of subresources only the GPU holds.
\<close>

datatype write_plan = WriteStaging | ReadBackFirst | Overwrite

definition FACE_COUNT :: u32 where
  "FACE_COUNT = 6"

record level_authority_mask =
  la_gpu :: "u32 list"

definition authority_new :: level_authority_mask where
  "authority_new = \<lparr>la_gpu = replicate (unat FACE_COUNT) 0\<rparr>"

definition authority_in_range :: "u32 \<Rightarrow> nat \<Rightarrow> bool" where
  "authority_in_range face level \<longleftrightarrow> face < FACE_COUNT \<and> level < 32"

definition gpu_wrote :: "level_authority_mask \<Rightarrow> u32 \<Rightarrow> nat \<Rightarrow> level_authority_mask" where
  "gpu_wrote m face level =
     (if authority_in_range face level
      then m\<lparr>la_gpu := (la_gpu m)[unat face := la_gpu m ! unat face OR push_bit level 1]\<rparr> else m)"

definition gpu_holds :: "level_authority_mask \<Rightarrow> u32 \<Rightarrow> nat \<Rightarrow> bool" where
  "gpu_holds m face level \<longleftrightarrow>
     authority_in_range face level \<and> la_gpu m ! unat face AND push_bit level 1 \<noteq> 0"

definition plan_write :: "level_authority_mask \<Rightarrow> u32 \<Rightarrow> nat \<Rightarrow> bool \<Rightarrow> write_plan" where
  "plan_write m face level whole_level =
     (if \<not> gpu_holds m face level then WriteStaging
      else if whole_level then Overwrite else ReadBackFirst)"

definition staging_wrote :: "level_authority_mask \<Rightarrow> u32 \<Rightarrow> nat \<Rightarrow> level_authority_mask" where
  "staging_wrote m face level =
     (if authority_in_range face level
      then m\<lparr>la_gpu := (la_gpu m)[unat face := la_gpu m ! unat face AND NOT (push_bit level 1)]\<rparr> else m)"

section \<open>The masks refine a set of subresources\<close>

definition authority_ok :: "level_authority_mask \<Rightarrow> bool" where
  "authority_ok m \<longleftrightarrow> length (la_gpu m) = 6"

definition gpu_only :: "level_authority_mask \<Rightarrow> (u32 \<times> nat) set" where
  "gpu_only m = {(f, l). gpu_holds m f l}"

lemma range_face: "authority_in_range f l \<Longrightarrow> unat f < 6"
  by (simp add: authority_in_range_def FACE_COUNT_def word_less_nat_alt)

lemma gpu_holds_bit: "gpu_holds m f l \<longleftrightarrow> authority_in_range f l \<and> bit (la_gpu m ! unat f) l"
  by (auto simp: gpu_holds_def authority_in_range_def push_bit_eq_mult and_exp_eq_0_iff_not_bit)

lemma face_eq: "unat f = unat g \<longleftrightarrow> (f::u32) = g"
  by (simp add: word_unat_eq_iff)

lemma gpu_wrote_refines:
  assumes "authority_ok m"
  shows "authority_ok (gpu_wrote m f l)"
    and "gpu_only (gpu_wrote m f l) = gpu_only m \<union> (if authority_in_range f l then {(f, l)} else {})"
  using assms range_face [of f l]
  by (auto simp: authority_ok_def gpu_wrote_def gpu_only_def gpu_holds_bit nth_list_update face_eq
      bit_or_iff push_bit_eq_mult bit_exp_iff authority_in_range_def
      split: if_splits)

lemma staging_wrote_refines:
  assumes "authority_ok m"
  shows "authority_ok (staging_wrote m f l)"
    and "gpu_only (staging_wrote m f l) = gpu_only m - {(f, l)}"
  using assms range_face [of f l]
  by (auto simp: authority_ok_def staging_wrote_def gpu_only_def gpu_holds_bit nth_list_update face_eq
      bit_and_iff bit_not_iff push_bit_eq_mult bit_exp_iff authority_in_range_def
      split: if_splits)

lemma authority_new_refines: "authority_ok authority_new" "gpu_only authority_new = {}"
  using range_face
  by (auto simp: authority_ok_def authority_new_def FACE_COUNT_def gpu_only_def gpu_holds_bit)

text \<open>A history of one texture, and who wrote a subresource last.\<close>

datatype authority_op = GpuWrote u32 nat | StagingWrote u32 nat

definition authority_apply :: "level_authority_mask \<Rightarrow> authority_op \<Rightarrow> level_authority_mask" where
  "authority_apply m oper = (case oper of GpuWrote f l \<Rightarrow> gpu_wrote m f l | StagingWrote f l \<Rightarrow> staging_wrote m f l)"

definition gpu_wrote_last :: "authority_op list \<Rightarrow> u32 \<Rightarrow> nat \<Rightarrow> bool" where
  "gpu_wrote_last ops f l \<longleftrightarrow>
     (case filter (\<lambda>oper. oper = GpuWrote f l \<or> oper = StagingWrote f l) (rev ops) of
        [] \<Rightarrow> False | oper # _ \<Rightarrow> oper = GpuWrote f l)"

lemma authority_history:
  "authority_ok (foldl authority_apply authority_new ops)
   \<and> gpu_only (foldl authority_apply authority_new ops)
     = {(f, l). authority_in_range f l \<and> gpu_wrote_last ops f l}"
proof (induction ops rule: rev_induct)
  case Nil
  then show ?case by (simp add: authority_new_refines gpu_wrote_last_def)
next
  case (snoc x ops)
  then show ?case
    by (cases x) (auto simp: authority_apply_def gpu_wrote_refines staging_wrote_refines gpu_wrote_last_def)
qed

text \<open>
  C25. After any history of GPU and staging writes, a CPU write of a subresource is planned from who
  wrote it last: a subresource the GPU wrote last is read back first unless the write covers it
  whole, and any other one is written into its staging. Writes of other subresources, of other
  faces, and out-of-range ones change nothing.
\<close>

theorem write_plan_by_last_writer:
  "plan_write (foldl authority_apply authority_new ops) f l whole =
     (if authority_in_range f l \<and> gpu_wrote_last ops f l
      then (if whole then Overwrite else ReadBackFirst) else WriteStaging)"
proof -
  have "gpu_holds (foldl authority_apply authority_new ops) f l
      \<longleftrightarrow> authority_in_range f l \<and> gpu_wrote_last ops f l"
    using authority_history [of ops] by (auto simp: gpu_only_def)
  then show ?thesis by (simp add: plan_write_def)
qed

end
