(* ===== verification/Ordered_Map.thy ===== *)
theory Ordered_Map
  imports Prelude
begin

text \<open>
  \<^verbatim>\<open>BTreeMap\<close> of the Rust standard library as its list of entries in key order: \<^verbatim>\<open>insert\<close>,
  \<^verbatim>\<open>entry(k).or_insert(d)\<close> and the update of a value in place, with their lookup laws.
\<close>

fun bt_insert :: "'k::linorder \<Rightarrow> 'v \<Rightarrow> ('k \<times> 'v) list \<Rightarrow> ('k \<times> 'v) list" where
  "bt_insert k v [] = [(k, v)]"
| "bt_insert k v ((k', w) # m) =
     (if k = k' then (k, v) # m else if k < k' then (k, v) # (k', w) # m else (k', w) # bt_insert k v m)"

fun bt_entry :: "'k::linorder \<Rightarrow> 'v \<Rightarrow> ('k \<times> 'v) list \<Rightarrow> ('k \<times> 'v) list" where
  "bt_entry k d [] = [(k, d)]"
| "bt_entry k d ((k', w) # m) =
     (if k = k' then (k', w) # m else if k < k' then (k, d) # (k', w) # m else (k', w) # bt_entry k d m)"

fun bt_modify :: "'k \<Rightarrow> ('v \<Rightarrow> 'v) \<Rightarrow> ('k \<times> 'v) list \<Rightarrow> ('k \<times> 'v) list" where
  "bt_modify k f [] = []"
| "bt_modify k f ((k', w) # m) = (if k = k' then (k', f w) # m else (k', w) # bt_modify k f m)"

definition bt_ok :: "('k::linorder \<times> 'v) list \<Rightarrow> bool" where
  "bt_ok m \<longleftrightarrow> sorted_wrt (<) (map fst m)"

lemma bt_ok_simps [simp]: "bt_ok []" "bt_ok ((k, v) # m) \<longleftrightarrow> (\<forall>x\<in>fst ` set m. k < x) \<and> bt_ok m"
  by (simp_all add: bt_ok_def)

lemma bt_ok_distinct: "bt_ok m \<Longrightarrow> distinct (map fst m)"
  by (simp add: bt_ok_def strict_sorted_iff)

lemma bt_insert_keys: "fst ` set (bt_insert k v m) = insert k (fst ` set m)"
  by (induction k v m rule: bt_insert.induct) auto

lemma bt_entry_keys: "fst ` set (bt_entry k d m) = insert k (fst ` set m)"
  by (induction k d m rule: bt_entry.induct) auto

lemma bt_modify_keys: "map fst (bt_modify k f m) = map fst m"
  by (induction k f m rule: bt_modify.induct) auto

lemma bt_modify_key_set: "fst ` set (bt_modify k f m) = fst ` set m"
  by (metis bt_modify_keys list.set_map)

lemma bt_insert_ok: "bt_ok m \<Longrightarrow> bt_ok (bt_insert k v m)"
proof (induction k v m rule: bt_insert.induct)
  case (2 k v k' w m)
  then show ?case
    by (cases k k' rule: linorder_cases) (auto simp: bt_insert_keys dest: order.strict_trans)
qed simp

lemma bt_entry_ok: "bt_ok m \<Longrightarrow> bt_ok (bt_entry k d m)"
proof (induction k d m rule: bt_entry.induct)
  case (2 k d k' w m)
  then show ?case
    by (cases k k' rule: linorder_cases) (auto simp: bt_entry_keys dest: order.strict_trans)
qed simp

lemma bt_modify_ok: "bt_ok m \<Longrightarrow> bt_ok (bt_modify k f m)"
  by (simp add: bt_ok_def bt_modify_keys)

lemma bt_lookup_above: "bt_ok ((k', w) # m) \<Longrightarrow> k < k' \<Longrightarrow> map_of m k = None"
  by (auto simp: map_of_eq_None_iff)

lemma bt_insert_lookup: "bt_ok m \<Longrightarrow> map_of (bt_insert k v m) = (map_of m)(k \<mapsto> v)"
  by (induction k v m rule: bt_insert.induct) auto

lemma bt_entry_lookup:
  "bt_ok m \<Longrightarrow> map_of (bt_entry k d m) = (map_of m)(k \<mapsto> case map_of m k of None \<Rightarrow> d | Some v \<Rightarrow> v)"
proof (induction k d m rule: bt_entry.induct)
  case (2 k d k' w m)
  consider "k = k'" | "k < k'" | "k' < k" by fastforce
  then show ?case
  proof cases
    case 2
    with bt_lookup_above [OF "2.prems"] show ?thesis by auto
  qed (use 2 in auto)
qed simp

lemma bt_modify_lookup:
  "map_of m k = Some v \<Longrightarrow> map_of (bt_modify k f m) = (map_of m)(k \<mapsto> f v)"
  by (induction k f m rule: bt_modify.induct) (auto split: if_splits)

text \<open>Values: what an update can put into the map.\<close>

lemma bt_insert_values: "snd ` set (bt_insert k v m) \<subseteq> insert v (snd ` set m)"
  by (induction k v m rule: bt_insert.induct) auto

lemma bt_entry_values: "snd ` set (bt_entry k d m) \<subseteq> insert d (snd ` set m)"
  by (induction k d m rule: bt_entry.induct) auto

lemma bt_modify_values:
  "\<forall>v\<in>snd ` set m. P v \<Longrightarrow> (\<And>v. P v \<Longrightarrow> P (f v)) \<Longrightarrow> \<forall>v\<in>snd ` set (bt_modify k f m). P v"
  by (induction k f m rule: bt_modify.induct) auto

end
