(* ===== verification/Dxso_IR.thy ===== *)
theory Dxso_IR
  imports Ordered_Map
begin

text \<open>
  \<^verbatim>\<open>src/windows/core/src/dxso/opcode.rs\<close> and \<^verbatim>\<open>ir.rs\<close>: the opcodes of Direct3D 9 shader bytecode
  and the intermediate representation the parser builds, with the questions the device asks of a
  program. A float immediate is its 32-bit pattern (\<^verbatim>\<open>f32::from_bits\<close> is a bijection), an \<^verbatim>\<open>i32\<close>
  or \<^verbatim>\<open>i8\<close> is a word in two's complement, and a \<^verbatim>\<open>BTreeMap\<close> is its list of entries in key order.
\<close>

section \<open>Opcodes\<close>

datatype (plugins only: size) opcode =
    OpNop
  | OpMov | OpAdd | OpSub | OpMad | OpMul | OpRcp | OpRsq | OpDp3 | OpDp4 | OpMin | OpMax
  | OpSlt | OpSge | OpExp | OpLog | OpLit | OpDst | OpLrp | OpFrc | OpM4x4 | OpM4x3 | OpM3x4
  | OpM3x3 | OpM3x2 | OpCall | OpCallNz | OpLoop | OpRet | OpEndLoop | OpLabel | OpDcl | OpPow
  | OpCrs | OpSgn | OpAbs | OpNrm | OpSinCos | OpRep | OpEndRep | OpIf | OpIfc | OpElse
  | OpEndIf | OpBreak | OpBreakC | OpMovA | OpDefB | OpDefI | OpTexCoord | OpTexKill | OpTexLd
  | OpTexBem | OpTexBemL | OpTexReg2Ar | OpTexReg2Gb | OpTexM3x2Pad | OpTexM3x2Tex
  | OpTexM3x3Pad | OpTexM3x3Tex | OpTexM3x3Spec | OpTexM3x3VSpec | OpTexReg2Rgb | OpTexDp3Tex
  | OpTexM3x2Depth | OpTexDp3 | OpTexM3x3 | OpTexDepth | OpBem | OpExpP | OpLogP | OpCnd
  | OpDef | OpCmp | OpDp2Add | OpDsx | OpDsy | OpTexLdD | OpSetP | OpTexLdL | OpBreakP
  | OpPhase | OpEnd | OpComment

text \<open>The numeric values, \<^verbatim>\<open>Opcode::from_u16\<close>.\<close>

definition opcode_table :: "(u16 \<times> opcode) list" where
  "opcode_table =
    [(0, OpNop), (1, OpMov), (2, OpAdd), (3, OpSub), (4, OpMad), (5, OpMul), (6, OpRcp),
     (7, OpRsq), (8, OpDp3), (9, OpDp4), (10, OpMin), (11, OpMax), (12, OpSlt), (13, OpSge),
     (14, OpExp), (15, OpLog), (16, OpLit), (17, OpDst), (18, OpLrp), (19, OpFrc),
     (20, OpM4x4), (21, OpM4x3), (22, OpM3x4), (23, OpM3x3), (24, OpM3x2), (25, OpCall),
     (26, OpCallNz), (27, OpLoop), (28, OpRet), (29, OpEndLoop), (30, OpLabel), (31, OpDcl),
     (32, OpPow), (33, OpCrs), (34, OpSgn), (35, OpAbs), (36, OpNrm), (37, OpSinCos),
     (38, OpRep), (39, OpEndRep), (40, OpIf), (41, OpIfc), (42, OpElse), (43, OpEndIf),
     (44, OpBreak), (45, OpBreakC), (46, OpMovA), (47, OpDefB), (48, OpDefI),
     (64, OpTexCoord), (65, OpTexKill), (66, OpTexLd), (67, OpTexBem), (68, OpTexBemL),
     (69, OpTexReg2Ar), (70, OpTexReg2Gb), (71, OpTexM3x2Pad), (72, OpTexM3x2Tex),
     (73, OpTexM3x3Pad), (74, OpTexM3x3Tex), (76, OpTexM3x3Spec), (77, OpTexM3x3VSpec),
     (78, OpExpP), (79, OpLogP), (80, OpCnd), (81, OpDef), (82, OpTexReg2Rgb),
     (83, OpTexDp3Tex), (84, OpTexM3x2Depth), (85, OpTexDp3), (86, OpTexM3x3),
     (87, OpTexDepth), (88, OpCmp), (89, OpBem), (90, OpDp2Add), (91, OpDsx), (92, OpDsy),
     (93, OpTexLdD), (94, OpSetP), (95, OpTexLdL), (96, OpBreakP), (0xFFFD, OpPhase),
     (0xFFFE, OpComment), (0xFFFF, OpEnd)]"

definition opcode_from_u16 :: "u16 \<Rightarrow> opcode option" where
  "opcode_from_u16 v = map_of opcode_table v"

definition has_destination :: "opcode \<Rightarrow> bool" where
  "has_destination op \<longleftrightarrow> op \<in> set
    [OpMov, OpMovA, OpAdd, OpSub, OpMad, OpMul, OpRcp, OpRsq, OpDp3, OpDp4, OpMin, OpMax,
     OpSlt, OpSge, OpExp, OpLog, OpLit, OpDst, OpLrp, OpFrc, OpM4x4, OpM4x3, OpM3x4, OpM3x3,
     OpM3x2, OpPow, OpCrs, OpSgn, OpAbs, OpNrm, OpSinCos, OpCnd, OpCmp, OpDp2Add, OpDsx,
     OpDsy, OpTexLd, OpTexLdL, OpTexLdD, OpTexKill, OpTexCoord, OpTexBem, OpTexBemL,
     OpTexReg2Ar, OpTexReg2Gb, OpTexReg2Rgb, OpTexM3x2Pad, OpTexM3x2Tex, OpTexM3x2Depth,
     OpTexM3x3Pad, OpTexM3x3Tex, OpTexM3x3, OpTexM3x3Spec, OpTexM3x3VSpec, OpTexDp3,
     OpTexDp3Tex, OpTexDepth, OpBem, OpExpP, OpLogP, OpSetP]"

section \<open>Operands, instructions, programs\<close>

datatype shader_type = VertexShader | PixelShader

datatype reg_kind =
    RTemp | RInput | RConst | RAddr | RRastOut | RAttrOut | RTexcoordOut | RConstInt | RColorOut
  | RDepthOut | RSampler | ROutput | RConstBool | RLoop | RTempFloat16 | RMiscType | RLabel
  | RPredicate

record dx_register =
  rk_kind :: reg_kind
  rk_index :: u16

datatype texture_type = TexUnknown | Texture2D | TextureCube | Texture3D

datatype decl_usage =
    DuPosition | DuBlendWeight | DuBlendIndices | DuNormal | DuPSize | DuTexcoord | DuTangent
  | DuBinormal | DuTessFactor | DuPositionT | DuColor | DuFog | DuDepth | DuSample

datatype dx_declaration =
    DeclSemantic decl_usage u32 dx_register u8
  | DeclSampler texture_type dx_register

record def_constant =
  dc_reg :: dx_register
  dc_value :: "u32 list"

record def_int_constant =
  di_reg :: dx_register
  di_value :: "u32 list"

record def_bool_constant =
  db_reg :: dx_register
  db_value :: bool

datatype src_modifier =
    SmNone | SmNeg | SmBias | SmBiasNeg | SmSign | SmSignNeg | SmComp | SmX2 | SmX2Neg | SmDz | SmDw
  | SmAbs | SmAbsNeg | SmNot

type_synonym swizzle = "u8 list"

record relative_addr =
  ra_reg :: dx_register
  ra_swizzle :: swizzle

definition DST_SATURATE :: u8 where "DST_SATURATE = 1"
definition DST_PARTIAL_PRECISION :: u8 where "DST_PARTIAL_PRECISION = 2"
definition DST_CENTROID :: u8 where "DST_CENTROID = 4"

record dst_operand =
  dst_reg :: dx_register
  dst_write_mask :: u8
  dst_mods :: u8
  dst_shift_scale :: u8

record src_operand =
  src_reg :: dx_register
  src_swizzle :: swizzle
  src_mod :: src_modifier
  src_rel_addr :: "relative_addr option"

datatype cmp_func = CmpGt | CmpEq | CmpGe | CmpLt | CmpNe | CmpLe

definition cmp_from_raw :: "u8 \<Rightarrow> cmp_func option" where
  "cmp_from_raw raw =
     map_of [(1, CmpGt), (2, CmpEq), (3, CmpGe), (4, CmpLt), (5, CmpNe), (6, CmpLe)] raw"

definition INSTR_PREDICATED :: u8 where "INSTR_PREDICATED = 1"
definition INSTR_TEX_PROJECTED :: u8 where "INSTR_TEX_PROJECTED = 2"
definition INSTR_COISSUE :: u8 where "INSTR_COISSUE = 4"
definition INSTR_TEX_BIASED :: u8 where "INSTR_TEX_BIASED = 8"

record instruction =
  in_opcode :: opcode
  in_dst :: "dst_operand option"
  in_srcs :: "src_operand list"
  in_flags :: u8
  in_predicate :: "src_operand option"
  in_cmp_func :: "cmp_func option"

record dxso_program =
  dp_bytecode :: "u32 list"
  dp_shader_type :: shader_type
  dp_major :: u8
  dp_minor :: u8
  dp_declarations :: "dx_declaration list"
  dp_def_constants :: "def_constant list"
  dp_def_int_constants :: "def_int_constant list"
  dp_def_bool_constants :: "def_bool_constant list"
  dp_instructions :: "instruction list"
  dp_subroutines :: "(u32 \<times> instruction list) list"

datatype dxso_error =
    Truncated
  | InvalidHeader
  | UnsupportedShaderModel u8 u8
  | UnknownOpcode u16
  | UnknownRegisterType u32
  | UnsupportedRelativeAddressing
  | UnknownDeclUsage u8

section \<open>Questions about a program\<close>

definition all_instructions :: "dxso_program \<Rightarrow> instruction list" where
  "all_instructions p = dp_instructions p @ concat (map snd (dp_subroutines p))"

definition has_invalid_pixel_input_decl :: "dxso_program \<Rightarrow> bool" where
  "has_invalid_pixel_input_decl p =
     (if dp_shader_type p \<noteq> PixelShader \<or> dp_major p < 3 then False
      else list_ex (\<lambda>d. case d of
             DeclSemantic u i r m \<Rightarrow> u = DuPosition \<and> i = 0 \<and> rk_kind r = RInput
           | DeclSampler t r \<Rightarrow> False) (dp_declarations p))"

text \<open>\<^verbatim>\<open>max\<close> over an iterator: nothing for an empty one.\<close>

definition list_max :: "u16 list \<Rightarrow> u16 option" where
  "list_max xs = (if xs = [] then None else Some (Max (set xs)))"

definition matrix_rows :: "opcode \<Rightarrow> nat option \<times> u16" where
  "matrix_rows op =
     (if op \<in> {OpM4x4, OpM3x4} then (Some 1, 4)
      else if op \<in> {OpM4x3, OpM3x3} then (Some 1, 3)
      else if op = OpM3x2 then (Some 1, 2) else (None, 1))"

text \<open>The last row each counted source reads, in the order of the two loops.\<close>

definition src_top :: "u16 set \<Rightarrow> instruction \<Rightarrow> nat \<Rightarrow> src_operand \<Rightarrow> u16 list" where
  "src_top defined inst i src =
     (let (mat_src_idx, mat_rows) = matrix_rows (in_opcode inst);
          span = (if mat_src_idx = Some i then mat_rows else 1)
      in if rk_kind (src_reg src) \<noteq> RConst then []
         else if span = 1 \<and> src_rel_addr src = None \<and> rk_index (src_reg src) \<in> defined then []
         else [rk_index (src_reg src) + span - 1])"

definition const_tops :: "dxso_program \<Rightarrow> u16 list" where
  "const_tops p =
     (let defined = set (map (\<lambda>d. rk_index (dc_reg d)) (dp_def_constants p))
      in concat (map (\<lambda>inst. concat (map (\<lambda>(i, src). src_top defined inst i src)
                                       (enumerate 0 (in_srcs inst))))
                   (all_instructions p)))"

definition max_const_reg :: "dxso_program \<Rightarrow> u16 option" where
  "max_const_reg p = list_max (const_tops p)"

definition max_const_index :: "dxso_program \<Rightarrow> reg_kind \<Rightarrow> u16 option" where
  "max_const_index p kind =
     (let srcs = map (\<lambda>s. rk_index (src_reg s))
                   (filter (\<lambda>s. rk_kind (src_reg s) = kind) (concat (map in_srcs (all_instructions p))));
          defs = (if kind = RConstInt then map (\<lambda>d. rk_index (di_reg d)) (dp_def_int_constants p)
                  else if kind = RConstBool then map (\<lambda>d. rk_index (db_reg d)) (dp_def_bool_constants p)
                  else [])
      in list_max (srcs @ defs))"

definition float_limit :: "dxso_program \<Rightarrow> u16" where
  "float_limit p = (if dp_shader_type p = VertexShader then 256
                    else if dp_major p \<le> 1 then 8 else if dp_major p = 2 then 32 else 224)"

definition int_bool_limit :: "dxso_program \<Rightarrow> u16" where
  "int_bool_limit p =
     (let has_int_bool_files = (if dp_shader_type p = VertexShader then 2 \<le> dp_major p
                                else 2 < dp_major p \<or> dp_major p = 2 \<and> 1 \<le> dp_minor p)
      in if has_int_bool_files then 16 else 0)"

definition over_limit :: "u16 option \<Rightarrow> u16 \<Rightarrow> bool" where
  "over_limit m limit = (case m of None \<Rightarrow> False | Some m \<Rightarrow> limit \<le> m)"

definition violates_constant_register_limits :: "dxso_program \<Rightarrow> bool" where
  "violates_constant_register_limits p =
     (let float_max = list_max ((case max_const_reg p of Some m \<Rightarrow> [m] | None \<Rightarrow> [])
                                @ map (\<lambda>d. rk_index (dc_reg d)) (dp_def_constants p))
      in over_limit float_max (float_limit p)
         \<or> over_limit (max_const_index p RConstInt) (int_bool_limit p)
         \<or> over_limit (max_const_index p RConstBool) (int_bool_limit p))"

definition uses_relative_const_addressing :: "dxso_program \<Rightarrow> bool" where
  "uses_relative_const_addressing p =
     list_ex (\<lambda>inst. list_ex (\<lambda>s. rk_kind (src_reg s) = RConst \<and> src_rel_addr s \<noteq> None) (in_srcs inst))
       (all_instructions p)"

definition reads_vpos :: "dxso_program \<Rightarrow> bool" where
  "reads_vpos p =
     list_ex (\<lambda>d. case d of DeclSemantic u i r m \<Rightarrow> rk_kind r = RMiscType \<and> rk_index r = 0
                   | DeclSampler t r \<Rightarrow> False) (dp_declarations p)"

definition uses_dynamic_int_constants :: "dxso_program \<Rightarrow> bool" where
  "uses_dynamic_int_constants p =
     (let defined = set (map (\<lambda>d. rk_index (di_reg d)) (dp_def_int_constants p))
      in list_ex (\<lambda>inst. list_ex (\<lambda>s. rk_kind (src_reg s) = RConstInt \<and> rk_index (src_reg s) \<notin> defined)
                     (in_srcs inst)) (all_instructions p))"

definition uses_dynamic_bool_constants :: "dxso_program \<Rightarrow> bool" where
  "uses_dynamic_bool_constants p =
     (let defined = set (map (\<lambda>d. rk_index (db_reg d)) (dp_def_bool_constants p))
      in list_ex (\<lambda>inst. list_ex (\<lambda>s. rk_kind (src_reg s) = RConstBool \<and> rk_index (src_reg s) \<notin> defined)
                     (in_srcs inst)) (all_instructions p))"

definition uses_bump_env :: "dxso_program \<Rightarrow> bool" where
  "uses_bump_env p = list_ex (\<lambda>inst. in_opcode inst \<in> {OpTexBem, OpTexBemL, OpBem}) (dp_instructions p)"

definition color_out_mask :: "dxso_program \<Rightarrow> u8" where
  "color_out_mask p =
     (if dp_shader_type p \<noteq> PixelShader \<or> dp_major p < 2 then 1
      else foldl (\<lambda>mask inst. case in_dst inst of
               None \<Rightarrow> mask
             | Some d \<Rightarrow> if rk_kind (dst_reg d) \<noteq> RColorOut then mask
                         else if rk_index (dst_reg d) \<le> 3
                         then mask OR push_bit (unat (rk_index (dst_reg d))) 1 else mask)
             0 (all_instructions p))"

end
