(* ===== verification/Dxso_Parser.thy ===== *)
theory Dxso_Parser
  imports Dxso_IR
begin

text \<open>
  \<^verbatim>\<open>src/windows/core/src/dxso/parser.rs\<close>: Direct3D 9 shader bytecode to the representation of
  \<open>Dxso_IR\<close>, and \<^verbatim>\<open>read_shader_bytecode\<close> of \<^verbatim>\<open>src/windows/d3d9/src/device.rs\<close>, which finds the
  end of a token stream the application passed as a bare pointer.

  The position in the bytecode is the list of tokens from that position on. Every \<^verbatim>\<open>?\<close> and early
  return of the source is the left injection of the result. The loops are total: each token the
  parser looks at is consumed.
\<close>

section \<open>Operand decoding\<close>

definition reg_table :: "(u32 \<times> reg_kind) list" where
  "reg_table = [(0, RTemp), (1, RInput), (2, RConst), (3, RAddr), (4, RRastOut), (5, RAttrOut),
     (6, RTexcoordOut), (7, RConstInt), (8, RColorOut), (9, RDepthOut), (10, RSampler),
     (11, ROutput), (14, RConstBool), (15, RLoop), (16, RTempFloat16), (17, RMiscType),
     (18, RLabel), (19, RPredicate)]"

definition decode_reg_type :: "u32 \<Rightarrow> dxso_error + reg_kind" where
  "decode_reg_type token =
     (let low = drop_bit 28 token AND 0x7;
          high = drop_bit 11 token AND 0x3;
          full = low OR push_bit 3 high
      in case map_of reg_table full of
           Some k \<Rightarrow> Inr k
         | None \<Rightarrow> Inl (UnknownRegisterType full))"

text \<open>\<^verbatim>\<open>bitflags\<close>' \<^verbatim>\<open>set\<close>.\<close>

definition flag_set :: "u8 \<Rightarrow> u8 \<Rightarrow> bool \<Rightarrow> u8" where
  "flag_set flags m on = (if on then flags OR m else flags AND NOT m)"

definition decode_dst :: "u32 list \<Rightarrow> dxso_error + (dst_operand \<times> nat)" where
  "decode_dst ts =
     (case ts of
        [] \<Rightarrow> Inl Truncated
      | tok # _ \<Rightarrow>
          if tok AND push_bit 13 1 \<noteq> 0 then Inl UnsupportedRelativeAddressing
          else (case decode_reg_type tok of
                  Inl e \<Rightarrow> Inl e
                | Inr kind \<Rightarrow>
                    (let write_mask = ucast (drop_bit 16 tok AND 0xF) :: u8;
                         result_mod = drop_bit 20 tok AND 0xF;
                         shift_raw = ucast (drop_bit 24 tok AND 0xF) :: u8;
                         shift_scale = (if shift_raw AND 0x8 \<noteq> 0 then shift_raw - 16 else shift_raw);
                         mods = flag_set (flag_set (flag_set 0 DST_SATURATE (result_mod AND 1 \<noteq> 0))
                                  DST_PARTIAL_PRECISION (result_mod AND 2 \<noteq> 0))
                                  DST_CENTROID (result_mod AND 4 \<noteq> 0)
                     in Inr (\<lparr>dst_reg = \<lparr>rk_kind = kind, rk_index = ucast (tok AND 0x7FF)\<rparr>,
                              dst_write_mask = write_mask, dst_mods = mods,
                              dst_shift_scale = shift_scale\<rparr>, 1))))"

definition decode_swizzle_bits :: "u32 \<Rightarrow> swizzle" where
  "decode_swizzle_bits b = [ucast (b AND 0x3), ucast (drop_bit 2 b AND 0x3),
     ucast (drop_bit 4 b AND 0x3), ucast (drop_bit 6 b AND 0x3)]"

definition src_modifier_table :: "(u8 \<times> src_modifier) list" where
  "src_modifier_table = [(1, SmNeg), (2, SmBias), (3, SmBiasNeg), (4, SmSign), (5, SmSignNeg), (6, SmComp),
     (7, SmX2), (8, SmX2Neg), (9, SmDz), (10, SmDw), (11, SmAbs), (12, SmAbsNeg), (13, SmNot)]"

definition decode_src_modifier :: "u8 \<Rightarrow> src_modifier" where
  "decode_src_modifier b = (case map_of src_modifier_table b of Some m \<Rightarrow> m | None \<Rightarrow> SmNone)"

definition decode_src :: "u32 list \<Rightarrow> bool \<Rightarrow> dxso_error + (src_operand \<times> nat)" where
  "decode_src ts sm1 =
     (case ts of
        [] \<Rightarrow> Inl Truncated
      | tok # rest \<Rightarrow>
          (case decode_reg_type tok of
             Inl e \<Rightarrow> Inl e
           | Inr kind \<Rightarrow>
               (let reg = \<lparr>rk_kind = kind, rk_index = ucast (tok AND 0x7FF)\<rparr>;
                    swiz = decode_swizzle_bits (drop_bit 16 tok AND 0xFF);
                    modifier = decode_src_modifier (ucast (drop_bit 24 tok AND 0xF))
                in if tok AND push_bit 13 1 \<noteq> 0 then
                     (if sm1 then
                        Inr (\<lparr>src_reg = reg, src_swizzle = swiz, src_mod = modifier,
                              src_rel_addr = Some \<lparr>ra_reg = \<lparr>rk_kind = RAddr, rk_index = 0\<rparr>,
                                                   ra_swizzle = [0, 0, 0, 0]\<rparr>\<rparr>, 1)
                      else (case rest of
                              [] \<Rightarrow> Inl Truncated
                            | rel_tok # _ \<Rightarrow>
                                (case decode_reg_type rel_tok of
                                   Inl e \<Rightarrow> Inl e
                                 | Inr rel_kind \<Rightarrow>
                                     Inr (\<lparr>src_reg = reg, src_swizzle = swiz, src_mod = modifier,
                                           src_rel_addr = Some \<lparr>ra_reg = \<lparr>rk_kind = rel_kind,
                                                                            rk_index = ucast (rel_tok AND 0x7FF)\<rparr>,
                                             ra_swizzle = decode_swizzle_bits (drop_bit 16 rel_tok AND 0xFF)\<rparr>\<rparr>, 2))))
                   else Inr (\<lparr>src_reg = reg, src_swizzle = swiz, src_mod = modifier,
                              src_rel_addr = None\<rparr>, 1))))"

definition usage_table :: "(u8 \<times> decl_usage) list" where
  "usage_table = [(0, DuPosition), (1, DuBlendWeight), (2, DuBlendIndices), (3, DuNormal), (4, DuPSize),
     (5, DuTexcoord), (6, DuTangent), (7, DuBinormal), (8, DuTessFactor), (9, DuPositionT), (10, DuColor),
     (11, DuFog), (12, DuDepth), (13, DuSample)]"

definition decode_decl_usage :: "u8 \<Rightarrow> dxso_error + decl_usage" where
  "decode_decl_usage b = (case map_of usage_table b of Some u \<Rightarrow> Inr u | None \<Rightarrow> Inl (UnknownDeclUsage b))"

definition decode_texture_type :: "u32 \<Rightarrow> texture_type" where
  "decode_texture_type b =
     (if b = 2 then Texture2D else if b = 3 then TextureCube else if b = 4 then Texture3D else TexUnknown)"

section \<open>Operand runs\<close>

text \<open>
  \<open>ts\<close> is what \<^verbatim>\<open>peek\<close> can see from the opcode on. The scan of a shader-model-1 run counts the
  tokens with bit 31 set; it ends because \<^verbatim>\<open>peek\<close> answers nothing past the end.
\<close>

definition param_token :: "u32 \<Rightarrow> bool" where
  "param_token t \<longleftrightarrow> t AND 0x80000000 \<noteq> 0"

definition operand_token_count :: "u8 \<Rightarrow> u32 \<Rightarrow> u32 list \<Rightarrow> nat" where
  "operand_token_count major opcode_token ts =
     (if 2 \<le> major then unat (drop_bit 24 opcode_token AND 0xF)
      else let op = opcode_from_u16 (ucast (opcode_token AND 0xFFFF))
           in if op = Some OpDef \<or> op = Some OpDefI then 5
              else if op = Some OpDefB then 2
              else length (takeWhile param_token ts))"

section \<open>Parsing\<close>

text \<open>The sources of an instruction: the \<^verbatim>\<open>while remaining > 0\<close> loop.\<close>

lemma decode_src_consumed: "decode_src ts sm1 = Inr (s, n) \<Longrightarrow> 0 < n"
  by (auto simp: decode_src_def Let_def split: list.splits sum.splits if_splits)

function parse_srcs :: "nat \<Rightarrow> u32 list \<Rightarrow> bool \<Rightarrow> dxso_error + (src_operand list \<times> u32 list)" where
  "parse_srcs remaining ts sm1 =
     (if remaining = 0 then Inr ([], ts)
      else case decode_src ts sm1 of
             Inl e \<Rightarrow> Inl e
           | Inr (s, consumed) \<Rightarrow>
               if remaining < consumed then Inl Truncated
               else (case parse_srcs (remaining - consumed) (drop consumed ts) sm1 of
                       Inl e \<Rightarrow> Inl e
                     | Inr (ss, rest) \<Rightarrow> Inr (s # ss, rest)))"
  by pat_completeness auto
termination
  by (relation "measure (\<lambda>(n, _, _). n)") (auto dest: decode_src_consumed)

declare parse_srcs.simps [simp del]

record parse_state =
  pa_declarations :: "dx_declaration list"
  pa_def_constants :: "def_constant list"
  pa_def_int_constants :: "def_int_constant list"
  pa_def_bool_constants :: "def_bool_constant list"
  pa_instructions :: "instruction list"
  pa_subroutines :: "(u32 \<times> instruction list) list"
  pa_current_label :: "u32 option"

definition parse_start :: parse_state where
  "parse_start = \<lparr>pa_declarations = [], pa_def_constants = [], pa_def_int_constants = [],
     pa_def_bool_constants = [], pa_instructions = [], pa_subroutines = [], pa_current_label = None\<rparr>"

definition parse_dcl :: "u32 list \<Rightarrow> parse_state \<Rightarrow> dxso_error + (u32 list \<times> parse_state)" where
  "parse_dcl ts st =
     (case ts of
        usage_token # dst_token # rest \<Rightarrow>
          (case decode_reg_type dst_token of
             Inl e \<Rightarrow> Inl e
           | Inr kind \<Rightarrow>
               (let reg = \<lparr>rk_kind = kind, rk_index = ucast (dst_token AND 0x7FF)\<rparr>
                in case (if kind = RSampler
                         then Inr (DeclSampler (decode_texture_type (drop_bit 27 usage_token AND 0xF)) reg)
                         else case decode_decl_usage (ucast (usage_token AND 0x1F)) of
                                Inl e \<Rightarrow> Inl e
                              | Inr usage \<Rightarrow> Inr (DeclSemantic usage (drop_bit 16 usage_token AND 0xF) reg
                                                    (ucast (drop_bit 16 dst_token AND 0xF)))) of
                     Inl e \<Rightarrow> Inl e
                   | Inr decl \<Rightarrow> Inr (rest, st\<lparr>pa_declarations := pa_declarations st @ [decl]\<rparr>)))
      | _ \<Rightarrow> Inl Truncated)"

text \<open>A constant definition: the register, then its immediate words.\<close>

definition parse_def_words :: "nat \<Rightarrow> u32 list \<Rightarrow> dxso_error + (dx_register \<times> u32 list \<times> u32 list)" where
  "parse_def_words n ts =
     (case ts of
        [] \<Rightarrow> Inl Truncated
      | dst_token # rest \<Rightarrow>
          (case decode_reg_type dst_token of
             Inl e \<Rightarrow> Inl e
           | Inr kind \<Rightarrow>
               if length rest < n then Inl Truncated
               else Inr (\<lparr>rk_kind = kind, rk_index = ucast (dst_token AND 0x7FF)\<rparr>, take n rest, drop n rest)))"

definition push_instruction :: "instruction \<Rightarrow> parse_state \<Rightarrow> parse_state" where
  "push_instruction inst st =
     (case pa_current_label st of
        Some label \<Rightarrow> st\<lparr>pa_subroutines := bt_modify label (\<lambda>b. b @ [inst]) (pa_subroutines st)\<rparr>
      | None \<Rightarrow> st\<lparr>pa_instructions := pa_instructions st @ [inst]\<rparr>)"

text \<open>
  An operand that is only there under a condition: the destination, then the predicate that a
  predicated instruction carries before its sources.
\<close>

definition take_operand ::
  "(u32 list \<Rightarrow> dxso_error + ('a \<times> nat)) \<Rightarrow> bool \<Rightarrow> nat \<Rightarrow> u32 list \<Rightarrow> dxso_error + ('a option \<times> nat \<times> u32 list)"
where
  "take_operand decode present remaining ts =
     (if present \<and> 0 < remaining then
        (case decode ts of
           Inl e \<Rightarrow> Inl e
         | Inr (x, consumed) \<Rightarrow>
             if remaining < consumed then Inl Truncated
             else Inr (Some x, remaining - consumed, drop consumed ts))
      else Inr (None, remaining, ts))"

definition parse_operands ::
  "u8 \<Rightarrow> opcode \<Rightarrow> bool \<Rightarrow> nat \<Rightarrow> u32 list
   \<Rightarrow> dxso_error + ((dst_operand option \<times> src_operand option \<times> src_operand list) \<times> u32 list)"
where
  "parse_operands major op predicated token_count ts =
     (case take_operand decode_dst (has_destination op) token_count ts of
        Inl e \<Rightarrow> Inl e
      | Inr (dst, remaining1, ts1) \<Rightarrow>
          (case take_operand (\<lambda>us. decode_src us False) predicated remaining1 ts1 of
             Inl e \<Rightarrow> Inl e
           | Inr (pred, remaining2, ts2) \<Rightarrow>
               (case parse_srcs remaining2 ts2 (major < 2) of
                  Inl e \<Rightarrow> Inl e
                | Inr (srcs, ts3) \<Rightarrow> Inr ((dst, pred, srcs), ts3))))"

definition instruction_of ::
  "u8 \<Rightarrow> opcode \<Rightarrow> u32 \<Rightarrow> dst_operand option \<times> src_operand option \<times> src_operand list \<Rightarrow> instruction"
where
  "instruction_of major op token operands =
     (case operands of
        (dst, pred, srcs) \<Rightarrow>
          (let predicated = (token AND push_bit 28 1 \<noteq> 0);
               cmp = (if op \<in> {OpIfc, OpBreakC, OpSetP}
                      then cmp_from_raw (ucast (drop_bit 16 token AND 0xFF)) else None);
               tex_control = token AND 0x00030000;
               tex_projected = (2 \<le> major \<and> op = OpTexLd \<and> tex_control = 0x00010000);
               tex_biased = (2 \<le> major \<and> op = OpTexLd \<and> tex_control = 0x00020000);
               coissue = (token AND 0x40000000 \<noteq> 0)
           in \<lparr>in_opcode = op, in_dst = dst, in_srcs = srcs,
               in_flags = flag_set (flag_set (flag_set (flag_set 0 INSTR_PREDICATED predicated)
                 INSTR_TEX_PROJECTED tex_projected) INSTR_COISSUE coissue)
                 INSTR_TEX_BIASED tex_biased,
               in_predicate = pred, in_cmp_func = cmp\<rparr>))"

definition parse_instruction :: "u8 \<Rightarrow> opcode \<Rightarrow> u32 \<Rightarrow> u32 list \<Rightarrow> dxso_error + (instruction \<times> u32 list)" where
  "parse_instruction major op token ts =
     (case parse_operands major op (token AND push_bit 28 1 \<noteq> 0) (operand_token_count major token ts) ts of
        Inl e \<Rightarrow> Inl e
      | Inr (operands, rest) \<Rightarrow> Inr (instruction_of major op token operands, rest))"

text \<open>One round of the loop, for every opcode but \<^verbatim>\<open>End\<close>.\<close>

definition parse_comment :: "u32 \<Rightarrow> u32 list \<Rightarrow> parse_state \<Rightarrow> dxso_error + (u32 list \<times> parse_state)" where
  "parse_comment token ts st =
     (let len = unat (drop_bit 16 token AND 0x7FFF)
      in if length ts < len then Inl Truncated else Inr (drop len ts, st))"

definition parse_def :: "u32 list \<Rightarrow> parse_state \<Rightarrow> dxso_error + (u32 list \<times> parse_state)" where
  "parse_def ts st =
     (case parse_def_words 4 ts of
        Inl e \<Rightarrow> Inl e
      | Inr (reg, value, rest) \<Rightarrow>
          Inr (rest, st\<lparr>pa_def_constants := pa_def_constants st @ [\<lparr>dc_reg = reg, dc_value = value\<rparr>]\<rparr>))"

definition parse_defi :: "u32 list \<Rightarrow> parse_state \<Rightarrow> dxso_error + (u32 list \<times> parse_state)" where
  "parse_defi ts st =
     (case parse_def_words 4 ts of
        Inl e \<Rightarrow> Inl e
      | Inr (reg, value, rest) \<Rightarrow>
          Inr (rest, st\<lparr>pa_def_int_constants := pa_def_int_constants st @ [\<lparr>di_reg = reg, di_value = value\<rparr>]\<rparr>))"

definition parse_defb :: "u32 list \<Rightarrow> parse_state \<Rightarrow> dxso_error + (u32 list \<times> parse_state)" where
  "parse_defb ts st =
     (case parse_def_words 1 ts of
        Inl e \<Rightarrow> Inl e
      | Inr (reg, value, rest) \<Rightarrow>
          Inr (rest, st\<lparr>pa_def_bool_constants := pa_def_bool_constants st
                          @ [\<lparr>db_reg = reg, db_value = (hd value \<noteq> 0)\<rparr>]\<rparr>))"

definition parse_label :: "u32 \<Rightarrow> u32 list \<Rightarrow> parse_state \<Rightarrow> dxso_error + (u32 list \<times> parse_state)" where
  "parse_label token ts st =
     (if unat (drop_bit 24 token AND 0xF) \<noteq> 1 then Inl Truncated
      else case decode_src ts False of
             Inl e \<Rightarrow> Inl e
           | Inr (label_src, consumed) \<Rightarrow>
               (let label_id = ucast (rk_index (src_reg label_src))
                in Inr (drop consumed ts, st\<lparr>pa_subroutines := bt_entry label_id [] (pa_subroutines st),
                                             pa_current_label := Some label_id\<rparr>)))"

definition parse_item ::
  "u8 \<Rightarrow> opcode \<Rightarrow> u32 \<Rightarrow> u32 list \<Rightarrow> parse_state \<Rightarrow> dxso_error + (u32 list \<times> parse_state)"
where
  "parse_item major op token ts st =
     (if op = OpComment then parse_comment token ts st
      else if op = OpDcl then parse_dcl ts st
      else if op = OpDef then parse_def ts st
      else if op = OpDefI then parse_defi ts st
      else if op = OpDefB then parse_defb ts st
      else if op = OpPhase then Inr (ts, st)
      else if op = OpLabel then parse_label token ts st
      else if op = OpRet then Inr (ts, st\<lparr>pa_current_label := None\<rparr>)
      else case parse_instruction major op token ts of
             Inl e \<Rightarrow> Inl e
           | Inr (inst, rest) \<Rightarrow> Inr (rest, push_instruction inst st))"

section \<open>Operand decoders read a bounded run\<close>

text \<open>
  What a decoder promises: it reads the tokens it reports as consumed and nothing behind them, and
  a stream that ends inside that run is reported as truncated.
\<close>

locale token_reader =
  fixes dec :: "u32 list \<Rightarrow> dxso_error + ('a \<times> nat)"
  assumes dec_positive: "dec ts = Inr (x, n) \<Longrightarrow> 0 < n"
    and dec_length: "dec ts = Inr (x, n) \<Longrightarrow> n \<le> length ts"
    and dec_extend: "dec ts = Inr (x, n) \<Longrightarrow> dec (take n ts @ us) = Inr (x, n)"
    and dec_cut: "dec ts = Inr (x, n) \<Longrightarrow> m < n \<Longrightarrow> dec (take m ts) = Inl Truncated"
begin

lemma dec_take:
  assumes "dec ts = Inr (x, n)"
  shows "dec (take m ts) = (if m < n then Inl Truncated else Inr (x, n))"
proof (cases "m < n")
  case True
  with assms show ?thesis by (simp add: dec_cut)
next
  case False
  then have "take m ts = take n ts @ drop n (take m ts)"
    by (metis append_take_drop_id min.absorb1 not_less take_take)
  with dec_extend [OF assms, of "drop n (take m ts)"] False show ?thesis by simp
qed

lemma take_operand_extend:
  assumes "take_operand dec present r ts = Inr (d, r', ts')"
  shows "take_operand dec present r (take (r - r') ts @ us) = Inr (d, r', us)"
proof (cases "present \<and> 0 < r")
  case False
  with assms show ?thesis by (auto simp: take_operand_def)
next
  case True
  with assms obtain x n where d: "dec ts = Inr (x, n)" and n: "n \<le> r" "d = Some x" "r' = r - n"
    by (auto simp: take_operand_def split: sum.splits if_splits)
  with True dec_extend [OF d, of us] dec_length [OF d] show ?thesis by (simp add: take_operand_def)
qed

lemma take_operand_length:
  assumes "take_operand dec present r ts = Inr (d, r', ts')"
  shows "r' \<le> r" and "ts' = drop (r - r') ts" and "r - r' \<le> length ts"
  using assms by (auto simp: take_operand_def dec_length split: sum.splits if_splits)

text \<open>Cut to \<open>m\<close> tokens, with a count \<open>k\<close> between \<open>m\<close> and the real one.\<close>

lemma take_operand_cut:
  assumes "take_operand dec present r ts = Inr (d, r', ts')" "m \<le> k" "k \<le> r"
  shows "take_operand dec present k (take m ts) = Inl Truncated
    \<or> (\<exists>d'. take_operand dec present k (take m ts) = Inr (d', k - (r - r'), take (m - (r - r')) ts') \<and> r - r' \<le> m)
    \<or> k = 0 \<and> take_operand dec present k (take m ts) = Inr (None, 0, [])"
proof (cases "present \<and> 0 < r")
  case False
  with assms show ?thesis by (auto simp: take_operand_def)
next
  case True
  with assms(1) obtain x n where d: "dec ts = Inr (x, n)" and n: "n \<le> r" "d = Some x" "r' = r - n" "ts' = drop n ts"
    by (auto simp: take_operand_def split: sum.splits if_splits)
  have rn: "r - r' = n" using n by simp
  show ?thesis
  proof (cases "k = 0")
    case True
    with assms show ?thesis by (simp add: take_operand_def)
  next
    case False
    show ?thesis
    proof (cases "m < n")
      case True
      with False \<open>present \<and> 0 < r\<close> d show ?thesis by (simp add: take_operand_def dec_take)
    next
      case mn: False
      with False \<open>present \<and> 0 < r\<close> d assms(2) n show ?thesis
        by (simp add: take_operand_def dec_take rn drop_take)
    qed
  qed
qed

end

lemma decode_dst_reader:
  assumes "decode_dst ts = Inr (x, n)"
  shows "n = 1" and "ts \<noteq> []" and "decode_dst (hd ts # us) = Inr (x, 1)"
  using assms by (auto simp: decode_dst_def Let_def split: list.splits sum.splits if_splits)

interpretation dst_reader: token_reader decode_dst
proof
  fix ts :: "u32 list" and x n us m
  assume d: "decode_dst ts = Inr (x, n)"
  note r = decode_dst_reader [OF d]
  show "0 < n" "n \<le> length ts" using r(1,2) by (auto simp: Suc_le_eq)
  show "decode_dst (take n ts @ us) = Inr (x, n)" using r by (cases ts) auto
  show "m < n \<Longrightarrow> decode_dst (take m ts) = Inl Truncated" using r(1) by (simp add: decode_dst_def)
qed

lemma decode_src_extend: "decode_src ts sm1 = Inr (x, n) \<Longrightarrow> decode_src (take n ts @ us) sm1 = Inr (x, n)"
  by (auto simp: decode_src_def Let_def split: list.splits sum.splits if_splits)

lemma decode_src_length: "decode_src ts sm1 = Inr (x, n) \<Longrightarrow> n \<le> length ts"
  by (auto simp: decode_src_def Let_def Suc_le_eq split: list.splits sum.splits if_splits)

lemma decode_src_cut:
  assumes "decode_src ts sm1 = Inr (x, n)" "m < n"
  shows "decode_src (take m ts) sm1 = Inl Truncated"
proof (cases m)
  case 0
  then show ?thesis by (simp add: decode_src_def)
next
  case (Suc k)
  with assms show ?thesis
    by (auto simp: decode_src_def Let_def split: list.splits sum.splits if_splits)
qed

interpretation src_reader: token_reader "\<lambda>ts. decode_src ts sm1" for sm1
  by unfold_locales
    (auto dest: decode_src_consumed decode_src_extend decode_src_length decode_src_cut)

lemma parse_srcs_ok:
  assumes "parse_srcs r ts sm1 = Inr (ss, ts')"
  shows "r \<le> length ts \<and> ts' = drop r ts \<and> parse_srcs r (take r ts @ us) sm1 = Inr (ss, us)"
  using assms
proof (induction r ts sm1 arbitrary: ss ts' rule: parse_srcs.induct)
  case (1 r ts sm1)
  show ?case
  proof (cases "r = 0")
    case True
    with 1 show ?thesis by (simp add: parse_srcs.simps)
  next
    case False
    with "1.prems" obtain s n ss1 where d: "decode_src ts sm1 = Inr (s, n)" and n: "n \<le> r"
      and rec: "parse_srcs (r - n) (drop n ts) sm1 = Inr (ss1, ts')" and ss: "ss = s # ss1"
      by (subst (asm) parse_srcs.simps) (auto split: sum.splits if_splits)
    have ih: "r - n \<le> length (drop n ts) \<and> ts' = drop (r - n) (drop n ts) \<and>
        parse_srcs (r - n) (take (r - n) (drop n ts) @ us) sm1 = Inr (ss1, us)"
      by (rule "1.IH" [OF False d refl _ rec]) (use n in simp)
    have len: "n \<le> length ts" using d by (rule decode_src_length)
    have split: "take r ts @ us = take n ts @ (take (r - n) (drop n ts) @ us)"
      using n by (simp add: take_add [symmetric])
    have "decode_src (take r ts @ us) sm1 = Inr (s, n)"
      unfolding split by (rule decode_src_extend [OF d])
    moreover have "drop n (take r ts @ us) = take (r - n) (drop n ts) @ us"
      unfolding split using len by simp
    ultimately have "parse_srcs r (take r ts @ us) sm1 = Inr (ss, us)"
      using False n ih ss by (subst parse_srcs.simps) simp
    moreover have "r \<le> length ts" using conjunct1 [OF ih] len n by (simp add: le_diff_iff)
    moreover have "ts' = drop r ts" using ih n by simp
    ultimately show ?thesis by blast
  qed
qed

lemma parse_srcs_cut:
  assumes "parse_srcs r ts sm1 = Inr (ss, ts')" "m \<le> k" "k \<le> r" "m < r"
  shows "parse_srcs k (take m ts) sm1 = Inl Truncated \<or> k = m \<and> (\<exists>ss'. parse_srcs k (take m ts) sm1 = Inr (ss', []))"
  using assms
proof (induction r ts sm1 arbitrary: ss ts' k m rule: parse_srcs.induct)
  case (1 r ts sm1)
  from 1 have r: "r \<noteq> 0" by simp
  with "1.prems" obtain s n ss1 where d: "decode_src ts sm1 = Inr (s, n)" and n: "n \<le> r"
    and rec: "parse_srcs (r - n) (drop n ts) sm1 = Inr (ss1, ts')"
    by (subst (asm) parse_srcs.simps) (auto split: sum.splits if_splits)
  have pos: "0 < n" using d by (rule decode_src_consumed)
  show ?case
  proof (cases "k = 0")
    case True
    with "1.prems" show ?thesis by (simp add: parse_srcs.simps)
  next
    case k: False
    show ?thesis
    proof (cases "m < n")
      case True
      with k d show ?thesis by (subst (1 2) parse_srcs.simps) (simp add: src_reader.dec_take)
    next
      case mn: False
      have "parse_srcs (k - n) (take (m - n) (drop n ts)) sm1 = Inl Truncated \<or>
          k - n = m - n \<and> (\<exists>ss'. parse_srcs (k - n) (take (m - n) (drop n ts)) sm1 = Inr (ss', []))"
        by (rule "1.IH" [OF r d refl _ rec]) (use n mn pos "1.prems" in auto)
      with k mn "1.prems"(2) show ?thesis
        by (subst (1 2) parse_srcs.simps) (auto simp: src_reader.dec_take [OF d] drop_take)
    qed
  qed
qed

lemma parse_operands_ok:
  assumes "parse_operands major op predicated r ts = Inr (x, ts')"
  shows "r \<le> length ts" and "ts' = drop r ts"
    and "parse_operands major op predicated r (take r ts @ us) = Inr (x, us)"
proof -
  from assms obtain d r1 ts1 p r2 ts2 ss
    where a: "take_operand decode_dst (has_destination op) r ts = Inr (d, r1, ts1)"
      and b: "take_operand (\<lambda>us. decode_src us False) predicated r1 ts1 = Inr (p, r2, ts2)"
      and c: "parse_srcs r2 ts2 (major < 2) = Inr (ss, ts')" and x: "x = (d, p, ss)"
    by (auto simp: parse_operands_def split: sum.splits)
  note la = dst_reader.take_operand_length [OF a] and lb = src_reader.take_operand_length [OF b]
  note lc = parse_srcs_ok [OF c, of us]
  show "r \<le> length ts" "ts' = drop r ts" using la lb lc by auto
  have split: "take r ts @ us = take (r - r1) ts @ (take (r1 - r2) ts1 @ (take r2 ts2 @ us))"
  proof -
    have "take (r - r1) ts @ take (r1 - r2) ts1 @ take r2 ts2 = take r ts"
      using la(1,2) lb(1,2) take_add [of "r - r1" r1 ts] take_add [of "r1 - r2" r2 ts1] by simp
    then show ?thesis by (metis append.assoc)
  qed
  show "parse_operands major op predicated r (take r ts @ us) = Inr (x, us)"
    unfolding split
    using dst_reader.take_operand_extend [OF a, of "take (r1 - r2) ts1 @ take r2 ts2 @ us"]
      src_reader.take_operand_extend [OF b, of "take r2 ts2 @ us"] lc x
    by (simp add: parse_operands_def)
qed

lemma parse_operands_cut:
  assumes "parse_operands major op predicated r ts = Inr (x, ts')" "m \<le> k" "k \<le> r" "m < r"
  shows "parse_operands major op predicated k (take m ts) = Inl Truncated
    \<or> k = m \<and> (\<exists>x'. parse_operands major op predicated k (take m ts) = Inr (x', []))"
proof -
  from assms obtain d r1 ts1 p r2 ts2 ss
    where a: "take_operand decode_dst (has_destination op) r ts = Inr (d, r1, ts1)"
      and b: "take_operand (\<lambda>us. decode_src us False) predicated r1 ts1 = Inr (p, r2, ts2)"
      and c: "parse_srcs r2 ts2 (major < 2) = Inr (ss, ts')"
    by (auto simp: parse_operands_def split: sum.splits)
  note la = dst_reader.take_operand_length [OF a] and lb = src_reader.take_operand_length [OF b]
  have no_srcs: "parse_srcs 0 [] (major < 2) = Inr ([], [])"
    by (simp add: parse_srcs.simps)
  from dst_reader.take_operand_cut [OF a assms(2,3)]
  consider (cut) "take_operand decode_dst (has_destination op) k (take m ts) = Inl Truncated"
    | (dst) d' where "take_operand decode_dst (has_destination op) k (take m ts)
        = Inr (d', k - (r - r1), take (m - (r - r1)) ts1)" "r - r1 \<le> m"
    | (none) "k = 0" "take_operand decode_dst (has_destination op) k (take m ts) = Inr (None, 0, [])"
    by blast
  then show ?thesis
  proof cases
    case cut
    then show ?thesis by (simp add: parse_operands_def)
  next
    case none
    with assms(2) no_srcs show ?thesis
      by (simp add: parse_operands_def take_operand_def)
  next
    case dst
    define k1 m1 where "k1 = k - (r - r1)" and "m1 = m - (r - r1)"
    have km: "m1 \<le> k1" "k1 \<le> r1" "m1 < r1" "k1 = m1 \<longleftrightarrow> k = m"
      using dst(2) assms(2-4) la(1) unfolding k1_def m1_def by linarith+
    from src_reader.take_operand_cut [OF b km(1,2)]
    consider (cut1) "take_operand (\<lambda>us. decode_src us False) predicated k1 (take m1 ts1) = Inl Truncated"
      | (pred) p' where "take_operand (\<lambda>us. decode_src us False) predicated k1 (take m1 ts1)
          = Inr (p', k1 - (r1 - r2), take (m1 - (r1 - r2)) ts2)" "r1 - r2 \<le> m1"
      | (none1) "k1 = 0" "take_operand (\<lambda>us. decode_src us False) predicated k1 (take m1 ts1) = Inr (None, 0, [])"
      by blast
    then show ?thesis
    proof cases
      case cut1
      with dst show ?thesis by (simp add: parse_operands_def k1_def m1_def)
    next
      case none1
      then have "k = m" using km by simp
      with none1 dst(1) no_srcs show ?thesis by (simp add: parse_operands_def k1_def m1_def)
    next
      case pred
      define k2 m2 where "k2 = k1 - (r1 - r2)" and "m2 = m1 - (r1 - r2)"
      have "m2 \<le> k2" "k2 \<le> r2" "m2 < r2" "k2 = m2 \<longleftrightarrow> k = m"
        using pred(2) km lb(1) unfolding k2_def m2_def by linarith+
      with parse_srcs_cut [OF c, of m2 k2]
      have "parse_srcs k2 (take m2 ts2) (major < 2) = Inl Truncated
          \<or> k = m \<and> (\<exists>ss'. parse_srcs k2 (take m2 ts2) (major < 2) = Inr (ss', []))"
        by simp
      moreover have "parse_operands major op predicated k (take m ts)
          = (case parse_srcs k2 (take m2 ts2) (major < 2) of
               Inl e \<Rightarrow> Inl e | Inr (srcs, ts3) \<Rightarrow> Inr ((d', p', srcs), ts3))"
        using dst(1) pred(1) unfolding k2_def m2_def by (simp add: parse_operands_def k1_def m1_def)
      ultimately show ?thesis by auto
    qed
  qed
qed

section \<open>Every item is a bounded run\<close>

text \<open>
  An item that parses reads \<open>n\<close> tokens. Behind them anything may follow, as long as the token that
  ends a shader-model-1 operand scan stays; a stream cut inside them is truncated, or, where the
  count is a scan, leaves nothing to read.
\<close>

definition reads_exactly :: "(u32 list \<Rightarrow> dxso_error + (u32 list \<times> 'a)) \<Rightarrow> nat \<Rightarrow> u32 list \<Rightarrow> 'a \<Rightarrow> bool" where
  "reads_exactly f n ts x \<longleftrightarrow>
     n \<le> length ts \<and> f ts = Inr (drop n ts, x) \<and>
     (\<forall>us. us \<noteq> [] \<and> n < length ts \<and> hd us = ts ! n \<longrightarrow> f (take n ts @ us) = Inr (us, x)) \<and>
     (\<forall>m\<le>n. f (take m ts) = Inl Truncated \<or> (\<exists>x'. f (take m ts) = Inr ([], x')))"

lemma parse_comment_reads:
  "parse_comment token ts st = Inr (ts', st') \<Longrightarrow>
   \<exists>n. ts' = drop n ts \<and> reads_exactly (\<lambda>us. parse_comment token us st) n ts st'"
  by (rule exI [of _ "unat (drop_bit 16 token AND 0x7FFF)"])
    (auto simp: parse_comment_def reads_exactly_def Let_def split: if_splits)

lemma parse_dcl_reads:
  assumes "parse_dcl ts st = Inr (ts', st')"
  shows "\<exists>n. ts' = drop n ts \<and> reads_exactly (\<lambda>us. parse_dcl us st) n ts st'"
proof -
  from assms obtain u d where ts: "ts = u # d # ts'"
    by (auto simp: parse_dcl_def Let_def split: list.splits sum.splits if_splits)
  have ext: "parse_dcl (u # d # us) st = Inr (us, st')" for us
    using assms unfolding ts by (auto simp: parse_dcl_def Let_def split: sum.splits if_splits)
  have cut: "parse_dcl (take m ts) st = Inl Truncated \<or> parse_dcl (take m ts) st = Inr ([], st')" if "m \<le> 2" for m
  proof (cases "m < 2")
    case True
    then show ?thesis by (cases m) (auto simp: ts parse_dcl_def less_Suc_eq)
  next
    case False
    with that ext [of "[]"] show ?thesis by (simp add: ts)
  qed
  show ?thesis
    by (rule exI [of _ 2]) (use ext cut in \<open>auto simp: reads_exactly_def ts\<close>)
qed

lemma parse_def_words_reads:
  assumes "parse_def_words n ts = Inr (reg, value, ts')"
  shows "ts' = drop (Suc n) ts" and "Suc n \<le> length ts"
    and "parse_def_words n (take (Suc n) ts @ us) = Inr (reg, value, us)"
    and "m \<le> n \<Longrightarrow> parse_def_words n (take m ts) = Inl Truncated"
proof -
  from assms obtain d rest k where ts: "ts = d # rest" "n \<le> length rest" "decode_reg_type d = Inr k"
    and r: "reg = \<lparr>rk_kind = k, rk_index = ucast (d AND 0x7FF)\<rparr>" "value = take n rest" "ts' = drop n rest"
    by (auto simp: parse_def_words_def split: list.splits sum.splits if_splits)
  then show "ts' = drop (Suc n) ts" "Suc n \<le> length ts"
    "parse_def_words n (take (Suc n) ts @ us) = Inr (reg, value, us)"
    by (simp_all add: parse_def_words_def)
  show "m \<le> n \<Longrightarrow> parse_def_words n (take m ts) = Inl Truncated"
    using ts by (cases m) (auto simp: parse_def_words_def)
qed

lemma def_arm_reads:
  assumes f: "\<And>us. f us = (case parse_def_words k us of Inl e \<Rightarrow> Inl e | Inr (reg, value, rest) \<Rightarrow> Inr (rest, g reg value))"
    and ok: "f ts = Inr (ts', x)"
  shows "\<exists>n. ts' = drop n ts \<and> reads_exactly f n ts x"
proof -
  from ok obtain reg v where w: "parse_def_words k ts = Inr (reg, v, ts')" and x: "x = g reg v"
    by (auto simp: f split: sum.splits)
  note r = parse_def_words_reads [OF w]
  have "f (take m ts) = Inl Truncated \<or> f (take m ts) = Inr ([], x)" if "m \<le> Suc k" for m
  proof (cases "m \<le> k")
    case True
    with r(4) show ?thesis by (simp add: f)
  next
    case False
    with that have "m = Suc k" by simp
    with r(3) [of "[]"] x show ?thesis by (simp add: f)
  qed
  then show ?thesis
    by (intro exI [of _ "Suc k"]) (use r x w in \<open>auto simp: reads_exactly_def f\<close>)
qed

lemma parse_label_reads:
  assumes "parse_label token ts st = Inr (ts', st')"
  shows "\<exists>n. ts' = drop n ts \<and> reads_exactly (\<lambda>us. parse_label token us st) n ts st'"
proof -
  from assms obtain l n where d: "decode_src ts False = Inr (l, n)"
    and t: "unat (drop_bit 24 token AND 0xF) = 1" "ts' = drop n ts"
    by (auto simp: parse_label_def Let_def split: sum.splits if_splits)
  have "parse_label token (take m ts) st = Inl Truncated \<or> (\<exists>x. parse_label token (take m ts) st = Inr ([], x))"
    if "m \<le> n" for m
    using that t(1) src_reader.dec_take [OF d, of m]
    by (cases "m < n") (simp_all add: parse_label_def Let_def)
  then show ?thesis
    by (intro exI [of _ n])
      (use assms d t decode_src_length [OF d] decode_src_extend [OF d]
        in \<open>auto simp: reads_exactly_def parse_label_def Let_def\<close>)
qed

lemma takeWhile_cut:
  "m \<le> length (takeWhile P xs) \<Longrightarrow> takeWhile P (take m xs) = take m xs"
  by (induction xs arbitrary: m) (auto simp: take_Cons split: nat.splits if_splits)

lemma takeWhile_extend:
  assumes "us = [] \<or> \<not> P (hd us)"
  shows "takeWhile P (take (length (takeWhile P xs)) xs @ us) = take (length (takeWhile P xs)) xs"
  using assms by (cases us) (simp_all add: takeWhile_append takeWhile_eq_take [symmetric])

lemma operand_token_count_fixed:
  assumes "2 \<le> major \<or> opcode_from_u16 (ucast (token AND 0xFFFF)) \<in> {Some OpDef, Some OpDefI, Some OpDefB}"
  shows "operand_token_count major token us = operand_token_count major token ts"
  using assms by (auto simp: operand_token_count_def)

lemma operand_token_count_scan:
  assumes "\<not> 2 \<le> major" "opcode_from_u16 (ucast (token AND 0xFFFF)) = Some op" "op \<notin> {OpDef, OpDefI, OpDefB}"
  shows "operand_token_count major token ts = length (takeWhile param_token ts)"
  using assms by (simp add: operand_token_count_def)

lemma parse_instruction_reads:
  assumes ok: "parse_instruction major op token ts = Inr (inst, ts')"
    and op: "opcode_from_u16 (ucast (token AND 0xFFFF)) = Some op" "op \<notin> {OpDef, OpDefI, OpDefB}"
  defines "n \<equiv> operand_token_count major token ts"
  shows "ts' = drop n ts" and "n \<le> length ts"
    and "us \<noteq> [] \<Longrightarrow> n < length ts \<Longrightarrow> hd us = ts ! n \<Longrightarrow>
         parse_instruction major op token (take n ts @ us) = Inr (inst, us)"
    and "m \<le> n \<Longrightarrow> parse_instruction major op token (take m ts) = Inl Truncated
         \<or> (\<exists>i. parse_instruction major op token (take m ts) = Inr (i, []))"
proof -
  let ?p = "token AND push_bit 28 1 \<noteq> 0"
  from ok obtain x where x: "parse_operands major op ?p n ts = Inr (x, ts')"
    and inst: "inst = instruction_of major op token x"
    by (auto simp: parse_instruction_def n_def split: sum.splits)
  note r = parse_operands_ok [OF x]
  show "ts' = drop n ts" "n \<le> length ts" using r by simp_all
  show "parse_instruction major op token (take n ts @ us) = Inr (inst, us)"
    if us: "us \<noteq> []" "n < length ts" "hd us = ts ! n"
  proof -
    have "operand_token_count major token (take n ts @ us) = n"
    proof (cases "2 \<le> major")
      case True
      then show ?thesis unfolding n_def by (intro operand_token_count_fixed) simp
    next
      case False
      have n: "n = length (takeWhile param_token ts)"
        unfolding n_def by (rule operand_token_count_scan [OF False op])
      have "\<not> param_token (hd us)"
        using us n nth_length_takeWhile [of param_token ts] by simp
      then have "takeWhile param_token (take n ts @ us) = take n ts"
        unfolding n by (intro takeWhile_extend) simp
      then show ?thesis
        using operand_token_count_scan [OF False op, of "take n ts @ us"] us(2) by simp
    qed
    with r(3) [of us] inst show ?thesis by (simp add: parse_instruction_def)
  qed
  show "parse_instruction major op token (take m ts) = Inl Truncated
         \<or> (\<exists>i. parse_instruction major op token (take m ts) = Inr (i, []))" if m: "m \<le> n"
  proof -
    define k where "k = operand_token_count major token (take m ts)"
    have "m \<le> k \<and> k \<le> n"
    proof (cases "2 \<le> major")
      case True
      then have "k = n" unfolding n_def k_def by (intro operand_token_count_fixed) simp
      with m show ?thesis by simp
    next
      case False
      have n: "n = length (takeWhile param_token ts)"
        unfolding n_def by (rule operand_token_count_scan [OF False op])
      have "k = length (takeWhile param_token (take m ts))"
        unfolding k_def by (rule operand_token_count_scan [OF False op])
      also have "takeWhile param_token (take m ts) = take m ts"
        using m n by (intro takeWhile_cut) simp
      finally show ?thesis using m r(1) by simp
    qed
    then have k: "m \<le> k" "k \<le> n" by simp_all
    have "parse_operands major op ?p k (take m ts) = Inl Truncated
        \<or> k = m \<and> (\<exists>x'. parse_operands major op ?p k (take m ts) = Inr (x', []))"
    proof (cases "m = n")
      case True
      with k have "k = m" by simp
      with True r(3) [of "[]"] show ?thesis by (metis append_Nil2)
    next
      case False
      with m k parse_operands_cut [OF x, of m k] show ?thesis by simp
    qed
    then show ?thesis by (auto simp: parse_instruction_def k_def)
  qed
qed

lemma parse_item_reads:
  assumes ok: "parse_item major op token ts st = Inr (ts', st')"
    and op: "opcode_from_u16 (ucast (token AND 0xFFFF)) = Some op"
  shows "\<exists>n. ts' = drop n ts \<and> reads_exactly (\<lambda>us. parse_item major op token us st) n ts st'"
proof -
  consider "op = OpComment" | "op = OpDcl" | "op = OpDef" | "op = OpDefI" | "op = OpDefB" | "op = OpLabel"
    | (unit) "op = OpPhase \<or> op = OpRet"
    | (inst) "op \<notin> {OpComment, OpDcl, OpDef, OpDefI, OpDefB, OpLabel, OpPhase, OpRet}"
    by blast
  then show ?thesis
  proof cases
    case 1
    with ok parse_comment_reads show ?thesis by (simp add: parse_item_def)
  next
    case 2
    with ok parse_dcl_reads show ?thesis by (simp add: parse_item_def)
  next
    case 3
    with ok show ?thesis
      by (simp add: parse_item_def) (erule def_arm_reads [rotated], simp add: parse_def_def)
  next
    case 4
    with ok show ?thesis
      by (simp add: parse_item_def) (erule def_arm_reads [rotated], simp add: parse_defi_def)
  next
    case 5
    with ok show ?thesis
      by (simp add: parse_item_def) (erule def_arm_reads [rotated], simp add: parse_defb_def)
  next
    case 6
    with ok parse_label_reads show ?thesis by (simp add: parse_item_def)
  next
    case unit
    with ok show ?thesis
      by (intro exI [of _ 0]) (auto simp: parse_item_def reads_exactly_def)
  next
    case inst
    then have item: "parse_item major op token us st = (case parse_instruction major op token us of
        Inl e \<Rightarrow> Inl e | Inr (inst, rest) \<Rightarrow> Inr (rest, push_instruction inst st))" for us
      by (simp add: parse_item_def)
    from ok obtain i where i: "parse_instruction major op token ts = Inr (i, ts')"
      and st': "st' = push_instruction i st"
      by (auto simp: item split: sum.splits)
    have "op \<notin> {OpDef, OpDefI, OpDefB}" using inst by simp
    note r = parse_instruction_reads [OF i op this]
    show ?thesis
    proof (intro exI conjI)
      show "ts' = drop (operand_token_count major token ts) ts" by (rule r(1))
      show "reads_exactly (\<lambda>us. parse_item major op token us st) (operand_token_count major token ts) ts st'"
        unfolding reads_exactly_def item st'
      proof (intro conjI allI impI)
        show "operand_token_count major token ts \<le> length ts" by (rule r(2))
      qed (use r i in \<open>auto dest!: r(4)\<close>)
    qed
  qed
qed

section \<open>The whole program\<close>

function parse_loop :: "u8 \<Rightarrow> u32 list \<Rightarrow> parse_state \<Rightarrow> dxso_error + (u32 list \<times> parse_state)" where
  "parse_loop major ts st =
     (case ts of
        [] \<Rightarrow> Inl Truncated
      | token # rest \<Rightarrow>
          (case opcode_from_u16 (ucast (token AND 0xFFFF)) of
             None \<Rightarrow> Inl (UnknownOpcode (ucast (token AND 0xFFFF)))
           | Some op \<Rightarrow>
               if op = OpEnd then Inr (rest, st)
               else (case parse_item major op token rest st of
                       Inl e \<Rightarrow> Inl e
                     | Inr (rest', st') \<Rightarrow> parse_loop major rest' st')))"
  by pat_completeness auto
termination
  by (relation "measure (\<lambda>(_, ts, _). length ts)") (auto dest!: parse_item_reads)

declare parse_loop.simps [simp del]

definition known_model :: "shader_type \<Rightarrow> u8 \<Rightarrow> u8 \<Rightarrow> bool" where
  "known_model shader_type major minor \<longleftrightarrow>
     major = 2 \<or> major = 3
     \<or> major = 1 \<and> (case shader_type of VertexShader \<Rightarrow> minor = 1 | PixelShader \<Rightarrow> minor \<le> 4)"

definition shader_type_of :: "u32 \<Rightarrow> shader_type option" where
  "shader_type_of first =
     (if drop_bit 16 first AND 0xFFFF = 0xFFFE then Some VertexShader
      else if drop_bit 16 first AND 0xFFFF = 0xFFFF then Some PixelShader
      else None)"

definition program_of :: "u32 list \<Rightarrow> shader_type \<Rightarrow> u8 \<Rightarrow> u8 \<Rightarrow> parse_state \<Rightarrow> dxso_program" where
  "program_of bytecode shader_type major minor st =
     \<lparr>dp_bytecode = bytecode, dp_shader_type = shader_type, dp_major = major, dp_minor = minor,
      dp_declarations = pa_declarations st, dp_def_constants = pa_def_constants st,
      dp_def_int_constants = pa_def_int_constants st, dp_def_bool_constants = pa_def_bool_constants st,
      dp_instructions = pa_instructions st, dp_subroutines = pa_subroutines st\<rparr>"

definition parse :: "u32 list \<Rightarrow> dxso_error + dxso_program" where
  "parse bytecode =
     (case bytecode of
        [] \<Rightarrow> Inl Truncated
      | first # ts \<Rightarrow>
          (case shader_type_of first of
             None \<Rightarrow> Inl InvalidHeader
           | Some shader_type \<Rightarrow>
               (let major = ucast (drop_bit 8 first AND 0xFF); minor = ucast (first AND 0xFF)
                in if \<not> known_model shader_type major minor then Inl (UnsupportedShaderModel major minor)
                   else (case parse_loop major ts parse_start of
                           Inl e \<Rightarrow> Inl e
                         | Inr (_, st) \<Rightarrow> Inr (program_of bytecode shader_type major minor st)))))"

lemma parse_loop_reads:
  assumes "parse_loop major ts st = Inr (rest, st')"
  shows "\<exists>n. 0 < n \<and> n \<le> length ts \<and> rest = drop n ts
      \<and> (\<forall>us. parse_loop major (take n ts @ us) st = Inr (us, st'))
      \<and> (\<forall>m<n. parse_loop major (take m ts) st = Inl Truncated)"
  using assms
proof (induction major ts st arbitrary: rest st' rule: parse_loop.induct)
  case (1 major ts st)
  from "1.prems" obtain token ts1 op where ts: "ts = token # ts1"
    and op: "opcode_from_u16 (ucast (token AND 0xFFFF)) = Some op"
    by (subst (asm) parse_loop.simps) (auto split: list.splits option.splits)
  have step: "parse_loop major (token # us) st = (if op = OpEnd then Inr (us, st)
      else case parse_item major op token us st of Inl e \<Rightarrow> Inl e
           | Inr (rest', st') \<Rightarrow> parse_loop major rest' st')" for us
    by (subst parse_loop.simps) (simp add: op)
  have nil: "parse_loop major [] st2 = Inl Truncated" for st2
    by (subst parse_loop.simps) simp
  show ?case
  proof (cases "op = OpEnd")
    case True
    with "1.prems" have "rest = ts1" "st' = st" by (simp_all add: ts step)
    with True show ?thesis
      by (intro exI [of _ 1]) (simp add: ts step nil)
  next
    case False
    with "1.prems" obtain ts2 st2 where item: "parse_item major op token ts1 st = Inr (ts2, st2)"
      and rec: "parse_loop major ts2 st2 = Inr (rest, st')"
      by (auto simp: ts step split: sum.splits)
    from parse_item_reads [OF item op] obtain n where n: "ts2 = drop n ts1"
      and reads: "reads_exactly (\<lambda>us. parse_item major op token us st) n ts1 st2" by blast
    from "1.IH" [OF ts op False item refl rec] obtain k where k: "0 < k" "k \<le> length ts2" "rest = drop k ts2"
      and ext: "\<And>us. parse_loop major (take k ts2 @ us) st2 = Inr (us, st')"
      and cut: "\<And>m. m < k \<Longrightarrow> parse_loop major (take m ts2) st2 = Inl Truncated" by blast
    have split: "take (Suc (n + k)) ts @ us = token # (take n ts1 @ (take k ts2 @ us))" for us
      by (simp add: ts n take_add)
    have lt: "n < length ts1" using k(1,2) n by simp
    have hd: "hd (take j ts2 @ us) = ts1 ! n" "take j ts2 @ us \<noteq> []" if "0 < j" for j us
      using that k(1,2) lt by (auto simp: n hd_append hd_drop_conv_nth)
    have follow: "parse_loop major (token # (take n ts1 @ (take j ts2 @ us))) st
        = parse_loop major (take j ts2 @ us) st2" if "0 < j" for j us
      using reads hd [OF that] lt False by (simp add: step reads_exactly_def)
    have "parse_loop major (take (Suc (n + k)) ts @ us) st = Inr (us, st')" for us
      unfolding split using follow [OF k(1)] ext by simp
    moreover have "parse_loop major (take m ts) st = Inl Truncated" if m: "m < Suc (n + k)" for m
    proof (cases m)
      case 0
      then show ?thesis by (simp add: nil)
    next
      case (Suc m1)
      consider "m1 \<le> n" | "n < m1" by linarith
      then show ?thesis
      proof cases
        case 1
        with reads have "parse_item major op token (take m1 ts1) st = Inl Truncated
            \<or> (\<exists>x. parse_item major op token (take m1 ts1) st = Inr ([], x))"
          unfolding reads_exactly_def by blast
        with False show ?thesis by (auto simp: Suc ts step nil)
      next
        case 2
        have "take m1 ts1 = take n ts1 @ take (m1 - n) ts2"
          using 2 by (simp add: n take_add [symmetric])
        with follow [of "m1 - n" "[]"] cut [of "m1 - n"] 2 m show ?thesis by (simp add: Suc ts)
      qed
    qed
    moreover have "rest = drop (Suc (n + k)) ts" "Suc (n + k) \<le> length ts"
      using k n lt by (simp_all add: ts add.commute)
    ultimately show ?thesis by blast
  qed
qed

end
