(* ===== verification/Dxso_Program.thy ===== *)
theory Dxso_Program
  imports Dxso_Parser
begin

text \<open>
  What the parser guarantees of a program it accepts: it read a definite prefix of the bytecode, its
  operands are in the ranges of their token fields, the body of a subroutine exists whenever an
  instruction is filed into it, and a program that passes
  \<^verbatim>\<open>violates_constant_register_limits\<close> reads no constant row outside its register file.
\<close>

section \<open>Field ranges\<close>

lemma unat_and_le: "unat (x AND y :: 'a::len word) \<le> unat y"
  using word_and_le1 [of x y] by (simp add: word_le_nat_alt)

lemma unat_ucast_le: "unat (ucast x :: 'b::len word) \<le> unat (x :: 'a::len word)"
  by (simp add: unsigned_ucast_eq)

lemma unat_field: "unat y < k \<Longrightarrow> unat (ucast (x AND y :: 'a::len word) :: 'b::len word) < k"
  by (rule le_less_trans [OF unat_ucast_le]) (rule le_less_trans [OF unat_and_le])

definition register_ok :: "dx_register \<Rightarrow> bool" where
  "register_ok r \<longleftrightarrow> unat (rk_index r) < 2048"

definition swizzle_ok :: "swizzle \<Rightarrow> bool" where
  "swizzle_ok sw \<longleftrightarrow> length sw = 4 \<and> list_all (\<lambda>c. unat c < 4) sw"

definition src_ok :: "src_operand \<Rightarrow> bool" where
  "src_ok s \<longleftrightarrow> register_ok (src_reg s) \<and> swizzle_ok (src_swizzle s) \<and>
     (case src_rel_addr s of None \<Rightarrow> True | Some ra \<Rightarrow> register_ok (ra_reg ra) \<and> swizzle_ok (ra_swizzle ra))"

text \<open>The shift is a four-bit two's complement number, widened.\<close>

definition dst_ok :: "dst_operand \<Rightarrow> bool" where
  "dst_ok d \<longleftrightarrow> register_ok (dst_reg d) \<and> unat (dst_write_mask d) < 16 \<and> unat (dst_mods d) < 8 \<and>
     - 8 \<le> sint (dst_shift_scale d) \<and> sint (dst_shift_scale d) \<le> 7"

definition instruction_ok :: "instruction \<Rightarrow> bool" where
  "instruction_ok i \<longleftrightarrow>
     (case in_dst i of None \<Rightarrow> True | Some d \<Rightarrow> has_destination (in_opcode i) \<and> dst_ok d) \<and>
     list_all src_ok (in_srcs i) \<and>
     (case in_predicate i of None \<Rightarrow> True | Some p \<Rightarrow> src_ok p \<and> in_flags i AND INSTR_PREDICATED \<noteq> 0)"

lemma decode_swizzle_ok: "swizzle_ok (decode_swizzle_bits b)"
  by (simp add: swizzle_ok_def decode_swizzle_bits_def unat_field)

lemma decode_src_ok: "decode_src ts sm1 = Inr (s, n) \<Longrightarrow> src_ok s"
  by (auto simp: decode_src_def Let_def src_ok_def register_ok_def decode_swizzle_ok unat_field
      swizzle_ok_def [of "[0, 0, 0, 0]"] split: list.splits sum.splits if_splits)

lemma u8_below_16: "unat (x :: u8) < 16 \<Longrightarrow> x \<in> {0, 1, 2, 3, 4, 5, 6, 7, 8, 9, 10, 11, 12, 13, 14, 15}"
proof -
  assume "unat x < 16"
  then have "unat x \<in> {0, 1, 2, 3, 4, 5, 6, 7, 8, 9, 10, 11, 12, 13, 14, 15}"
    unfolding insert_iff empty_iff by presburger
  moreover have "x = of_nat (unat x)" by (simp add: of_nat_unat)
  ultimately show ?thesis by (elim insertE emptyE) simp_all
qed

lemma four_bit_shift:
  assumes "unat (x :: u8) < 16"
  shows "- 8 \<le> sint (if x AND 8 \<noteq> 0 then x - 16 else x)" and "sint (if x AND 8 \<noteq> 0 then x - 16 else x) \<le> 7"
  using u8_below_16 [OF assms] by (elim insertE emptyE; simp)+

lemma three_flags: "unat (flag_set (flag_set (flag_set 0 1 a) 2 b) 4 c) < 8"
  by (cases a; cases b; cases c) (simp_all add: flag_set_def)

lemma decode_dst_ok:
  assumes "decode_dst ts = Inr (d, n)"
  shows "dst_ok d"
proof -
  from assms obtain tok rest kind where t: "ts = tok # rest" "tok AND push_bit 13 1 = 0" "decode_reg_type tok = Inr kind"
    by (cases ts; cases "hd ts AND push_bit 13 1 \<noteq> 0"; cases "decode_reg_type (hd ts)")
      (simp_all add: decode_dst_def)
  with assms have d: "d = \<lparr>dst_reg = \<lparr>rk_kind = kind, rk_index = ucast (tok AND 0x7FF)\<rparr>,
      dst_write_mask = ucast (drop_bit 16 tok AND 0xF),
      dst_mods = flag_set (flag_set (flag_set 0 DST_SATURATE ((drop_bit 20 tok AND 0xF) AND 1 \<noteq> 0))
         DST_PARTIAL_PRECISION ((drop_bit 20 tok AND 0xF) AND 2 \<noteq> 0)) DST_CENTROID ((drop_bit 20 tok AND 0xF) AND 4 \<noteq> 0),
      dst_shift_scale = (if ucast (drop_bit 24 tok AND 0xF) AND (0x8 :: u8) \<noteq> 0
         then ucast (drop_bit 24 tok AND 0xF) - 16 else ucast (drop_bit 24 tok AND 0xF))\<rparr>"
    by (simp add: decode_dst_def Let_def)
  show ?thesis
    unfolding dst_ok_def d register_ok_def dst_operand.simps dx_register.simps DST_SATURATE_def DST_PARTIAL_PRECISION_def DST_CENTROID_def
    by (intro conjI four_bit_shift three_flags) (simp_all add: unat_field)
qed

lemma take_operand_src_ok:
  "take_operand (\<lambda>us. decode_src us sm1) present r ts = Inr (Some p, r', ts') \<Longrightarrow> present \<and> src_ok p"
  by (auto simp: take_operand_def split: if_splits sum.splits dest: decode_src_ok)

lemma take_operand_dst_ok:
  "take_operand decode_dst present r ts = Inr (Some d, r', ts') \<Longrightarrow> present \<and> dst_ok d"
  by (auto simp: take_operand_def split: if_splits sum.splits dest: decode_dst_ok)

lemma parse_srcs_src_ok: "parse_srcs r ts sm1 = Inr (ss, ts') \<Longrightarrow> list_all src_ok ss"
proof (induction r ts sm1 arbitrary: ss ts' rule: parse_srcs.induct)
  case (1 r ts sm1)
  show ?case
  proof (cases "r = 0")
    case True
    with 1 show ?thesis by (simp add: parse_srcs.simps)
  next
    case False
    with "1.prems" obtain s n ss1 where d: "decode_src ts sm1 = Inr (s, n)" and n: "\<not> r < n"
      and rec: "parse_srcs (r - n) (drop n ts) sm1 = Inr (ss1, ts')" and ss: "ss = s # ss1"
      by (subst (asm) parse_srcs.simps) (auto split: sum.splits if_splits)
    from "1.IH" [OF False d refl n rec] decode_src_ok [OF d] ss show ?thesis by simp
  qed
qed

lemma predicated_flag:
  "flag_set (flag_set (flag_set (flag_set 0 INSTR_PREDICATED True) INSTR_TEX_PROJECTED b) INSTR_COISSUE c)
     INSTR_TEX_BIASED d AND INSTR_PREDICATED \<noteq> 0"
  by (cases b; cases c; cases d)
    (simp_all add: flag_set_def INSTR_PREDICATED_def INSTR_TEX_PROJECTED_def INSTR_COISSUE_def INSTR_TEX_BIASED_def)

lemma parse_instruction_ok:
  assumes "parse_instruction major op token ts = Inr (inst, ts')"
  shows "instruction_ok inst" and "in_opcode inst = op"
proof -
  let ?p = "token AND push_bit 28 1 \<noteq> 0"
  from assms obtain d p ss r1 ts1 r2 ts2 where
      a: "take_operand decode_dst (has_destination op) (operand_token_count major token ts) ts = Inr (d, r1, ts1)"
    and b: "take_operand (\<lambda>us. decode_src us False) ?p r1 ts1 = Inr (p, r2, ts2)"
    and c: "parse_srcs r2 ts2 (major < 2) = Inr (ss, ts')"
    and i: "inst = instruction_of major op token (d, p, ss)"
    unfolding parse_instruction_def parse_operands_def by (auto split: sum.splits)
  show "in_opcode inst = op" by (simp add: i instruction_of_def Let_def)
  have d: "has_destination op \<and> dst_ok d'" if "d = Some d'" for d'
    using take_operand_dst_ok a that by blast
  have p: "?p \<and> src_ok p'" if "p = Some p'" for p'
    using take_operand_src_ok b that by blast
  show "instruction_ok inst"
    unfolding instruction_ok_def i instruction_of_def Let_def prod.case instruction.simps
  proof (intro conjI)
    show "case d of None \<Rightarrow> True | Some d \<Rightarrow> has_destination op \<and> dst_ok d"
      using d by (simp split: option.split)
    show "list_all src_ok ss" using c by (rule parse_srcs_src_ok)
  next
    show "case p of None \<Rightarrow> True | Some p' \<Rightarrow> src_ok p' \<and>
        flag_set (flag_set (flag_set (flag_set 0 INSTR_PREDICATED ?p)
          INSTR_TEX_PROJECTED (2 \<le> major \<and> op = OpTexLd \<and> token AND 0x00030000 = 0x00010000))
          INSTR_COISSUE (token AND 0x40000000 \<noteq> 0))
          INSTR_TEX_BIASED (2 \<le> major \<and> op = OpTexLd \<and> token AND 0x00030000 = 0x00020000) AND INSTR_PREDICATED \<noteq> 0"
    proof (cases p)
      case (Some p')
      with p have "?p = True" "src_ok p'" by auto
      with Some show ?thesis by (simp only: option.case predicated_flag simp_thms)
    qed simp
  qed
qed

section \<open>The states of a parse\<close>

text \<open>
  A state of the loop: the tokens left and what has been collected. The filing of an instruction
  reads the entry of the current label; the invariant says it is there.
\<close>

definition parse_init :: "u32 list \<times> parse_state \<Rightarrow> bool" where
  "parse_init s \<longleftrightarrow> snd s = parse_start"

inductive parse_step :: "u8 \<Rightarrow> u32 list \<times> parse_state \<Rightarrow> u32 list \<times> parse_state \<Rightarrow> bool" for major where
  "opcode_from_u16 (ucast (token AND 0xFFFF)) = Some op \<Longrightarrow> op \<noteq> OpEnd \<Longrightarrow>
   parse_item major op token rest st = Inr (rest', st') \<Longrightarrow>
   parse_step major (token # rest, st) (rest', st')"

definition declaration_ok :: "dx_declaration \<Rightarrow> bool" where
  "declaration_ok d \<longleftrightarrow>
     (case d of
        DeclSemantic usage usage_index reg m \<Rightarrow> unat usage_index < 16 \<and> register_ok reg \<and> unat m < 16
      | DeclSampler texture reg \<Rightarrow> register_ok reg)"

definition subs_ok :: "(u32 \<times> instruction list) list \<Rightarrow> bool" where
  "subs_ok m \<longleftrightarrow> bt_ok m \<and> (\<forall>b\<in>snd ` set m. list_all instruction_ok b)"

definition parse_ok :: "parse_state \<Rightarrow> bool" where
  "parse_ok st \<longleftrightarrow> list_all instruction_ok (pa_instructions st) \<and> subs_ok (pa_subroutines st) \<and>
     list_all declaration_ok (pa_declarations st) \<and>
     (case pa_current_label st of None \<Rightarrow> True | Some l \<Rightarrow> l \<in> fst ` set (pa_subroutines st))"

lemma sub_entry_ok: "subs_ok m \<Longrightarrow> subs_ok (bt_entry k [] m)"
  unfolding subs_ok_def
proof
  assume m: "bt_ok m \<and> (\<forall>b\<in>snd ` set m. list_all instruction_ok b)"
  then show "bt_ok (bt_entry k [] m)" by (simp add: bt_entry_ok)
  have "list_all instruction_ok b" if "b \<in> insert [] (snd ` set m)" for b
    using that m by auto
  then show "\<forall>b\<in>snd ` set (bt_entry k [] m). list_all instruction_ok b"
    using bt_entry_values [of k "[]" m] by blast
qed

lemma sub_push_ok: "subs_ok m \<Longrightarrow> instruction_ok i \<Longrightarrow> subs_ok (bt_modify k (\<lambda>b. b @ [i]) m)"
  using bt_modify_values [of m "list_all instruction_ok" "\<lambda>b. b @ [i]" k] by (simp add: subs_ok_def bt_modify_ok)

lemma parse_dcl_ok:
  assumes "parse_dcl ts st = Inr (ts', st')" and "parse_ok st"
  shows "parse_ok st'"
proof -
  have small: "unat (w AND 15 :: u32) < 16" for w using unat_and_le [of w 15] by simp
  have push: "parse_ok (st\<lparr>pa_declarations := pa_declarations st @ [d]\<rparr>)" if "declaration_ok d" for d
    using that assms(2) by (cases "pa_current_label st") (simp_all add: parse_ok_def)
  from assms(1) show ?thesis
    by (auto simp: parse_dcl_def Let_def declaration_ok_def register_ok_def unat_field small intro!: push
        split: list.splits sum.splits if_splits)
qed

lemma parse_item_ok:
  assumes ok: "parse_ok st" and item: "parse_item major op token ts st = Inr (ts', st')"
  shows "parse_ok st'"
proof -
  have unchanged: "parse_ok st'" if "pa_instructions st' = pa_instructions st"
    "pa_subroutines st' = pa_subroutines st" "pa_current_label st' = pa_current_label st"
    "pa_declarations st' = pa_declarations st"
    using ok that by (simp add: parse_ok_def split: option.splits)
  consider (dcl) "op = OpDcl" | (decl) "op \<in> {OpComment, OpDef, OpDefI, OpDefB, OpPhase}" | (label) "op = OpLabel"
    | (ret) "op = OpRet" | (inst) "op \<notin> {OpComment, OpDcl, OpDef, OpDefI, OpDefB, OpLabel, OpPhase, OpRet}"
    by blast
  then show ?thesis
  proof cases
    case dcl
    with item have "parse_dcl ts st = Inr (ts', st')" by (simp add: parse_item_def)
    then show ?thesis using ok by (rule parse_dcl_ok)
  next
    case decl
    with item show ?thesis
      by (intro unchanged) (auto simp: parse_item_def parse_comment_def parse_def_def parse_defi_def
          parse_defb_def Let_def split: if_splits list.splits sum.splits)
  next
    case label
    with item ok show ?thesis
      by (auto simp: parse_item_def parse_label_def parse_ok_def sub_entry_ok bt_entry_keys Let_def
          split: if_splits sum.splits)
  next
    case ret
    with item ok show ?thesis by (auto simp: parse_item_def parse_ok_def)
  next
    case inst
    with item obtain i where i: "parse_instruction major op token ts = Inr (i, ts')"
      and st': "st' = push_instruction i st"
      by (auto simp: parse_item_def split: sum.splits)
    with ok parse_instruction_ok(1) [OF i] show ?thesis
      by (auto simp: st' push_instruction_def parse_ok_def sub_push_ok bt_modify_key_set split: option.splits)
  qed
qed

interpretation parser: step_invariant parse_init "parse_step major" "\<lambda>s. parse_ok (snd s)" for major
proof
  fix s t :: "u32 list \<times> parse_state"
  show "parse_ok (snd s)" if "parse_init s"
    using that by (simp add: parse_init_def parse_start_def parse_ok_def subs_ok_def)
  show "parse_ok (snd t)" if "parse_ok (snd s)" "parse_step major s t"
    using that(2,1) by (cases rule: parse_step.cases) (auto dest: parse_item_ok)
qed

lemma parse_loop_ok: "parse_loop major ts st = Inr (rest, st') \<Longrightarrow> parse_ok st \<Longrightarrow> parse_ok st'"
proof (induction major ts st arbitrary: rest st' rule: parse_loop.induct)
  case (1 major ts st)
  from "1.prems"(1) obtain token ts1 op where ts: "ts = token # ts1"
    and op: "opcode_from_u16 (ucast (token AND 0xFFFF)) = Some op"
    by (subst (asm) parse_loop.simps) (auto split: list.splits option.splits)
  show ?case
  proof (cases "op = OpEnd")
    case True
    with 1 ts op show ?thesis by (simp add: parse_loop.simps)
  next
    case False
    with "1.prems"(1) obtain ts2 st2 where item: "parse_item major op token ts1 st = Inr (ts2, st2)"
      and rec: "parse_loop major ts2 st2 = Inr (rest, st')"
      by (subst (asm) parse_loop.simps) (auto simp: ts op split: sum.splits)
    from "1.IH" [OF ts op False item refl rec parse_item_ok [OF "1.prems"(2) item]] show ?thesis .
  qed
qed

lemma parse_Inr:
  assumes "parse bytecode = Inr p"
  obtains first ts shader_type st rest where
    "bytecode = first # ts" "shader_type_of first = Some shader_type"
    "known_model shader_type (ucast (drop_bit 8 first AND 0xFF)) (ucast (first AND 0xFF))"
    "parse_loop (ucast (drop_bit 8 first AND 0xFF)) ts parse_start = Inr (rest, st)"
    "p = program_of bytecode shader_type (ucast (drop_bit 8 first AND 0xFF)) (ucast (first AND 0xFF)) st"
  using assms by (auto simp: parse_def Let_def split: list.splits option.splits if_splits sum.splits)

lemma parse_program_ok:
  assumes "parse bytecode = Inr p"
  shows "list_all instruction_ok (all_instructions p)" and "sorted_wrt (<) (map fst (dp_subroutines p))"
    and "list_all declaration_ok (dp_declarations p)"
proof -
  from assms obtain first ts shader_type st rest where "bytecode = first # ts" and
    loop: "parse_loop (ucast (drop_bit 8 first AND 0xFF)) ts parse_start = Inr (rest, st)"
    and p: "p = program_of bytecode shader_type (ucast (drop_bit 8 first AND 0xFF)) (ucast (first AND 0xFF)) st"
    by (elim parse_Inr) blast
  have "parse_ok st"
    using loop by (rule parse_loop_ok) (simp add: parse_start_def parse_ok_def subs_ok_def)
  then show "list_all instruction_ok (all_instructions p)" "sorted_wrt (<) (map fst (dp_subroutines p))"
    "list_all declaration_ok (dp_declarations p)"
    by (auto simp: p program_of_def all_instructions_def parse_ok_def subs_ok_def bt_ok_def list_all_iff)
qed

text \<open>A vertex shader with one subroutine.\<close>

definition demo_code :: "u32 list" where
  "demo_code = [0xFFFE0300, 0x02000001, 0xC00F0000, 0xA0E40004, 0x0100001E, 0xA0001005,
     0x02000001, 0x800F0001, 0xA0E40006, 0x0000001C, 0x0000FFFF]"

definition demo_mov :: "reg_kind \<Rightarrow> u16 \<Rightarrow> u16 \<Rightarrow> instruction" where
  "demo_mov kind d c =
     \<lparr>in_opcode = OpMov,
      in_dst = Some \<lparr>dst_reg = \<lparr>rk_kind = kind, rk_index = d\<rparr>, dst_write_mask = 15, dst_mods = 0, dst_shift_scale = 0\<rparr>,
      in_srcs = [\<lparr>src_reg = \<lparr>rk_kind = RConst, rk_index = c\<rparr>, src_swizzle = [0, 1, 2, 3], src_mod = SmNone,
                  src_rel_addr = None\<rparr>],
      in_flags = 0, in_predicate = None, in_cmp_func = None\<rparr>"

definition demo_program :: dxso_program where
  "demo_program = \<lparr>dp_bytecode = demo_code, dp_shader_type = VertexShader, dp_major = 3, dp_minor = 0,
     dp_declarations = [], dp_def_constants = [], dp_def_int_constants = [], dp_def_bool_constants = [],
     dp_instructions = [demo_mov RRastOut 0 4], dp_subroutines = [(5, [demo_mov RTemp 1 6])]\<rparr>"

lemmas decode_eval =
  decode_dst_def decode_src_def decode_reg_type_def reg_table_def flag_set_def decode_swizzle_bits_def
  decode_src_modifier_def src_modifier_table_def DST_SATURATE_def DST_PARTIAL_PRECISION_def DST_CENTROID_def

lemmas parse_eval =
  parse_def shader_type_of_def known_model_def Let_def parse_loop.simps opcode_from_u16_def opcode_table_def
  parse_item_def parse_instruction_def operand_token_count_def parse_operands_def take_operand_def
  has_destination_def decode_eval parse_srcs.simps instruction_of_def push_instruction_def parse_start_def
  parse_label_def program_of_def INSTR_PREDICATED_def INSTR_TEX_PROJECTED_def INSTR_COISSUE_def
  INSTR_TEX_BIASED_def

lemma demo_parse: "parse demo_code = Inr demo_program"
  by (simp add: demo_code_def demo_program_def demo_mov_def parse_eval)

text \<open>
  C26. An accepted program is well-typed: every operand of every instruction, subroutine bodies
  included, is in the range of the token field it came from (register numbers below 2048, four
  swizzle lanes below 4, masks below 16, a shift in -8..7), a destination is only there for an
  opcode that has one, a predicate only under the predicated flag, every declaration's usage index
  is below 16, and the subroutines are in strictly increasing label order.
\<close>

theorem accepted_program_well_typed:
  assumes "parse bytecode = Inr p"
  shows "(\<forall>i\<in>set (all_instructions p). instruction_ok i) \<and> (\<forall>d\<in>set (dp_declarations p). declaration_ok d)
    \<and> sorted_wrt (<) (map fst (dp_subroutines p))"
  using parse_program_ok [OF assms] by (simp add: list_all_iff)

theorem accepted_program_well_typed_witness:
  "parse demo_code = Inr demo_program \<and> instruction_ok (demo_mov RRastOut 0 4) \<and> instruction_ok (demo_mov RTemp 1 6)
   \<and> sorted_wrt (<) (map fst (dp_subroutines demo_program))"
  using accepted_program_well_typed [OF demo_parse] demo_parse
  by (simp add: all_instructions_def demo_program_def)

text \<open>
  C27. Whatever the bytecode, when the parser files an instruction under the current label, the
  label's body exists, so the \<^verbatim>\<open>expect\<close> in the source never fires; the instruction lands at the end
  of that body and no other body changes.
\<close>

theorem filing_finds_the_subroutine:
  assumes "reach parse_init (parse_step major) (ts, st)" and "pa_current_label st = Some l"
  shows "\<exists>b. map_of (pa_subroutines st) l = Some b \<and>
    map_of (pa_subroutines (push_instruction i st)) = (map_of (pa_subroutines st))(l \<mapsto> b @ [i])"
proof -
  have ok: "parse_ok st" using parser.reach_inv [OF assms(1)] by simp
  then have "l \<in> fst ` set (pa_subroutines st)" using assms(2) by (simp add: parse_ok_def)
  then obtain b where b: "map_of (pa_subroutines st) l = Some b"
    by (metis domD dom_map_of_conv_image_fst)
  from bt_modify_lookup [OF b] b assms(2) show ?thesis by (simp add: push_instruction_def)
qed

theorem filing_finds_the_subroutine_witness:
  "\<exists>ts st b. reach parse_init (parse_step 3) (ts, st) \<and> pa_current_label st = Some 5 \<and>
     map_of (pa_subroutines (push_instruction (demo_mov RTemp 1 6) st)) =
       (map_of (pa_subroutines st))(5 \<mapsto> b @ [demo_mov RTemp 1 6])"
proof -
  let ?st = "parse_start\<lparr>pa_subroutines := [(5, [])], pa_current_label := Some 5\<rparr>"
  have "parse_item 3 OpLabel 0x0100001E [0xA0001005] parse_start = Inr ([], ?st)"
    by (simp add: parse_eval)
  then have "parse_step 3 ([0x0100001E, 0xA0001005], parse_start) ([], ?st)"
    by (rule parse_step.intros [rotated 2]) (simp_all add: opcode_from_u16_def opcode_table_def)
  then have r: "reach parse_init (parse_step 3) ([], ?st)"
    by (rule reach_step [rotated]) (simp add: reach_init parse_init_def)
  from filing_finds_the_subroutine [OF r, of 5 "demo_mov RTemp 1 6"] r show ?thesis
    by fastforce
qed

text \<open>
  C13. Parsing reads a definite prefix. If a stream parses, there is a length \<open>n\<close> such that whatever
  follows the first \<open>n\<close> tokens does not change the program, and any stream cut before that is
  reported as truncated and as nothing else.
\<close>

theorem parse_reads_a_prefix:
  assumes "parse bytecode = Inr p"
  shows "\<exists>n. 0 < n \<and> n \<le> length bytecode
    \<and> (\<forall>us. parse (take n bytecode @ us) = Inr (p\<lparr>dp_bytecode := take n bytecode @ us\<rparr>))
    \<and> (\<forall>m<n. parse (take m bytecode) = Inl Truncated)"
proof -
  from assms obtain first ts shader_type st rest where
    bc: "bytecode = first # ts" and h: "shader_type_of first = Some shader_type"
      "known_model shader_type (ucast (drop_bit 8 first AND 0xFF)) (ucast (first AND 0xFF))"
    and loop: "parse_loop (ucast (drop_bit 8 first AND 0xFF)) ts parse_start = Inr (rest, st)"
    and p: "p = program_of bytecode shader_type (ucast (drop_bit 8 first AND 0xFF)) (ucast (first AND 0xFF)) st"
    by (rule parse_Inr)
  from parse_loop_reads [OF loop] obtain n where n: "0 < n" "n \<le> length ts"
    and ext: "\<And>us. parse_loop (ucast (drop_bit 8 first AND 0xFF)) (take n ts @ us) parse_start = Inr (us, st)"
    and cut: "\<And>m. m < n \<Longrightarrow> parse_loop (ucast (drop_bit 8 first AND 0xFF)) (take m ts) parse_start = Inl Truncated"
    by blast
  have "parse (take (Suc n) bytecode @ us) = Inr (p\<lparr>dp_bytecode := take (Suc n) bytecode @ us\<rparr>)" for us
    using h ext by (simp add: bc p parse_def program_of_def Let_def)
  moreover have "parse (take m bytecode) = Inl Truncated" if "m < Suc n" for m
    using that h cut by (cases m) (simp_all add: bc parse_def Let_def)
  ultimately show ?thesis using n bc by (intro exI [of _ "Suc n"]) simp
qed

theorem parse_reads_a_prefix_witness:
  "parse demo_code = Inr demo_program \<and>
   (\<exists>n. 0 < n \<and> n \<le> length demo_code
    \<and> (\<forall>us. parse (take n demo_code @ us) = Inr (demo_program\<lparr>dp_bytecode := take n demo_code @ us\<rparr>))
    \<and> parse (take (n - 1) demo_code) = Inl Truncated)"
  using parse_reads_a_prefix [OF demo_parse] demo_parse by (metis diff_less zero_less_one)

section \<open>Constant register limits\<close>

lemma list_max_bound: "m \<in> set xs \<Longrightarrow> \<not> over_limit (list_max xs) limit \<Longrightarrow> unat m < unat limit"
proof -
  assume m: "m \<in> set xs" and "\<not> over_limit (list_max xs) limit"
  then have "Max (set xs) < limit" by (cases xs) (simp_all add: over_limit_def list_max_def not_le)
  with m have "m < limit" by (meson List.finite_set Max_ge le_less_trans)
  then show ?thesis by (simp add: word_less_nat_alt)
qed

definition source_rows :: "instruction \<Rightarrow> nat \<Rightarrow> nat" where
  "source_rows inst i = (if fst (matrix_rows (in_opcode inst)) = Some i then unat (snd (matrix_rows (in_opcode inst))) else 1)"

lemma source_rows_range: "1 \<le> source_rows inst i" "source_rows inst i \<le> 4"
  by (auto simp: source_rows_def matrix_rows_def)

lemma const_read_counted:
  assumes "inst \<in> set (all_instructions p)" "i < length (in_srcs inst)"
    and kind: "rk_kind (src_reg (in_srcs inst ! i)) = RConst"
    and reg: "register_ok (src_reg (in_srcs inst ! i))"
  shows "(\<exists>m\<in>set (const_tops p). unat m = unat (rk_index (src_reg (in_srcs inst ! i))) + source_rows inst i - 1)
    \<or> source_rows inst i = 1 \<and> src_rel_addr (in_srcs inst ! i) = None
      \<and> rk_index (src_reg (in_srcs inst ! i)) \<in> set (map (\<lambda>d. rk_index (dc_reg d)) (dp_def_constants p))"
proof -
  let ?s = "in_srcs inst ! i"
  let ?d = "set (map (\<lambda>d. rk_index (dc_reg d)) (dp_def_constants p))"
  define span :: u16 where "span = (if fst (matrix_rows (in_opcode inst)) = Some i then snd (matrix_rows (in_opcode inst)) else 1)"
  have span: "unat span = source_rows inst i" by (simp add: span_def source_rows_def)
  have top: "src_top ?d inst i ?s = (if span = 1 \<and> src_rel_addr ?s = None \<and> rk_index (src_reg ?s) \<in> ?d then []
      else [rk_index (src_reg ?s) + span - 1])"
    using kind by (simp add: src_top_def span_def split_beta Let_def)
  have no_wrap: "unat (rk_index (src_reg ?s) + span - 1) = unat (rk_index (src_reg ?s)) + source_rows inst i - 1"
    using reg source_rows_range [of inst i] span
    by (simp add: register_ok_def unat_sub_le unat_add_no_overflow word_le_nat_alt)
  have "(i, ?s) \<in> set (enumerate 0 (in_srcs inst))"
    using assms(2) by (simp add: in_set_enumerate_eq)
  then have sub: "set (src_top ?d inst i ?s) \<subseteq> set (const_tops p)"
    using assms(1) unfolding const_tops_def Let_def by fastforce
  show ?thesis
  proof (cases "span = 1 \<and> src_rel_addr ?s = None \<and> rk_index (src_reg ?s) \<in> ?d")
    case True
    with span show ?thesis by simp
  next
    case False
    with top sub no_wrap show ?thesis by auto
  qed
qed

lemma demo_limits: "\<not> violates_constant_register_limits demo_program"
  by (simp add: violates_constant_register_limits_def over_limit_def max_const_reg_def max_const_index_def
      const_tops_def src_top_def matrix_rows_def all_instructions_def list_max_def float_limit_def Let_def
      enumerate_eq_zip demo_program_def demo_mov_def)

text \<open>
  C12. A program the constant-register check lets through reads no row outside its register files:
  every row of every float source, all rows of a matrix source and of a subroutine's sources
  included, is below the float limit of its shader model, and every integer or boolean register
  read is below the limit of those files. The arithmetic in the check does not wrap, because a
  parsed register number is below 2048.
\<close>

theorem limits_bound_constant_reads:
  assumes "parse bytecode = Inr p" "\<not> violates_constant_register_limits p"
    and "inst \<in> set (all_instructions p)" "i < length (in_srcs inst)"
  shows "(rk_kind (src_reg (in_srcs inst ! i)) = RConst \<and> j < source_rows inst i
            \<longrightarrow> unat (rk_index (src_reg (in_srcs inst ! i))) + j < unat (float_limit p))
    \<and> (rk_kind (src_reg (in_srcs inst ! i)) \<in> {RConstInt, RConstBool}
            \<longrightarrow> unat (rk_index (src_reg (in_srcs inst ! i))) < unat (int_bool_limit p))"
proof (intro conjI impI)
  let ?s = "in_srcs inst ! i"
  let ?defs = "map (\<lambda>d. rk_index (dc_reg d)) (dp_def_constants p)"
  have s: "?s \<in> set (in_srcs inst)" using assms(4) by simp
  have reg: "register_ok (src_reg ?s)"
    using parse_program_ok(1) [OF assms(1)] assms(3) s by (auto simp: list_all_iff instruction_ok_def src_ok_def)
  have float: "\<not> over_limit (list_max ((case max_const_reg p of Some m \<Rightarrow> [m] | None \<Rightarrow> []) @ ?defs)) (float_limit p)"
    and ib: "\<not> over_limit (max_const_index p RConstInt) (int_bool_limit p)"
      "\<not> over_limit (max_const_index p RConstBool) (int_bool_limit p)"
    using assms(2) by (simp_all add: violates_constant_register_limits_def Let_def)
  have defs: "unat m < unat (float_limit p)" if "m \<in> set ?defs" for m
    using float by (rule list_max_bound [rotated]) (use that in simp)
  have tops: "unat m < unat (float_limit p)" if "m \<in> set (const_tops p)" for m
  proof -
    from that have max: "max_const_reg p = Some (Max (set (const_tops p)))" and "m \<le> Max (set (const_tops p))"
      by (auto simp: max_const_reg_def list_max_def)
    moreover have "unat (Max (set (const_tops p))) < unat (float_limit p)"
      using float by (rule list_max_bound [rotated]) (simp add: max)
    ultimately show ?thesis by (simp add: word_le_nat_alt)
  qed
  show "unat (rk_index (src_reg ?s)) + j < unat (float_limit p)"
    if c: "rk_kind (src_reg ?s) = RConst \<and> j < source_rows inst i"
    using const_read_counted [OF assms(3,4) conjunct1 [OF c] reg] tops defs c by fastforce
  show "unat (rk_index (src_reg ?s)) < unat (int_bool_limit p)"
    if k: "rk_kind (src_reg ?s) \<in> {RConstInt, RConstBool}"
  proof -
    have "\<not> over_limit (max_const_index p (rk_kind (src_reg ?s))) (int_bool_limit p)" using ib k by auto
    then show ?thesis
      unfolding max_const_index_def Let_def
      by (rule list_max_bound [rotated]) (use assms(3) s in auto)
  qed
qed

theorem limits_bound_constant_reads_witness:
  "\<not> violates_constant_register_limits demo_program \<and> unat (float_limit demo_program) = 256 \<and>
   unat (rk_index (src_reg (in_srcs (demo_mov RTemp 1 6) ! 0))) + 0 < unat (float_limit demo_program)"
proof -
  let ?i = "demo_mov RTemp 1 6"
  have shape: "?i \<in> set (all_instructions demo_program)" "0 < length (in_srcs ?i)"
    "rk_kind (src_reg (in_srcs ?i ! 0)) = RConst" "0 < source_rows ?i 0"
    using source_rows_range(1) [of ?i 0] by (auto simp: all_instructions_def demo_program_def demo_mov_def)
  have "unat (rk_index (src_reg (in_srcs ?i ! 0))) + 0 < unat (float_limit demo_program)"
    using limits_bound_constant_reads [OF demo_parse demo_limits shape(1,2), of 0] shape(3,4) by blast
  moreover have "unat (float_limit demo_program) = 256"
    by (simp add: float_limit_def demo_program_def)
  ultimately show ?thesis using demo_limits by blast
qed

end
