(* ===== verification/Dxso_Walk.thy ===== *)
theory Dxso_Walk
  imports Dxso_Program
begin

text \<open>
  \<^verbatim>\<open>read_shader_bytecode\<close> of \<^verbatim>\<open>src/windows/d3d9/src/device.rs\<close>: Direct3D passes a shader as a bare
  pointer, and the walk finds its length. \<open>mem\<close> is the memory that is readable from the pointer on.
  A read behind it is a fault, the left injection with the index; a refusal is \<open>Inr None\<close>.
\<close>

definition MAX_TOKENS :: nat where "MAX_TOKENS = 65536"

text \<open>What \<^verbatim>\<open>peek\<close> answers from \<open>len\<close> on: nothing at or past the bound.\<close>

definition peek_window :: "u32 list \<Rightarrow> nat \<Rightarrow> u32 list" where
  "peek_window mem len = take (MAX_TOKENS - len) (drop len mem)"

text \<open>Whether the operand run is counted by scanning, and the scan leaves the readable memory.\<close>

definition scan_faults :: "u8 \<Rightarrow> u32 \<Rightarrow> u32 list \<Rightarrow> nat \<Rightarrow> bool" where
  "scan_faults major tok mem len \<longleftrightarrow>
     \<not> 2 \<le> major \<and> opcode_from_u16 (ucast (tok AND 0xFFFF)) \<notin> {Some OpDef, Some OpDefI, Some OpDefB}
     \<and> length mem < MAX_TOKENS \<and> list_all param_token (drop len mem)"

function walk_tokens :: "u8 \<Rightarrow> u32 list \<Rightarrow> nat \<Rightarrow> nat + nat option" where
  "walk_tokens major mem len =
     (if MAX_TOKENS \<le> len then Inr None
      else if length mem \<le> len then Inl len
      else let tok = mem ! len; opcode = ucast (tok AND 0xFFFF) :: u16
           in if opcode = 0xFFFF then Inr (Some (len + 1))
              else if opcode = 0xFFFE
              then walk_tokens major mem (len + 1 + unat (drop_bit 16 tok AND 0x7FFF))
              else if scan_faults major tok mem (len + 1) then Inl (length mem)
              else walk_tokens major mem
                     (len + 1 + operand_token_count major tok (peek_window mem (len + 1))))"
  by pat_completeness auto
termination
  by (relation "measure (\<lambda>(_, _, len). MAX_TOKENS - len)") (auto simp: Let_def)

declare walk_tokens.simps [simp del]

definition read_shader_bytecode :: "u32 list \<Rightarrow> nat + u32 list option" where
  "read_shader_bytecode mem =
     (case mem of
        [] \<Rightarrow> Inl 0
      | version # _ \<Rightarrow>
          if drop_bit 16 version AND 0xFFFF \<notin> {0xFFFE, 0xFFFF} then Inr None
          else (case walk_tokens (ucast (drop_bit 8 version AND 0xFF)) mem 1 of
                  Inl i \<Rightarrow> Inl i
                | Inr None \<Rightarrow> Inr None
                | Inr (Some len) \<Rightarrow> Inr (Some (take len mem))))"

section \<open>The walk and the parser\<close>

text \<open>
  The parser reads a fixed number of operands for declarations, definitions, \<^verbatim>\<open>phase\<close>, \<^verbatim>\<open>label\<close> and
  \<^verbatim>\<open>ret\<close>; the walk goes by the length the token declares. A stream is well-sized when the two
  agree, which is what a shader assembler emits.
\<close>

definition fixed_operands :: "opcode \<Rightarrow> nat option" where
  "fixed_operands op =
     (if op = OpDcl \<or> op = OpDefB then Some 2
      else if op = OpDef \<or> op = OpDefI then Some 5
      else if op = OpLabel then Some 1
      else if op = OpPhase \<or> op = OpRet then Some 0 else None)"

definition item_sized :: "u8 \<Rightarrow> opcode \<Rightarrow> u32 \<Rightarrow> u32 list \<Rightarrow> bool" where
  "item_sized major op token ts \<longleftrightarrow>
     (case fixed_operands op of None \<Rightarrow> True | Some k \<Rightarrow> operand_token_count major token ts = k)
     \<and> (op = OpLabel \<longrightarrow> ts \<noteq> [] \<and> hd ts AND push_bit 13 1 = 0)"

function well_sized :: "u8 \<Rightarrow> u32 list \<Rightarrow> bool" where
  "well_sized major ts =
     (case ts of
        [] \<Rightarrow> True
      | token # rest \<Rightarrow>
          (case opcode_from_u16 (ucast (token AND 0xFFFF)) of
             None \<Rightarrow> True
           | Some op \<Rightarrow>
               if op = OpEnd then True
               else if op = OpComment then well_sized major (drop (unat (drop_bit 16 token AND 0x7FFF)) rest)
               else item_sized major op token rest
                    \<and> well_sized major (drop (operand_token_count major token rest) rest)))"
  by pat_completeness auto
termination
  by (relation "measure (\<lambda>(_, ts). length ts)") auto

declare well_sized.simps [simp del]

lemma decode_src_plain:
  "decode_src ts sm1 = Inr (s, n) \<Longrightarrow> hd ts AND push_bit 13 1 = 0 \<Longrightarrow> n = 1"
  by (auto simp: decode_src_def Let_def split: list.splits sum.splits if_splits)

lemma parse_item_span:
  assumes item: "parse_item major op token ts st = Inr (ts', st')"
    and op: "opcode_from_u16 (ucast (token AND 0xFFFF)) = Some op" and "op \<noteq> OpComment"
    and sized: "item_sized major op token ts"
  shows "ts' = drop (operand_token_count major token ts) ts \<and> operand_token_count major token ts \<le> length ts"
proof -
  consider (dcl) "op = OpDcl" | (def4) "op = OpDef \<or> op = OpDefI" | (defb) "op = OpDefB" | (label) "op = OpLabel"
    | (unit) "op = OpPhase \<or> op = OpRet"
    | (inst) "op \<notin> {OpComment, OpDcl, OpDef, OpDefI, OpDefB, OpLabel, OpPhase, OpRet}"
    using assms(3) by blast
  then show ?thesis
  proof cases
    case dcl
    then have "operand_token_count major token ts = 2" using sized by (simp add: item_sized_def fixed_operands_def)
    with dcl item show ?thesis
      by (auto simp: parse_item_def parse_dcl_def Let_def split: list.splits sum.splits if_splits)
  next
    case def4
    then have n: "operand_token_count major token ts = 5" using sized by (auto simp: item_sized_def fixed_operands_def)
    from def4 item obtain reg v where "parse_def_words 4 ts = Inr (reg, v, ts')"
      by (auto simp: parse_item_def parse_def_def parse_defi_def split: sum.splits)
    from parse_def_words_reads(1,2) [OF this] n show ?thesis by simp
  next
    case defb
    then have n: "operand_token_count major token ts = 2" using sized by (auto simp: item_sized_def fixed_operands_def)
    from defb item obtain reg v where "parse_def_words 1 ts = Inr (reg, v, ts')"
      by (auto simp: parse_item_def parse_defb_def split: sum.splits)
    from parse_def_words_reads(1,2) [OF this] n show ?thesis by (simp add: numeral_2_eq_2)
  next
    case label
    then have n: "operand_token_count major token ts = 1" "hd ts AND push_bit 13 1 = 0"
      using sized by (auto simp: item_sized_def fixed_operands_def)
    from label item obtain l k where d: "decode_src ts False = Inr (l, k)" and "ts' = drop k ts"
      by (auto simp: parse_item_def parse_label_def Let_def split: sum.splits if_splits)
    with decode_src_plain [OF d n(2)] decode_src_length [OF d] n(1) show ?thesis by simp
  next
    case unit
    then have "operand_token_count major token ts = 0" using sized by (auto simp: item_sized_def fixed_operands_def)
    with unit item show ?thesis by (auto simp: parse_item_def)
  next
    case inst
    with item obtain i where i: "parse_instruction major op token ts = Inr (i, ts')"
      by (auto simp: parse_item_def split: sum.splits)
    have "op \<notin> {OpDef, OpDefI, OpDefB}" using inst by simp
    from parse_instruction_reads(1,2) [OF i op this] show ?thesis by simp
  qed
qed

lemma opcode_end: "opcode_from_u16 w = Some OpEnd \<longleftrightarrow> w = 0xFFFF"
  by (auto simp: opcode_from_u16_def opcode_table_def split: if_splits)

lemma opcode_comment: "opcode_from_u16 w = Some OpComment \<longleftrightarrow> w = 0xFFFE"
  by (auto simp: opcode_from_u16_def opcode_table_def split: if_splits)

lemma parse_loop_shorter: "parse_loop major ts st = Inr (rest, st') \<Longrightarrow> length rest < length ts"
  by (auto dest!: parse_loop_reads)

lemma takeWhile_take: "length (takeWhile P xs) \<le> k \<Longrightarrow> takeWhile P (take k xs) = takeWhile P xs"
  by (induction xs arbitrary: k) (auto simp: take_Cons split: nat.splits)

lemma scan_in_window:
  assumes mem: "mem = pre @ token # ts"
    and op: "opcode_from_u16 (ucast (token AND 0xFFFF)) = Some op"
    and n: "operand_token_count major token ts < length ts"
      "length pre + 1 + operand_token_count major token ts < MAX_TOKENS"
  shows "operand_token_count major token (peek_window mem (length pre + 1)) = operand_token_count major token ts"
    and "\<not> scan_faults major token mem (length pre + 1)"
proof -
  have window: "peek_window mem (length pre + 1) = take (MAX_TOKENS - (length pre + 1)) ts"
    by (simp add: peek_window_def mem)
  let ?scan = "\<not> 2 \<le> major \<and> op \<notin> {OpDef, OpDefI, OpDefB}"
  have scan: "operand_token_count major token ts = length (takeWhile param_token ts)" if ?scan
    using that op by (intro operand_token_count_scan) auto
  show "operand_token_count major token (peek_window mem (length pre + 1)) = operand_token_count major token ts"
  proof (cases ?scan)
    case True
    have "takeWhile param_token (take (MAX_TOKENS - (length pre + 1)) ts) = takeWhile param_token ts"
      using n(2) scan [OF True] by (intro takeWhile_take) simp
    then show ?thesis
      using True op scan [OF True] operand_token_count_scan [of major token op "take (MAX_TOKENS - (length pre + 1)) ts"]
      unfolding window by simp
  next
    case False
    then show ?thesis using op by (intro operand_token_count_fixed) auto
  qed
  show "\<not> scan_faults major token mem (length pre + 1)"
  proof
    assume f: "scan_faults major token mem (length pre + 1)"
    then have True: ?scan and all: "list_all param_token ts" using op by (auto simp: scan_faults_def mem)
    from all have "takeWhile param_token ts = ts" by (simp add: list_all_iff)
    with scan [OF True] n(1) show False by simp
  qed
qed

lemma walk_follows_parse:
  assumes "parse_loop major ts st = Inr (rest, st')" "well_sized major ts" "mem = pre @ ts"
    and "length mem - length rest \<le> MAX_TOKENS"
  shows "walk_tokens major mem (length pre) = Inr (Some (length mem - length rest))"
  using assms
proof (induction major ts st arbitrary: pre rest st' rule: parse_loop.induct)
  case (1 major ts st)
  from "1.prems"(1) obtain token ts1 op where ts: "ts = token # ts1"
    and op: "opcode_from_u16 (ucast (token AND 0xFFFF)) = Some op"
    by (subst (asm) parse_loop.simps) (auto split: list.splits option.splits)
  have tok: "mem ! length pre = token" "length pre < length mem" using 1 ts by simp_all
  have lt: "length rest < length ts" using "1.prems"(1) by (rule parse_loop_shorter)
  have room: "length pre < MAX_TOKENS" using "1.prems"(3,4) lt by simp
  have is_end: "ucast (token AND 0xFFFF) = (0xFFFF :: u16) \<longleftrightarrow> op = OpEnd"
    and is_comment: "ucast (token AND 0xFFFF) = (0xFFFE :: u16) \<longleftrightarrow> op = OpComment"
    using op by (auto simp flip: opcode_end opcode_comment)
  show ?case
  proof (cases "op = OpEnd")
    case True
    with "1.prems"(1) have "rest = ts1" by (simp add: parse_loop.simps ts op)
    with True tok room is_end "1.prems"(3) ts show ?thesis by (simp add: walk_tokens.simps)
  next
    case False
    with "1.prems"(1) obtain ts2 st2 where item: "parse_item major op token ts1 st = Inr (ts2, st2)"
      and rec: "parse_loop major ts2 st2 = Inr (rest, st')"
      by (subst (asm) parse_loop.simps) (auto simp: ts op split: sum.splits)
    have lt2: "length rest < length ts2" using rec by (rule parse_loop_shorter)
    have follow: "walk_tokens major mem (length pre + 1 + n) = Inr (Some (length mem - length rest))"
      if n: "ts2 = drop n ts1" "n \<le> length ts1" "well_sized major ts2" for n
    proof -
      have "mem = (pre @ token # take n ts1) @ ts2" using "1.prems"(3) ts n(1) by simp
      from "1.IH" [OF ts op False item refl rec n(3) this "1.prems"(4)] n(2) show ?thesis by simp
    qed
    show ?thesis
    proof (cases "op = OpComment")
      case True
      define n where "n = unat (drop_bit 16 token AND 0x7FFF)"
      from item True have "ts2 = drop n ts1" "n \<le> length ts1"
        by (auto simp: parse_item_def parse_comment_def Let_def n_def split: if_splits)
      moreover have "well_sized major ts2"
        using "1.prems"(2) ts op True \<open>ts2 = drop n ts1\<close> by (subst (asm) well_sized.simps) (simp add: n_def)
      ultimately have "walk_tokens major mem (length pre + 1 + n) = Inr (Some (length mem - length rest))"
        by (rule follow)
      with True tok room is_end is_comment False show ?thesis
        by (subst walk_tokens.simps) (simp add: n_def)
    next
      case comment: False
      define n where "n = operand_token_count major token ts1"
      have sized: "item_sized major op token ts1" "well_sized major (drop n ts1)"
        using "1.prems"(2) ts op False comment by (subst (asm) well_sized.simps, simp add: n_def)+
      from parse_item_span [OF item op comment sized(1)] have n: "ts2 = drop n ts1" "n \<le> length ts1"
        by (simp_all add: n_def)
      have n_lt: "n < length ts1" using lt2 n by simp
      have "length pre + 1 + n < MAX_TOKENS"
        using "1.prems"(3,4) ts n lt2 by simp
      note window = scan_in_window [of mem pre token ts1 op major, folded n_def, OF _ op n_lt this]
      have mem: "mem = pre @ token # ts1" using "1.prems"(3) ts by simp
      show ?thesis
        using follow [OF n] sized(2) n(1) window [OF mem] tok room is_end is_comment False comment
        by (subst walk_tokens.simps) (simp add: Let_def)
    qed
  qed
qed

text \<open>The walk reads nothing at or behind the length it finds.\<close>

lemma walk_result:
  "walk_tokens major mem len = Inr (Some k) \<Longrightarrow> len < k \<and> k \<le> length mem \<and> k \<le> MAX_TOKENS"
proof (induction major mem len rule: walk_tokens.induct)
  case (1 major mem len)
  define tok where "tok = mem ! len"
  have bounds: "\<not> MAX_TOKENS \<le> len" "\<not> length mem \<le> len"
    using "1.prems" by (auto simp: walk_tokens.simps [of major mem len] split: if_splits)
  note ih = "1.IH" [OF bounds tok_def refl]
  have "walk_tokens major mem len = (if ucast (tok AND 0xFFFF) = (0xFFFF :: u16) then Inr (Some (len + 1))
      else if ucast (tok AND 0xFFFF) = (0xFFFE :: u16)
      then walk_tokens major mem (len + 1 + unat (drop_bit 16 tok AND 0x7FFF))
      else if scan_faults major tok mem (len + 1) then Inl (length mem)
      else walk_tokens major mem (len + 1 + operand_token_count major tok (peek_window mem (len + 1))))"
    using bounds by (subst walk_tokens.simps) (simp add: Let_def tok_def)
  with "1.prems" bounds show ?case
    using ih(1) ih(2) by (auto simp: not_le Suc_le_eq split: if_split_asm dest: Suc_lessD)
qed

lemma same_scan:
  assumes same: "\<And>j. j < k \<Longrightarrow> mem' ! j = mem ! j" and k: "k \<le> length mem" "k \<le> length mem'" "k \<le> MAX_TOKENS"
    and n: "l + length (takeWhile P (peek_window mem l)) < k"
  shows "length (takeWhile P (peek_window mem' l)) = length (takeWhile P (peek_window mem l))"
    and "\<not> list_all P (drop l mem')"
proof -
  define n where "n = length (takeWhile P (peek_window mem l))"
  have n': "l + n < k" using n by (simp add: n_def)
  have idx: "peek_window mem' l ! j = peek_window mem l ! j" if "l + j < k" for j
    using that k by (simp add: peek_window_def same)
  have len: "n < length (peek_window mem l)" "n < length (peek_window mem' l)"
    using n' k by (simp_all add: peek_window_def less_diff_conv add.commute)
  have stop: "\<not> P (peek_window mem' l ! n)"
    using nth_length_takeWhile [of P "peek_window mem l"] len(1) idx [of n] n' by (simp add: n_def)
  have "takeWhile P (peek_window mem' l) = take n (peek_window mem' l)"
  proof (rule takeWhile_eq_take_P_nth)
    show "P (peek_window mem' l ! j)" if "j < n" "j < length (peek_window mem' l)" for j
    proof -
      have "P (takeWhile P (peek_window mem l) ! j)"
        using that(1) unfolding n_def by (meson nth_mem set_takeWhileD)
      then show ?thesis
        using that(1) n' idx [of j] by (simp add: n_def takeWhile_nth)
    qed
  qed (rule stop)
  with len(2) show "length (takeWhile P (peek_window mem' l)) = length (takeWhile P (peek_window mem l))"
    by (simp add: n_def)
  have "peek_window mem' l ! n \<in> set (drop l mem')"
    using len(2) unfolding peek_window_def by (metis in_set_takeD nth_mem)
  with stop show "\<not> list_all P (drop l mem')" by (auto simp: list_all_iff)
qed

lemma walk_prefix:
  assumes "walk_tokens major mem len = Inr (Some k)"
    and "\<And>j. j < k \<Longrightarrow> mem' ! j = mem ! j" and "k \<le> length mem'"
  shows "walk_tokens major mem' len = Inr (Some k)"
  using assms
proof (induction major mem len rule: walk_tokens.induct)
  case (1 major mem len)
  note k = walk_result [OF "1.prems"(1)]
  define tok where "tok = mem ! len"
  define opc where "opc = (ucast (tok AND 0xFFFF) :: u16)"
  have tok': "mem' ! len = tok" using k "1.prems"(2) by (simp add: tok_def)
  have bounds: "\<not> MAX_TOKENS \<le> len" "\<not> length mem \<le> len" "\<not> length mem' \<le> len" using k "1.prems"(3) by auto
  have step: "walk_tokens major m len = (if opc = 0xFFFF then Inr (Some (len + 1))
      else if opc = 0xFFFE then walk_tokens major m (len + 1 + unat (drop_bit 16 tok AND 0x7FFF))
      else if scan_faults major tok m (len + 1) then Inl (length m)
      else walk_tokens major m (len + 1 + operand_token_count major tok (peek_window m (len + 1))))"
    if "m = mem \<or> m = mem'" for m
    using that bounds tok' by (subst walk_tokens.simps) (auto simp: Let_def tok_def opc_def)
  consider (fin) "opc = 0xFFFF" | (comment) "opc = 0xFFFE" | (item) "opc \<noteq> 0xFFFF" "opc \<noteq> 0xFFFE" by blast
  then show ?case
  proof cases
    case fin
    with "1.prems"(1) step show ?thesis by simp
  next
    case comment
    then have "walk_tokens major mem (len + 1 + unat (drop_bit 16 tok AND 0x7FFF)) = Inr (Some k)"
      using "1.prems"(1) step [of mem] by simp
    with "1.IH"(1) [OF bounds(1,2) tok_def opc_def _ comment _ "1.prems"(2,3)] comment
    have "walk_tokens major mem' (len + 1 + unat (drop_bit 16 tok AND 0x7FFF)) = Inr (Some k)" by simp
    with comment show ?thesis using step [of mem'] by simp
  next
    case item
    define n where "n = operand_token_count major tok (peek_window mem (len + 1))"
    from item have nf: "\<not> scan_faults major tok mem (len + 1)"
      and rec: "walk_tokens major mem (len + 1 + n) = Inr (Some k)"
      using "1.prems"(1) step [of mem] by (auto simp: n_def split: if_splits)
    have n: "len + 1 + n < k" using walk_result [OF rec] by simp
    have "operand_token_count major tok (peek_window mem' (len + 1)) = n \<and> \<not> scan_faults major tok mem' (len + 1)"
    proof (cases "2 \<le> major \<or> opcode_from_u16 opc \<in> {Some OpDef, Some OpDefI, Some OpDefB}")
      case True
      then show ?thesis unfolding n_def opc_def by (auto simp: operand_token_count_def scan_faults_def)
    next
      case False
      then have count: "operand_token_count major tok w = length (takeWhile param_token w)" for w
        by (auto simp: operand_token_count_def opc_def)
      have "len + 1 + length (takeWhile param_token (peek_window mem (len + 1))) < k"
        using n unfolding n_def count .
      from same_scan [OF "1.prems"(2) _ "1.prems"(3) _ this] k show ?thesis
        by (simp add: n_def count scan_faults_def)
    qed
    then have same: "operand_token_count major tok (peek_window mem' (len + 1)) = n"
      "\<not> scan_faults major tok mem' (len + 1)" by blast+
    have "walk_tokens major mem' (len + 1 + n) = Inr (Some k)"
      using "1.IH"(2) [OF bounds(1,2) tok_def opc_def item] nf rec "1.prems"(2,3) by (simp add: n_def)
    with item same step [of mem'] show ?thesis by simp
  qed
qed

text \<open>
  C11. The walk and the parser agree. If the memory behind the pointer starts with a stream that the
  parser accepts, whose fixed-size items declare their size and whose length is within the walk's
  bound, then the walk returns, it reads nothing behind the \<^verbatim>\<open>End\<close> token (it does not fault even when
  the memory ends there), what it returns is independent of what follows, and parsing it gives the
  program.
\<close>

theorem walk_returns_the_parsed_stream:
  assumes "parse code = Inr p" and "well_sized (dp_major p) (tl code)" and "length code \<le> MAX_TOKENS"
  shows "\<exists>n. 0 < n \<and> n \<le> length code
    \<and> (\<forall>us. read_shader_bytecode (take n code @ us) = Inr (Some (take n code)))
    \<and> parse (take n code) = Inr (p\<lparr>dp_bytecode := take n code\<rparr>)"
proof -
  from assms(1) obtain first ts shader_type st rest where
    bc: "code = first # ts" and h: "shader_type_of first = Some shader_type"
    and known: "known_model shader_type (ucast (drop_bit 8 first AND 0xFF)) (ucast (first AND 0xFF))"
    and loop: "parse_loop (ucast (drop_bit 8 first AND 0xFF)) ts parse_start = Inr (rest, st)"
    and p: "p = program_of code shader_type (ucast (drop_bit 8 first AND 0xFF)) (ucast (first AND 0xFF)) st"
    by (rule parse_Inr)
  let ?major = "ucast (drop_bit 8 first AND 0xFF) :: u8"
  from parse_loop_reads [OF loop] obtain n where n: "0 < n" "n \<le> length ts" "rest = drop n ts"
    and ext: "\<And>us. parse_loop ?major (take n ts @ us) parse_start = Inr (us, st)" by blast
  have sized: "well_sized ?major ts" using assms(2) by (simp add: bc p program_of_def)
  have version: "drop_bit 16 first AND 0xFFFF \<in> {0xFFFE, 0xFFFF}"
    using h by (auto simp: shader_type_of_def split: if_splits)
  have "walk_tokens ?major code (length [first]) = Inr (Some (length code - length rest))"
    by (rule walk_follows_parse [OF loop sized]) (use assms(3) in \<open>simp_all add: bc\<close>)
  moreover have "length code - length rest = Suc n" using n by (simp add: bc)
  ultimately have "walk_tokens ?major code 1 = Inr (Some (Suc n))" by simp
  then have "walk_tokens ?major (take (Suc n) code @ us) 1 = Inr (Some (Suc n))" for us
    by (rule walk_prefix) (use n(2) bc in \<open>simp_all add: nth_append nth_Cons split: nat.split\<close>)
  with version have "read_shader_bytecode (take (Suc n) code @ us) = Inr (Some (take (Suc n) code))" for us
    using n(2) by (simp add: read_shader_bytecode_def bc)
  moreover have "parse (take (Suc n) code) = Inr (p\<lparr>dp_bytecode := take (Suc n) code\<rparr>)"
    using h known ext [of "[]"] by (simp add: bc p parse_def program_of_def Let_def)
  ultimately show ?thesis using n bc by (intro exI [of _ "Suc n"]) simp
qed

theorem walk_returns_the_parsed_stream_witness:
  "parse demo_code = Inr demo_program \<and> well_sized (dp_major demo_program) (tl demo_code) \<and>
   (\<exists>n. 0 < n \<and> n \<le> length demo_code
    \<and> (\<forall>us. read_shader_bytecode (take n demo_code @ us) = Inr (Some (take n demo_code)))
    \<and> parse (take n demo_code) = Inr (demo_program\<lparr>dp_bytecode := take n demo_code\<rparr>))"
proof -
  have sized: "well_sized (dp_major demo_program) (tl demo_code)"
    by (simp add: demo_program_def demo_code_def well_sized.simps item_sized_def fixed_operands_def
        operand_token_count_def opcode_from_u16_def opcode_table_def)
  have len: "length demo_code \<le> MAX_TOKENS" by (simp add: demo_code_def MAX_TOKENS_def)
  from walk_returns_the_parsed_stream [OF demo_parse sized len] demo_parse sized show ?thesis by blast
qed

end
