(* ===== verification/Dxso_Link.thy ===== *)
theory Dxso_Link
  imports Dxso_Program "HOL-Library.Product_Lexorder"
begin

text \<open>
  \<^verbatim>\<open>src/windows/core/src/dxso/link.rs\<close>: the linkage of a shader-model-3 vertex shader to a pixel
  shader by declaration semantic. Each semantic travels in a struct member named after it; the two
  stages are compiled apart, and a pixel shader may declare a member only when the bound vertex
  shader writes it. Generated text is a \<^typ>\<open>string\<close>; log lines are left out.
\<close>

section \<open>Write masks and register order\<close>

definition wm_all :: u8 where "wm_all = 0xF"

definition wm_covers :: "u8 \<Rightarrow> nat \<Rightarrow> bool" where
  "wm_covers m component \<longleftrightarrow> m AND push_bit component 1 \<noteq> 0"

text \<open>The derived order of \<^verbatim>\<open>RegKind\<close>: declaration order.\<close>

fun reg_rank :: "reg_kind \<Rightarrow> nat" where
  "reg_rank RTemp = 0" | "reg_rank RInput = 1" | "reg_rank RConst = 2" | "reg_rank RAddr = 3"
| "reg_rank RRastOut = 4" | "reg_rank RAttrOut = 5" | "reg_rank RTexcoordOut = 6" | "reg_rank RConstInt = 7"
| "reg_rank RColorOut = 8" | "reg_rank RDepthOut = 9" | "reg_rank RSampler = 10" | "reg_rank ROutput = 11"
| "reg_rank RConstBool = 12" | "reg_rank RLoop = 13" | "reg_rank RTempFloat16 = 14" | "reg_rank RMiscType = 15"
| "reg_rank RLabel = 16" | "reg_rank RPredicate = 17"

lemma reg_rank_inj: "reg_rank a = reg_rank b \<Longrightarrow> a = b"
  by (cases a; cases b) simp_all

instantiation reg_kind :: linorder
begin

definition less_eq_reg_kind :: "reg_kind \<Rightarrow> reg_kind \<Rightarrow> bool" where
  "a \<le> b \<longleftrightarrow> reg_rank a \<le> reg_rank b"

definition less_reg_kind :: "reg_kind \<Rightarrow> reg_kind \<Rightarrow> bool" where
  "a < b \<longleftrightarrow> reg_rank a < reg_rank b"

instance
  by standard (auto simp: less_eq_reg_kind_def less_reg_kind_def reg_rank_inj)

end

section \<open>Semantics\<close>

record semantic =
  se_usage :: decl_usage
  se_index :: u8

definition semantic_new :: "decl_usage \<Rightarrow> u32 \<Rightarrow> semantic" where
  "semantic_new usage index = \<lparr>se_usage = usage, se_index = ucast (index AND 0xF)\<rparr>"

fun usage_code :: "decl_usage \<Rightarrow> u8" where
  "usage_code DuPosition = 0" | "usage_code DuBlendWeight = 1" | "usage_code DuBlendIndices = 2"
| "usage_code DuNormal = 3" | "usage_code DuPSize = 4" | "usage_code DuTexcoord = 5"
| "usage_code DuTangent = 6" | "usage_code DuBinormal = 7" | "usage_code DuTessFactor = 8"
| "usage_code DuPositionT = 9" | "usage_code DuColor = 10" | "usage_code DuFog = 11"
| "usage_code DuDepth = 12" | "usage_code DuSample = 13"

definition semantic_code :: "semantic \<Rightarrow> u8" where
  "semantic_code s = (push_bit 4 (usage_code (se_usage s)) OR se_index s)"

definition semantic_from_code :: "u8 \<Rightarrow> semantic" where
  "semantic_from_code code =
     \<lparr>se_usage = (case map_of usage_table (drop_bit 4 code) of Some u \<Rightarrow> u | None \<Rightarrow> DuSample),
      se_index = code AND 0xF\<rparr>"

definition semantic_from_decl :: "u8 \<Rightarrow> u8 \<Rightarrow> semantic option" where
  "semantic_from_decl usage usage_index =
     (if usage_code DuSample < usage then None
      else Some (semantic_from_code (push_bit 4 usage OR (usage_index AND 0xF))))"

definition is_extra :: "semantic \<Rightarrow> bool" where
  "is_extra s \<longleftrightarrow>
     \<not> (se_usage s = DuTexcoord
        \<or> se_usage s \<in> {DuColor, DuPosition} \<and> se_index s \<in> {0, 1}
        \<or> se_usage s \<in> {DuFog, DuPSize} \<and> se_index s = 0)"

definition passes_through :: "semantic \<Rightarrow> bool" where
  "passes_through s =
     (if se_usage s = DuPositionT \<and> se_index s = 0 then False
      else if se_usage s = DuPosition \<and> se_index s = 1 \<or> se_usage s = DuFog \<and> se_index s = 0 then True
      else is_extra s)"

text \<open>\<^verbatim>\<open>Display\<close> of an unsigned integer.\<close>

fun decimal :: "nat \<Rightarrow> string" where
  "decimal n = (if n < 10 then [char_of (48 + n)] else decimal (n div 10) @ [char_of (48 + n mod 10)])"

declare decimal.simps [simp del]

fun usage_name :: "decl_usage \<Rightarrow> string" where
  "usage_name DuPosition = ''position''" | "usage_name DuBlendWeight = ''blendweight''"
| "usage_name DuBlendIndices = ''blendindices''" | "usage_name DuNormal = ''normal''"
| "usage_name DuPSize = ''psize''" | "usage_name DuTexcoord = ''texcoord''"
| "usage_name DuTangent = ''tangent''" | "usage_name DuBinormal = ''binormal''"
| "usage_name DuTessFactor = ''tessfactor''" | "usage_name DuPositionT = ''positiont''"
| "usage_name DuColor = ''color''" | "usage_name DuFog = ''fog''"
| "usage_name DuDepth = ''depth''" | "usage_name DuSample = ''sample''"

definition member :: "semantic \<Rightarrow> string" where
  "member s =
     (if se_usage s = DuPosition \<and> se_index s = 0 then ''position''
      else if se_usage s = DuFog \<and> se_index s = 0 then ''fog''
      else usage_name (se_usage s) @ decimal (unat (se_index s)))"

definition vertex_default :: "semantic \<Rightarrow> string" where
  "vertex_default s =
     (if se_usage s \<in> {DuColor, DuFog} \<and> se_index s = 0 then ''1.0''
      else if se_usage s = DuPSize \<and> se_index s = 0 then ''vs_draw.point.x''
      else ''0.0'')"

section \<open>Declared elements\<close>

record link_element =
  le_semantic :: semantic
  le_reg :: "reg_kind \<times> u16"
  le_mask :: u8

definition element_of :: "dx_declaration \<Rightarrow> link_element option" where
  "element_of decl =
     (case decl of
        DeclSemantic usage usage_index reg m \<Rightarrow>
          Some \<lparr>le_semantic = semantic_new usage usage_index, le_reg = (rk_kind reg, rk_index reg),
                le_mask = (if m = 0 then wm_all else m)\<rparr>
      | DeclSampler _ _ \<Rightarrow> None)"

definition elements :: "dxso_program \<Rightarrow> link_element list" where
  "elements p = List.map_filter element_of (dp_declarations p)"

definition is_output_kind :: "reg_kind \<Rightarrow> bool" where
  "is_output_kind kind \<longleftrightarrow> kind \<in> {RRastOut, RAttrOut, RTexcoordOut, ROutput}"

section \<open>Sets of semantics\<close>

type_synonym semantic_set = "u64 list"

definition semset_empty :: semantic_set where "semset_empty = [0, 0, 0, 0]"

definition semset_insert :: "semantic_set \<Rightarrow> semantic \<Rightarrow> semantic_set" where
  "semset_insert ws s =
     (let code = semantic_code s; i = unat (drop_bit 6 code)
      in ws[i := ws ! i OR push_bit (unat (code AND 63)) 1])"

definition semset_has :: "semantic_set \<Rightarrow> u8 \<Rightarrow> bool" where
  "semset_has ws code \<longleftrightarrow> ws ! unat (drop_bit 6 code) AND push_bit (unat (code AND 63)) 1 \<noteq> 0"

definition semset_contains :: "semantic_set \<Rightarrow> semantic \<Rightarrow> bool" where
  "semset_contains ws s \<longleftrightarrow> semset_has ws (semantic_code s)"

definition semset_is_empty :: "semantic_set \<Rightarrow> bool" where
  "semset_is_empty ws \<longleftrightarrow> list_all (\<lambda>w. w = 0) ws"

definition semset_iter :: "semantic_set \<Rightarrow> semantic list" where
  "semset_iter ws = map semantic_from_code (filter (semset_has ws) (map of_nat [0..<256]))"

definition output_elements :: "dxso_program \<Rightarrow> link_element list" where
  "output_elements vs = filter (\<lambda>e. is_output_kind (fst (le_reg e))) (elements vs)"

definition vs_outputs :: "dxso_program \<Rightarrow> semantic_set" where
  "vs_outputs vs =
     (if dp_shader_type vs \<noteq> VertexShader \<or> dp_major vs \<noteq> 3 then semset_empty
      else foldl (\<lambda>ws e. if is_extra (le_semantic e) then semset_insert ws (le_semantic e) else ws)
             semset_empty (output_elements vs))"

definition passthrough_entries :: "u8 list \<Rightarrow> (nat \<times> semantic) list" where
  "passthrough_entries passthrough =
     enumerate 0 (map semantic_from_code (takeWhile (\<lambda>c. c \<noteq> 0) passthrough))"

definition passthrough_outputs :: "u8 list \<Rightarrow> semantic_set" where
  "passthrough_outputs passthrough =
     foldl (\<lambda>ws (_, s). if is_extra s then semset_insert ws s else ws) semset_empty
       (passthrough_entries passthrough)"

section \<open>Linked inputs\<close>

definition MAX_LINKED_INPUTS :: nat where "MAX_LINKED_INPUTS = 8"

record link_inputs =
  li_codes :: "u8 list"
  li_len :: u8

definition inputs_default :: link_inputs where
  "inputs_default = \<lparr>li_codes = replicate MAX_LINKED_INPUTS 0, li_len = 0\<rparr>"

fun find_index :: "('a \<Rightarrow> bool) \<Rightarrow> 'a list \<Rightarrow> nat option" where
  "find_index P [] = None"
| "find_index P (x # xs) = (if P x then Some 0 else map_option Suc (find_index P xs))"

definition li_used :: "link_inputs \<Rightarrow> u8 list" where
  "li_used li = take (unat (li_len li)) (li_codes li)"

definition li_position :: "link_inputs \<Rightarrow> semantic \<Rightarrow> nat option" where
  "li_position li s = find_index (\<lambda>c. c = semantic_code s) (li_used li)"

definition li_iter :: "link_inputs \<Rightarrow> semantic list" where
  "li_iter li = map semantic_from_code (li_used li)"

definition li_is_empty :: "link_inputs \<Rightarrow> bool" where
  "li_is_empty li \<longleftrightarrow> li_len li = 0"

fun collect_inputs :: "link_element list \<Rightarrow> link_inputs \<Rightarrow> link_inputs" where
  "collect_inputs [] li = li"
| "collect_inputs (e # es) li =
     (if \<not> is_extra (le_semantic e) \<or> li_position li (le_semantic e) \<noteq> None then collect_inputs es li
      else if unat (li_len li) = MAX_LINKED_INPUTS then li
      else collect_inputs es \<lparr>li_codes = (li_codes li)[unat (li_len li) := semantic_code (le_semantic e)],
                              li_len = li_len li + 1\<rparr>)"

definition input_elements :: "dxso_program \<Rightarrow> link_element list" where
  "input_elements ps = filter (\<lambda>e. fst (le_reg e) = RInput) (elements ps)"

definition ps_inputs :: "dxso_program \<Rightarrow> link_inputs" where
  "ps_inputs ps =
     (if dp_shader_type ps \<noteq> PixelShader \<or> dp_major ps \<noteq> 3 then inputs_default
      else collect_inputs (input_elements ps) inputs_default)"

definition mask_against :: "link_inputs \<Rightarrow> semantic_set \<Rightarrow> u8" where
  "mask_against li outputs =
     foldl (\<lambda>acc (i, _). acc OR push_bit i 1) 0
       (filter (\<lambda>(_, s). semset_contains outputs s) (enumerate 0 (li_iter li)))"

section \<open>Vertex outputs\<close>

definition lane_name :: "nat \<Rightarrow> char" where
  "lane_name c = ''xyzw'' ! c"

definition mask_lanes :: "u8 \<Rightarrow> string" where
  "mask_lanes m = (if m = wm_all then '''' else ''.'' @ map lane_name (filter (wm_covers m) [0..<4]))"

definition first_lane_index :: "u8 \<Rightarrow> nat" where
  "first_lane_index m = (case List.find (wm_covers m) [0..<4] of Some c \<Rightarrow> c | None \<Rightarrow> 0)"

definition first_lane :: "u8 \<Rightarrow> char" where
  "first_lane m = lane_name (first_lane_index m)"

definition direct_target :: "link_element \<Rightarrow> string option" where
  "direct_target e =
     (let s = le_semantic e; scalar_off_x = (first_lane (le_mask e) \<noteq> CHR ''x'')
      in if se_usage s \<in> {DuPSize, DuFog} \<and> se_index s = 0 \<and> scalar_off_x then None
         else if se_usage s = DuPSize \<and> se_index s = 0 then Some ''_psize_storage''
         else Some (''out.'' @ member s))"

record vs_output_plan =
  vo_targets :: "((reg_kind \<times> u16) \<times> string) list"
  vo_staged :: "(string \<times> link_element list) list"
  vo_extras :: "semantic list"
  vo_fog :: "((reg_kind \<times> u16) \<times> u8) option"

text \<open>The elements of each register in declaration order, the registers in key order.\<close>

definition group_by :: "('a \<Rightarrow> 'k::linorder) \<Rightarrow> 'a list \<Rightarrow> ('k \<times> 'a list) list" where
  "group_by key es = foldl (\<lambda>m e. bt_modify (key e) (\<lambda>b. b @ [e]) (bt_entry (key e) [] m)) [] es"

definition fog_of :: "link_element list \<Rightarrow> ((reg_kind \<times> u16) \<times> u8) option" where
  "fog_of es =
     foldl (\<lambda>fog e. if se_usage (le_semantic e) = DuFog \<and> se_index (le_semantic e) = 0
                    then Some (le_reg e, push_bit (first_lane_index (le_mask e)) 1) else fog) None es"

definition plan_register ::
  "((reg_kind \<times> u16) \<times> string) list \<times> (string \<times> link_element list) list
   \<Rightarrow> (reg_kind \<times> u16) \<times> link_element list
   \<Rightarrow> ((reg_kind \<times> u16) \<times> string) list \<times> (string \<times> link_element list) list"
where
  "plan_register acc entry =
     (case acc of (targets, staged) \<Rightarrow> case entry of (reg, es) \<Rightarrow>
        (case (case es of [only] \<Rightarrow> direct_target only | _ \<Rightarrow> None) of
           Some target \<Rightarrow> (bt_insert reg target targets, staged)
         | None \<Rightarrow>
             (let local = ''_o'' @ decimal (length staged)
              in (bt_insert reg local targets, staged @ [(local, es)]))))"

definition vs_build :: "dxso_program \<Rightarrow> vs_output_plan option" where
  "vs_build vs =
     (if dp_shader_type vs \<noteq> VertexShader \<or> dp_major vs \<noteq> 3 then None
      else let by_reg = group_by le_reg (output_elements vs);
               (targets, staged) = foldl plan_register ([], []) by_reg
           in Some \<lparr>vo_targets = targets, vo_staged = staged,
                    vo_extras = semset_iter (vs_outputs vs), vo_fog = fog_of (output_elements vs)\<rparr>)"

definition writes_fog :: "vs_output_plan \<Rightarrow> dst_operand \<Rightarrow> bool" where
  "writes_fog plan dst \<longleftrightarrow>
     (case vo_fog plan of
        None \<Rightarrow> False
      | Some (reg, lane) \<Rightarrow>
          reg = (rk_kind (dst_reg dst), rk_index (dst_reg dst)) \<and> dst_write_mask dst AND lane \<noteq> 0)"

definition writeln :: "string \<Rightarrow> string \<Rightarrow> string" where
  "writeln out line = out @ line @ [CHR 0x0A]"

definition staged_default :: "link_element list \<Rightarrow> nat \<Rightarrow> string" where
  "staged_default es c =
     (case List.find (\<lambda>e. wm_covers (le_mask e) c) es of None \<Rightarrow> ''0.0'' | Some e \<Rightarrow> vertex_default (le_semantic e))"

definition float4 :: "(nat \<Rightarrow> string) \<Rightarrow> string" where
  "float4 lane = ''float4('' @ lane 0 @ '', '' @ lane 1 @ '', '' @ lane 2 @ '', '' @ lane 3 @ '')''"

definition vs_write_prologue :: "vs_output_plan \<Rightarrow> string \<Rightarrow> string" where
  "vs_write_prologue plan out =
     foldl (\<lambda>out (local, es). writeln out (''    float4 '' @ local @ '' = '' @ float4 (staged_default es) @ '';''))
       (foldl (\<lambda>out s. writeln out (''    out.'' @ member s @ '' = float4(0.0);'')) out (vo_extras plan))
       (vo_staged plan)"

definition epilogue_line :: "string \<Rightarrow> link_element \<Rightarrow> string" where
  "epilogue_line local e =
     (let s = le_semantic e; sel = mask_lanes (le_mask e)
      in if se_usage s = DuPSize \<and> se_index s = 0
         then ''    _psize_storage.x = '' @ local @ ''.'' @ [first_lane (le_mask e)] @ '';''
         else if se_usage s = DuFog \<and> se_index s = 0
         then ''    out.fog = float4('' @ local @ ''.'' @ [first_lane (le_mask e)] @ '');''
         else ''    out.'' @ member s @ sel @ '' = '' @ local @ sel @ '';'')"

definition vs_write_epilogue :: "vs_output_plan \<Rightarrow> string \<Rightarrow> string" where
  "vs_write_epilogue plan out =
     foldl (\<lambda>out (local, es). foldl (\<lambda>out e. writeln out (epilogue_line local e)) out es) out (vo_staged plan)"

section \<open>Pixel inputs\<close>

record ps_input_plan =
  pi_reads :: "(u16 \<times> string) list"
  pi_locals :: "string list"
  pi_extras :: "semantic list"

text \<open>The expression that reads a semantic; nothing for one that reads zero.\<close>

definition ps_read :: "link_inputs \<Rightarrow> u8 \<Rightarrow> semantic \<Rightarrow> string option" where
  "ps_read link linked_input_mask s =
     (if se_usage s = DuPosition \<and> se_index s = 0 then Some ''in.position''
      else if se_usage s = DuPSize \<and> se_index s = 0 then None
      else if \<not> is_extra s then Some (''in.'' @ member s)
      else let linked = (case li_position link s of
                           None \<Rightarrow> False
                         | Some i \<Rightarrow> linked_input_mask AND push_bit i 1 \<noteq> 0)
           in if linked then Some (''in.'' @ member s) else None)"

definition ps_lane :: "link_inputs \<Rightarrow> u8 \<Rightarrow> link_element list \<Rightarrow> nat \<Rightarrow> string" where
  "ps_lane link linked_input_mask es c =
     (let e = (case List.find (\<lambda>e. wm_covers (le_mask e) c) es of Some e \<Rightarrow> e | None \<Rightarrow> es ! 0)
      in case ps_read link linked_input_mask (le_semantic e) of
           None \<Rightarrow> ''0.0''
         | Some expr \<Rightarrow> expr @ ''.'' @ [lane_name c])"

definition read_register ::
  "link_inputs \<Rightarrow> u8 \<Rightarrow> ps_input_plan \<Rightarrow> u16 \<times> link_element list \<Rightarrow> ps_input_plan"
where
  "read_register link linked_input_mask plan entry =
     (case entry of (index, es) \<Rightarrow>
        (case es of
           [only] \<Rightarrow>
             (let expr = (case ps_read link linked_input_mask (le_semantic only) of
                            Some e \<Rightarrow> e | None \<Rightarrow> ''float4(0.0)'')
              in plan\<lparr>pi_reads := bt_insert index expr (pi_reads plan)\<rparr>)
         | _ \<Rightarrow>
             (let local = ''_v'' @ decimal (unat index);
                  line = ''    float4 '' @ local @ '' = '' @ float4 (ps_lane link linked_input_mask es) @ '';''
              in plan\<lparr>pi_locals := pi_locals plan @ [line],
                       pi_reads := bt_insert index local (pi_reads plan)\<rparr>)))"

definition ps_build :: "dxso_program \<Rightarrow> u8 \<Rightarrow> ps_input_plan" where
  "ps_build ps linked_input_mask =
     (let inputs = input_elements ps
      in if dp_major ps \<noteq> 3 then
           foldl (\<lambda>plan e. plan\<lparr>pi_reads := bt_insert (snd (le_reg e))
                                   (''in.color'' @ decimal (unat (snd (le_reg e)))) (pi_reads plan)\<rparr>)
             \<lparr>pi_reads = [], pi_locals = [], pi_extras = []\<rparr> inputs
         else let link = ps_inputs ps;
                  extras = map snd (filter (\<lambda>(i, _). linked_input_mask AND push_bit i 1 \<noteq> 0)
                                      (enumerate 0 (li_iter link)))
              in foldl (read_register link linked_input_mask)
                   \<lparr>pi_reads = [], pi_locals = [], pi_extras = extras\<rparr>
                   (group_by (\<lambda>e. snd (le_reg e)) inputs))"

definition ps_write_prologue :: "ps_input_plan \<Rightarrow> string \<Rightarrow> string" where
  "ps_write_prologue plan out = foldl writeln out (pi_locals plan)"

definition write_extra_members :: "string \<Rightarrow> semantic list \<Rightarrow> string" where
  "write_extra_members out extras = foldl (\<lambda>out s. writeln out (''    float4 '' @ member s @ '';'')) out extras"

section \<open>Pre-transformed draws\<close>

definition decl_passthrough_code :: "u8 \<Rightarrow> u8 \<Rightarrow> u8 option" where
  "decl_passthrough_code usage usage_index =
     (case semantic_from_decl usage usage_index of
        Some s \<Rightarrow> if passes_through s then Some (semantic_code s) else None
      | None \<Rightarrow> None)"

definition passthrough_extras :: "u8 list \<Rightarrow> semantic list" where
  "passthrough_extras passthrough = filter is_extra (map snd (passthrough_entries passthrough))"

definition write_passthrough_inputs :: "string \<Rightarrow> u8 list \<Rightarrow> u16 \<Rightarrow> string" where
  "write_passthrough_inputs out passthrough attr_base =
     foldl (\<lambda>out (k, _). writeln out (''    float4 p'' @ decimal k @ '' ['' @ ''[attribute('' @ decimal (unat attr_base + k) @ '')]'' @ ''];''))
       out (passthrough_entries passthrough)"

definition write_passthrough_outputs :: "string \<Rightarrow> u8 list \<Rightarrow> bool \<Rightarrow> string" where
  "write_passthrough_outputs out passthrough write_fog =
     foldl (\<lambda>out (k, s). if se_usage s = DuFog \<and> se_index s = 0 \<and> \<not> write_fog then out
                          else writeln out (''    out.'' @ member s @ '' = in.p'' @ decimal k @ '';''))
       out (passthrough_entries passthrough)"

section \<open>Codes of semantics\<close>

definition semantic_ok :: "semantic \<Rightarrow> bool" where
  "semantic_ok s \<longleftrightarrow> unat (se_index s) < 16"

lemma semantic_new_ok: "semantic_ok (semantic_new u i)"
  by (simp add: semantic_ok_def semantic_new_def unat_field)

lemma code_roundtrip: "semantic_ok s \<Longrightarrow> semantic_from_code (semantic_code s) = s"
proof (cases s)
  case (fields u i)
  assume "semantic_ok s"
  then have "i \<in> {0, 1, 2, 3, 4, 5, 6, 7, 8, 9, 10, 11, 12, 13, 14, 15}"
    using fields by (intro u8_below_16) (simp add: semantic_ok_def)
  then show ?thesis
    unfolding fields semantic_from_code_def semantic_code_def usage_table_def
    by (cases u) (elim insertE emptyE; simp)+
qed

lemma code_eq_iff: "semantic_ok s \<Longrightarrow> semantic_ok t \<Longrightarrow> semantic_code s = semantic_code t \<longleftrightarrow> s = t"
  by (metis code_roundtrip)

lemma semantic_from_code_ok: "semantic_ok (semantic_from_code c)"
  using unat_and_le [of c 15] by (simp add: semantic_ok_def semantic_from_code_def)

section \<open>Sets of semantics as bits\<close>

lemma sixty_four: "(2 :: nat) ^ 6 = 64"
  by simp

lemma u8_split:
  "unat (drop_bit 6 (c :: u8)) = unat c div 64" "unat (c AND 63) = unat c mod 64"
proof -
  show "unat (drop_bit 6 c) = unat c div 64" by (subst unat_drop_bit_eq) (simp add: drop_bit_eq_div)
  have "c AND 63 = take_bit 6 c" by (simp add: take_bit_eq_mask mask_eq_exp_minus_1)
  then show "unat (c AND 63) = unat c mod 64"
    unfolding unsigned_take_bit_eq by (metis take_bit_eq_mod unsigned_take_bit_eq sixty_four)
qed

lemma u8_index: "unat (c :: u8) div 64 < 4"
  using unat_lt_len [of c] by simp

lemma semset_has_bit: "semset_has ws c \<longleftrightarrow> bit (ws ! (unat c div 64)) (unat c mod 64)"
  by (simp add: semset_has_def u8_split bit_iff_and_push_bit_not_eq_0)

lemma semset_has_empty: "\<not> semset_has semset_empty c"
proof -
  have "semset_empty ! i = 0" if "i < 4" for i
    using that by (auto simp: semset_empty_def less_Suc_eq numeral_eq_Suc)
  with u8_index show ?thesis by (simp add: semset_has_bit)
qed

lemma length_semset_insert: "length (semset_insert ws s) = length ws"
  by (simp add: semset_insert_def Let_def)

lemma semset_has_insert:
  assumes "length ws = 4"
  shows "semset_has (semset_insert ws s) c \<longleftrightarrow> c = semantic_code s \<or> semset_has ws c"
proof -
  define d where "d = semantic_code s"
  have eq: "c = d \<longleftrightarrow> unat c div 64 = unat d div 64 \<and> unat c mod 64 = unat d mod 64"
    by (metis div_mult_mod_eq unsigned_word_eqI)
  have "unat d mod 64 < 64" by simp
  then show ?thesis
    using eq u8_index [of d] assms
    by (auto simp: semset_has_bit semset_insert_def Let_def u8_split nth_list_update bit_or_iff bit_push_bit_iff
        d_def [symmetric] bit_exp_iff possible_bit_word)
qed

lemma semset_fold:
  assumes "length ws = 4"
  shows "semset_has (foldl (\<lambda>ws e. if is_extra (f e) then semset_insert ws (f e) else ws) ws es) c
    \<longleftrightarrow> semset_has ws c \<or> c \<in> semantic_code ` {s. is_extra s \<and> s \<in> f ` set es}"
  using assms
proof (induction es arbitrary: ws)
  case (Cons e es)
  then show ?case by (auto simp: length_semset_insert semset_has_insert)
qed simp

text \<open>What a vertex shader outputs beyond the members every struct declares.\<close>

definition extra_outputs :: "dxso_program \<Rightarrow> semantic set" where
  "extra_outputs vs =
     (if dp_shader_type vs = VertexShader \<and> dp_major vs = 3
      then {s. is_extra s \<and> s \<in> le_semantic ` set (output_elements vs)} else {})"

lemma elements_ok: "e \<in> set (elements p) \<Longrightarrow> semantic_ok (le_semantic e)"
  by (auto simp: elements_def List.map_filter_def element_of_def semantic_new_ok split: dx_declaration.splits)

lemma extra_outputs_ok: "s \<in> extra_outputs vs \<Longrightarrow> semantic_ok s"
  by (auto simp: extra_outputs_def output_elements_def elements_ok split: if_splits)

lemma vs_outputs_has: "semset_has (vs_outputs vs) c \<longleftrightarrow> c \<in> semantic_code ` extra_outputs vs"
proof (cases "dp_shader_type vs \<noteq> VertexShader \<or> dp_major vs \<noteq> 3")
  case True
  then show ?thesis by (auto simp: vs_outputs_def extra_outputs_def semset_has_empty)
next
  case False
  moreover have "length semset_empty = 4" by (simp add: semset_empty_def)
  ultimately show ?thesis
    using semset_fold [of semset_empty le_semantic "output_elements vs" c]
    by (simp add: vs_outputs_def extra_outputs_def semset_has_empty)
qed

lemma vs_outputs_contains: "semantic_ok s \<Longrightarrow> semset_contains (vs_outputs vs) s \<longleftrightarrow> s \<in> extra_outputs vs"
  using code_eq_iff extra_outputs_ok by (auto simp: semset_contains_def vs_outputs_has)

lemma set_semset_iter: "set (semset_iter ws) = semantic_from_code ` {c. semset_has ws c}"
proof -
  have "c \<in> of_nat ` {0..<256}" for c :: u8
    using unat_lt_len [of c] by (intro image_eqI [of _ _ "unat c"]) (simp_all add: of_nat_unat)
  then have "set (map of_nat [0..<256]) = (UNIV :: u8 set)" by auto
  then show ?thesis unfolding semset_iter_def set_map set_filter by simp
qed

lemma set_vs_outputs: "set (semset_iter (vs_outputs vs)) = extra_outputs vs"
proof -
  have "semantic_from_code ` semantic_code ` extra_outputs vs = id ` extra_outputs vs"
    unfolding image_image by (rule image_cong) (simp_all add: code_roundtrip extra_outputs_ok)
  then show ?thesis by (simp add: set_semset_iter vs_outputs_has)
qed

section \<open>The linked inputs of a pixel shader\<close>

text \<open>First occurrences, in order.\<close>

fun add_new :: "'a list \<Rightarrow> 'a list \<Rightarrow> 'a list" where
  "add_new seen [] = seen"
| "add_new seen (x # xs) = (if x \<in> set seen then add_new seen xs else add_new (seen @ [x]) xs)"

lemma add_new_prefix: "\<exists>ys. add_new seen xs = seen @ ys"
proof (induction seen xs rule: add_new.induct)
  case (2 seen x xs)
  then show ?case by (cases "x \<in> set seen") auto
qed simp

lemma set_add_new: "set (add_new seen xs) = set seen \<union> set xs"
  by (induction seen xs rule: add_new.induct) auto

lemma distinct_add_new: "distinct seen \<Longrightarrow> distinct (add_new seen xs)"
  by (induction seen xs rule: add_new.induct) auto

lemma find_index_Some: "find_index P xs = Some i \<longleftrightarrow> i < length xs \<and> P (xs ! i) \<and> (\<forall>j<i. \<not> P (xs ! j))"
proof (induction xs arbitrary: i)
  case (Cons x xs)
  show ?case
  proof (cases i)
    case 0
    then show ?thesis by auto
  next
    case (Suc k)
    then show ?thesis using Cons.IH [of k] by (auto simp: All_less_Suc2)
  qed
qed simp

lemma find_index_None: "find_index P xs = None \<longleftrightarrow> (\<forall>x\<in>set xs. \<not> P x)"
  by (induction xs) auto

text \<open>The codes in use are those of a list of semantics.\<close>

definition holds_inputs :: "link_inputs \<Rightarrow> semantic list \<Rightarrow> bool" where
  "holds_inputs li ss \<longleftrightarrow> length (li_codes li) = 8 \<and> length ss \<le> 8 \<and> unat (li_len li) = length ss
     \<and> li_used li = map semantic_code ss \<and> list_all semantic_ok ss"

lemma holds_iter: "holds_inputs li ss \<Longrightarrow> li_iter li = ss"
  by (simp add: holds_inputs_def li_iter_def list_all_iff code_roundtrip map_idI)

lemma holds_position: "holds_inputs li ss \<Longrightarrow> semantic_ok s \<Longrightarrow> li_position li s = find_index (\<lambda>t. t = s) ss"
proof -
  assume h: "holds_inputs li ss" and s: "semantic_ok s"
  have "find_index (\<lambda>c. c = semantic_code s) (map semantic_code ts) = find_index (\<lambda>t. t = s) ts"
    if "list_all semantic_ok ts" for ts
    using that s by (induction ts) (auto simp: code_eq_iff)
  with h show ?thesis by (simp add: li_position_def holds_inputs_def)
qed

lemma holds_position_None: "holds_inputs li ss \<Longrightarrow> semantic_ok s \<Longrightarrow> li_position li s = None \<longleftrightarrow> s \<notin> set ss"
  by (auto simp: holds_position find_index_None)

lemma holds_push:
  assumes h: "holds_inputs li ss" and s: "semantic_ok s" and room: "length ss \<noteq> 8"
  shows "holds_inputs \<lparr>li_codes = (li_codes li)[unat (li_len li) := semantic_code s], li_len = li_len li + 1\<rparr> (ss @ [s])"
proof -
  have n: "length ss < 8" "unat (li_len li) = length ss" "length (li_codes li) = 8"
    and used: "take (length ss) (li_codes li) = map semantic_code ss"
    using h room by (auto simp: holds_inputs_def li_used_def)
  have "unat (li_len li + 1) = Suc (length ss)"
    using n by (simp add: unat_add_no_overflow)
  moreover have "take (Suc (length ss)) ((li_codes li)[length ss := semantic_code s]) = map semantic_code ss @ [semantic_code s]"
    using n used by (simp add: take_Suc_conv_app_nth)
  ultimately show ?thesis
    using h s n by (simp add: holds_inputs_def li_used_def)
qed

lemma collect_inputs_exact:
  assumes "holds_inputs li ss" and "\<forall>e\<in>set es. semantic_ok (le_semantic e)"
  shows "holds_inputs (collect_inputs es li) (take 8 (add_new ss (filter is_extra (map le_semantic es))))"
  using assms
proof (induction es li arbitrary: ss rule: collect_inputs.induct)
  case (1 li)
  then show ?case by (simp add: holds_inputs_def)
next
  case (2 e es li)
  let ?s = "le_semantic e"
  have ok: "semantic_ok ?s" using 2 by simp
  note pos = holds_position_None [OF "2.prems"(1) ok]
  consider (skip) "\<not> is_extra ?s \<or> li_position li ?s \<noteq> None"
    | (full) "is_extra ?s" "li_position li ?s = None" "length ss = 8"
    | (push) "is_extra ?s" "li_position li ?s = None" "length ss \<noteq> 8" by blast
  then show ?case
  proof cases
    case skip
    then have "holds_inputs (collect_inputs es li) (take 8 (add_new ss (filter is_extra (map le_semantic es))))"
      using 2 by auto
    then show ?thesis using skip pos by auto
  next
    case full
    obtain ys where "add_new (ss @ [?s]) (filter is_extra (map le_semantic es)) = (ss @ [?s]) @ ys"
      using add_new_prefix by blast
    then show ?thesis
      using full pos "2.prems"(1) by (simp add: holds_inputs_def MAX_LINKED_INPUTS_def)
  next
    case push
    moreover have "unat (li_len li) \<noteq> MAX_LINKED_INPUTS"
      using push(3) "2.prems"(1) by (simp add: holds_inputs_def MAX_LINKED_INPUTS_def)
    ultimately show ?thesis
      using "2.IH"(2) [OF _ _ holds_push [OF "2.prems"(1) ok push(3)]] "2.prems"(2) pos by simp
  qed
qed

text \<open>The semantics a pixel shader links, as a list over its declarations.\<close>

definition linked_semantics :: "dxso_program \<Rightarrow> semantic list" where
  "linked_semantics ps =
     (if dp_shader_type ps = PixelShader \<and> dp_major ps = 3
      then take 8 (add_new [] (filter is_extra (map le_semantic (input_elements ps)))) else [])"

lemma ps_inputs_holds: "holds_inputs (ps_inputs ps) (linked_semantics ps)"
proof -
  have start: "holds_inputs inputs_default []"
    by (simp add: holds_inputs_def inputs_default_def li_used_def MAX_LINKED_INPUTS_def)
  moreover have "\<forall>e\<in>set (input_elements ps). semantic_ok (le_semantic e)"
    by (auto simp: input_elements_def elements_ok)
  ultimately show ?thesis
    using collect_inputs_exact [OF start] by (auto simp: ps_inputs_def linked_semantics_def)
qed

lemma linked_semantics_extra: "s \<in> set (linked_semantics ps) \<Longrightarrow> is_extra s \<and> semantic_ok s"
proof -
  assume "s \<in> set (linked_semantics ps)"
  then have "s \<in> set (add_new [] (filter is_extra (map le_semantic (input_elements ps))))"
    by (auto simp: linked_semantics_def split: if_splits dest: in_set_takeD)
  then show ?thesis by (auto simp: set_add_new input_elements_def elements_ok)
qed

lemma distinct_linked: "distinct (linked_semantics ps)"
  by (simp add: linked_semantics_def distinct_add_new)

section \<open>The two halves of the decision\<close>

lemma bit_fold_or:
  "bit (foldl (\<lambda>acc (i, _). acc OR push_bit i 1) (a :: u8) xs) n \<longleftrightarrow> bit a n \<or> n < 8 \<and> n \<in> fst ` set xs"
proof (induction xs arbitrary: a)
  case (Cons x xs)
  obtain i y where x: "x = (i, y)" by (cases x)
  have "bit (a OR push_bit i 1) n \<longleftrightarrow> bit a n \<or> n < 8 \<and> n = i"
    by (auto simp: bit_or_iff bit_exp_iff possible_bit_word)
  then show ?case
    unfolding foldl_Cons x prod.case Cons.IH by auto
qed simp

lemma mask_against_bit:
  assumes "i < length (li_iter li)" "length (li_iter li) \<le> 8"
  shows "bit (mask_against li outs) i \<longleftrightarrow> semset_contains outs (li_iter li ! i)"
proof -
  have "i \<in> fst ` set (filter (\<lambda>(_, s). semset_contains outs s) (enumerate 0 (li_iter li)))
      \<longleftrightarrow> semset_contains outs (li_iter li ! i)"
    using assms(1) by (force simp: in_set_enumerate_eq)
  then show ?thesis
    using assms unfolding mask_against_def bit_fold_or by auto
qed

lemma foldl_keeps: "(\<And>p e. g (h p e) = g p) \<Longrightarrow> g (foldl h p es) = g p"
  by (induction es arbitrary: p) auto

lemma fold_register_extras: "pi_extras (foldl (read_register link m) plan es) = pi_extras plan"
  by (rule foldl_keeps) (simp add: read_register_def Let_def split: prod.split list.split)

lemma ps_extras:
  "set (pi_extras (ps_build ps m)) = {linked_semantics ps ! i | i. i < length (linked_semantics ps) \<and> bit m i}"
proof (cases "dp_major ps = 3")
  case True
  have "set (map snd (filter (\<lambda>(i, _). m AND push_bit i 1 \<noteq> 0) (enumerate 0 xs))) = {xs ! i | i. i < length xs \<and> bit m i}"
    for xs :: "semantic list"
    by (force simp: in_set_enumerate_eq bit_iff_and_push_bit_not_eq_0 image_def)
  with True show ?thesis
    by (simp add: ps_build_def Let_def fold_register_extras holds_iter [OF ps_inputs_holds])
next
  case False
  then have "pi_extras (ps_build ps m) = []"
    unfolding ps_build_def Let_def by (simp add: foldl_keeps [where g = pi_extras])
  with False show ?thesis by (simp add: linked_semantics_def)
qed

lemma ps_read_extra:
  assumes "is_extra s" "semantic_ok s"
  shows "ps_read (ps_inputs ps) m s \<noteq> None \<longleftrightarrow> s \<in> set (pi_extras (ps_build ps m))"
proof -
  have "ps_read (ps_inputs ps) m s \<noteq> None
      \<longleftrightarrow> (\<exists>i. find_index (\<lambda>t. t = s) (linked_semantics ps) = Some i \<and> bit m i)"
    using assms holds_position [OF ps_inputs_holds assms(2), of ps]
    by (auto simp: ps_read_def Let_def is_extra_def bit_iff_and_push_bit_not_eq_0 split: option.split)
  also have "\<dots> \<longleftrightarrow> (\<exists>i<length (linked_semantics ps). linked_semantics ps ! i = s \<and> bit m i)"
    using nth_eq_iff_index_eq [OF distinct_linked [of ps]] by (auto simp: find_index_Some)
  finally show ?thesis by (auto simp: ps_extras)
qed

text \<open>
  C14. The stages agree on the members they exchange. For any vertex and pixel shader, with the mask
  computed for the pair: the extra members the pixel shader declares are exactly the linked inputs
  the vertex shader outputs, the vertex shader declares every member it outputs, and the extra
  semantics the pixel shader reads from a member are exactly those it declares. So a pixel shader
  never declares or reads a member the bound vertex shader does not write.
\<close>

theorem stages_agree_on_members:
  "let m = mask_against (ps_inputs ps) (vs_outputs vs); plan = ps_build ps m
   in set (pi_extras plan) = set (linked_semantics ps) \<inter> extra_outputs vs
      \<and> {s. is_extra s \<and> semantic_ok s \<and> ps_read (ps_inputs ps) m s \<noteq> None} = set (pi_extras plan)
      \<and> map_option (\<lambda>vo. set (vo_extras vo)) (vs_build vs)
          = (if dp_shader_type vs = VertexShader \<and> dp_major vs = 3 then Some (extra_outputs vs) else None)"
proof -
  define m where "m = mask_against (ps_inputs ps) (vs_outputs vs)"
  have iter: "li_iter (ps_inputs ps) = linked_semantics ps" by (rule holds_iter [OF ps_inputs_holds])
  have len: "length (linked_semantics ps) \<le> 8" by (simp add: linked_semantics_def)
  have bit: "bit m i \<longleftrightarrow> linked_semantics ps ! i \<in> extra_outputs vs" if "i < length (linked_semantics ps)" for i
    using mask_against_bit [of i "ps_inputs ps" "vs_outputs vs"] that len linked_semantics_extra [OF nth_mem [OF that]]
    by (simp add: iter m_def vs_outputs_contains)
  have extras: "set (pi_extras (ps_build ps m)) = set (linked_semantics ps) \<inter> extra_outputs vs"
    using bit by (auto simp: ps_extras in_set_conv_nth) (metis bit)
  have ok: "is_extra s \<and> semantic_ok s" if "s \<in> set (pi_extras (ps_build ps m))" for s
    using that linked_semantics_extra by (auto simp: extras)
  then have reads: "{s. is_extra s \<and> semantic_ok s \<and> ps_read (ps_inputs ps) m s \<noteq> None} = set (pi_extras (ps_build ps m))"
    using ps_read_extra [of _ ps m] by blast
  have "map_option (\<lambda>vo. set (vo_extras vo)) (vs_build vs)
      = (if dp_shader_type vs = VertexShader \<and> dp_major vs = 3 then Some (extra_outputs vs) else None)"
    by (simp add: vs_build_def Let_def split_beta set_vs_outputs)
  with extras reads show ?thesis by (simp add: Let_def m_def)
qed

section \<open>Member names\<close>

definition digit :: "char \<Rightarrow> bool" where
  "digit c \<longleftrightarrow> of_char c \<in> {48..<58 :: nat}"

definition undecimal :: "string \<Rightarrow> nat" where
  "undecimal cs = foldl (\<lambda>a c. 10 * a + (of_char c - 48)) 0 cs"

lemma decimal_digits: "c \<in> set (decimal n) \<Longrightarrow> digit c"
proof (induction n rule: decimal.induct)
  case (1 n)
  then show ?case by (subst (asm) (2) decimal.simps) (auto simp: digit_def split: if_splits)
qed

lemma undecimal_decimal: "undecimal (decimal n) = n"
proof (induction n rule: decimal.induct)
  case (1 n)
  show ?case
  proof (cases "n < 10")
    case True
    then show ?thesis by (subst decimal.simps) (simp add: undecimal_def)
  next
    case False
    then have "undecimal (decimal n) = 10 * undecimal (decimal (n div 10)) + n mod 10"
      by (subst decimal.simps) (simp add: undecimal_def)
    with 1 False show ?thesis by simp
  qed
qed

lemma usage_name_letters: "c \<in> set (usage_name u) \<Longrightarrow> \<not> digit c"
  by (cases u) (auto simp: digit_def)

lemma usage_name_inj: "usage_name u = usage_name v \<Longrightarrow> u = v"
  by (cases u; cases v) simp_all

definition member_digits :: "semantic \<Rightarrow> string" where
  "member_digits s =
     (if se_usage s \<in> {DuPosition, DuFog} \<and> se_index s = 0 then [] else decimal (unat (se_index s)))"

lemma member_eq: "member s = usage_name (se_usage s) @ member_digits s"
  by (auto simp: member_def member_digits_def)

lemma member_parts:
  "takeWhile (\<lambda>c. \<not> digit c) (member s) = usage_name (se_usage s)"
  "dropWhile (\<lambda>c. \<not> digit c) (member s) = member_digits s"
proof -
  have nd: "\<not> digit c" if "c \<in> set (usage_name (se_usage s))" for c using that usage_name_letters by blast
  have d: "member_digits s = [] \<or> digit (hd (member_digits s))"
    using decimal_digits by (auto simp: member_digits_def intro: hd_in_set)
  then have "takeWhile (\<lambda>c. \<not> digit c) (member_digits s) = []"
    and "dropWhile (\<lambda>c. \<not> digit c) (member_digits s) = member_digits s"
    by (cases "member_digits s"; simp)+
  then show "takeWhile (\<lambda>c. \<not> digit c) (member s) = usage_name (se_usage s)"
    "dropWhile (\<lambda>c. \<not> digit c) (member s) = member_digits s"
    using nd by (simp_all add: member_eq takeWhile_append2 dropWhile_append2)
qed

text \<open>
  Two different semantics never travel in the same member: the member name determines the usage
  and the index, so separately compiled stages cannot mix two semantics up.
\<close>

lemma member_names_injective:
  "inj member"
proof (rule injI)
  fix s t assume eq: "member s = member t"
  have usage: "se_usage s = se_usage t"
    using member_parts(1) [of s] member_parts(1) [of t] eq usage_name_inj by metis
  have digits: "member_digits s = member_digits t"
    using member_parts(2) [of s] member_parts(2) [of t] eq by metis
  have nonempty: "decimal n \<noteq> []" "[] \<noteq> decimal n" for n by (subst decimal.simps, simp)+
  have "unat (se_index s) = unat (se_index t)"
  proof (cases "se_usage s \<in> {DuPosition, DuFog} \<and> (se_index s = 0 \<or> se_index t = 0)")
    case True
    with digits usage nonempty show ?thesis by (auto simp: member_digits_def split: if_splits)
  next
    case False
    with digits usage have "decimal (unat (se_index s)) = decimal (unat (se_index t))"
      by (auto simp: member_digits_def split: if_splits)
    then show ?thesis by (metis undecimal_decimal)
  qed
  with usage show "s = t" by (cases s; cases t) (simp add: word_unat_eq_iff)
qed

section \<open>Where vertex outputs are written\<close>

lemma group_by_snoc: "group_by key (es @ [e]) = bt_modify (key e) (\<lambda>b. b @ [e]) (bt_entry (key e) [] (group_by key es))"
  by (simp add: group_by_def)

lemma group_by_ok: "bt_ok (group_by key es)"
  by (induction es rule: rev_induct) (simp_all add: group_by_snoc bt_entry_ok bt_modify_ok, simp add: group_by_def)

lemma group_by_lookup:
  "map_of (group_by key es) k = (if filter (\<lambda>e. key e = k) es = [] then None else Some (filter (\<lambda>e. key e = k) es))"
proof (induction es arbitrary: k rule: rev_induct)
  case Nil
  then show ?case by (simp add: group_by_def)
next
  case (snoc e es)
  let ?m = "bt_entry (key e) [] (group_by key es)"
  have m: "map_of ?m = (map_of (group_by key es))(key e \<mapsto> filter (\<lambda>x. key x = key e) es)"
    using bt_entry_lookup [OF group_by_ok, of "key e" "[]" key es] snoc by (auto split: option.split)
  then have "map_of (bt_modify (key e) (\<lambda>b. b @ [e]) ?m) = (map_of ?m)(key e \<mapsto> filter (\<lambda>x. key x = key e) es @ [e])"
    by (intro bt_modify_lookup) simp
  with m snoc show ?case by (auto simp: group_by_snoc)
qed

lemma plan_fold:
  assumes "distinct (map fst m)" "bt_ok ts" "foldl plan_register (ts, st) m = (ts', st')"
    and "map fst st = map (\<lambda>i. ''_o'' @ decimal i) [0..<length st]"
  shows "set st \<subseteq> set st' \<and> (\<forall>k. k \<notin> fst ` set m \<longrightarrow> map_of ts' k = map_of ts k)
    \<and> (\<forall>k g. (k, g) \<in> set m \<longrightarrow>
         (\<exists>t. map_of ts' k = Some t \<and> ((\<exists>e. g = [e] \<and> direct_target e = Some t) \<or> (t, g) \<in> set st')))
    \<and> map fst st' = map (\<lambda>i. ''_o'' @ decimal i) [0..<length st']"
  using assms
proof (induction m arbitrary: ts st)
  case (Cons x m)
  obtain k g where x: "x = (k, g)" by (cases x)
  define d where "d = (case g of [only] \<Rightarrow> direct_target only | _ \<Rightarrow> None)"
  define t where "t = (case d of Some t \<Rightarrow> t | None \<Rightarrow> ''_o'' @ decimal (length st))"
  define st1 where "st1 = (case d of Some t \<Rightarrow> st | None \<Rightarrow> st @ [(''_o'' @ decimal (length st), g)])"
  have step: "plan_register (ts, st) x = (bt_insert k t ts, st1)"
    by (cases d) (simp_all add: plan_register_def x d_def [symmetric] t_def st1_def Let_def)
  have names: "map fst st1 = map (\<lambda>i. ''_o'' @ decimal i) [0..<length st1]"
    using Cons.prems(4) by (cases d) (simp_all add: st1_def)
  have rec: "foldl plan_register (bt_insert k t ts, st1) m = (ts', st')"
    using Cons.prems(3) step by simp
  have ih: "set st1 \<subseteq> set st' \<and> (\<forall>k'. k' \<notin> fst ` set m \<longrightarrow> map_of ts' k' = map_of (bt_insert k t ts) k')
    \<and> (\<forall>k g. (k, g) \<in> set m \<longrightarrow>
         (\<exists>t. map_of ts' k = Some t \<and> ((\<exists>e. g = [e] \<and> direct_target e = Some t) \<or> (t, g) \<in> set st')))
    \<and> map fst st' = map (\<lambda>i. ''_o'' @ decimal i) [0..<length st']"
    using Cons.prems(1,2) x by (intro Cons.IH [OF _ _ rec names]) (simp_all add: bt_insert_ok)
  have fresh: "k \<notin> fst ` set m" using Cons.prems(1) x by auto
  have here: "(\<exists>e. g = [e] \<and> direct_target e = Some t) \<or> (t, g) \<in> set st1"
  proof (cases d)
    case None
    then show ?thesis by (simp add: t_def st1_def)
  next
    case (Some u)
    then obtain e where "g = [e]" by (auto simp: d_def split: list.splits)
    with Some show ?thesis by (simp add: d_def t_def)
  qed
  have "map_of ts' k = map_of (bt_insert k t ts) k" using ih fresh by blast
  then have k: "map_of ts' k = Some t" by (simp add: bt_insert_lookup [OF Cons.prems(2)])
  show ?case
  proof (intro conjI allI impI)
    have "set st \<subseteq> set st1" by (auto simp: st1_def split: option.split)
    with ih show "set st \<subseteq> set st'" by blast
    show "map_of ts' k' = map_of ts k'" if "k' \<notin> fst ` set (x # m)" for k'
    proof -
      have "k' \<notin> fst ` set m" using that by simp
      then have "map_of ts' k' = map_of (bt_insert k t ts) k'" using ih by blast
      with that show ?thesis by (simp add: x bt_insert_lookup [OF Cons.prems(2)])
    qed
    show "\<exists>t. map_of ts' k' = Some t \<and> ((\<exists>e. g' = [e] \<and> direct_target e = Some t) \<or> (t, g') \<in> set st')"
      if "(k', g') \<in> set (x # m)" for k' g'
    proof (cases "(k', g') = x")
      case True
      with k here ih show ?thesis unfolding x by blast
    next
      case False
      with that have "(k', g') \<in> set m" by simp
      with ih show ?thesis by blast
    qed
  qed (use ih in blast)
qed simp

text \<open>
  C38. Packed outputs neither collide nor lose a semantic. Every output register a shader-model-3
  vertex shader declares has a write target: the member of its only semantic, or a staging local
  that carries all the semantics declared on the register, in declaration order, for the epilogue
  to copy out; and the staging locals have different names.
\<close>

theorem output_targets_complete:
  assumes "vs_build vs = Some plan" and "e \<in> set (output_elements vs)"
  shows "\<exists>t. map_of (vo_targets plan) (le_reg e) = Some t
    \<and> (direct_target e = Some t \<and> filter (\<lambda>e'. le_reg e' = le_reg e) (output_elements vs) = [e]
       \<or> (t, filter (\<lambda>e'. le_reg e' = le_reg e) (output_elements vs)) \<in> set (vo_staged plan))
    \<and> distinct (map fst (vo_staged plan))"
proof -
  let ?m = "group_by le_reg (output_elements vs)"
  let ?g = "filter (\<lambda>e'. le_reg e' = le_reg e) (output_elements vs)"
  obtain ts st where fold: "foldl plan_register ([], []) ?m = (ts, st)" by (cases "foldl plan_register ([], []) ?m")
  with assms(1) have plan: "vo_targets plan = ts" "vo_staged plan = st"
    by (auto simp: vs_build_def Let_def split: if_splits)
  have "?g \<noteq> []" using assms(2) by (auto simp: filter_empty_conv)
  then have "map_of ?m (le_reg e) = Some ?g" by (simp add: group_by_lookup)
  then have mem: "(le_reg e, ?g) \<in> set ?m" by (rule map_of_SomeD)
  have all: "(\<forall>k g. (k, g) \<in> set ?m \<longrightarrow>
         (\<exists>t. map_of ts k = Some t \<and> ((\<exists>e. g = [e] \<and> direct_target e = Some t) \<or> (t, g) \<in> set st)))
    \<and> map fst st = map (\<lambda>i. ''_o'' @ decimal i) [0..<length st]"
    using plan_fold [OF bt_ok_distinct [OF group_by_ok] _ fold] by simp
  then obtain t where t: "map_of ts (le_reg e) = Some t" "(\<exists>e'. ?g = [e'] \<and> direct_target e' = Some t) \<or> (t, ?g) \<in> set st"
    using mem by blast
  have "e' = e" if "?g = [e']" for e'
  proof -
    have "e \<in> set ?g" using assms(2) by simp
    with that show ?thesis by simp
  qed
  with t(2) have "direct_target e = Some t \<and> ?g = [e] \<or> (t, ?g) \<in> set st" by metis
  moreover have "distinct (map fst st)"
  proof -
    have "inj_on (\<lambda>i. ''_o'' @ decimal i) A" for A
      by (rule inj_onI) (metis same_append_eq undecimal_decimal)
    with all show ?thesis by (simp add: distinct_map)
  qed
  ultimately show ?thesis using t(1) plan by blast
qed

text \<open>A vertex shader that packs two semantics into \<^verbatim>\<open>o1\<close>.\<close>

definition packed_vs :: dxso_program where
  "packed_vs = demo_program\<lparr>dp_declarations :=
     [DeclSemantic DuPosition 0 \<lparr>rk_kind = ROutput, rk_index = 0\<rparr> 15,
      DeclSemantic DuTexcoord 0 \<lparr>rk_kind = ROutput, rk_index = 1\<rparr> 3,
      DeclSemantic DuNormal 0 \<lparr>rk_kind = ROutput, rk_index = 1\<rparr> 12]\<rparr>"

theorem output_targets_complete_witness:
  "\<exists>plan t. vs_build packed_vs = Some plan \<and> map_of (vo_targets plan) (ROutput, 1) = Some t
     \<and> (t, filter (\<lambda>e. le_reg e = (ROutput, 1)) (output_elements packed_vs)) \<in> set (vo_staged plan)"
proof -
  let ?e = "\<lparr>le_semantic = \<lparr>se_usage = DuTexcoord, se_index = 0\<rparr>, le_reg = (ROutput, 1), le_mask = 3\<rparr>"
  have e: "?e \<in> set (output_elements packed_vs)"
    and two: "length (filter (\<lambda>e'. le_reg e' = le_reg ?e) (output_elements packed_vs)) = 2"
    by (simp_all add: output_elements_def elements_def packed_vs_def List.map_filter_def element_of_def
        semantic_new_def is_output_kind_def)
  obtain plan where plan: "vs_build packed_vs = Some plan"
    by (simp add: vs_build_def packed_vs_def demo_program_def Let_def split_beta)
  from output_targets_complete [OF plan e] obtain t where t: "map_of (vo_targets plan) (le_reg ?e) = Some t"
    "filter (\<lambda>e'. le_reg e' = le_reg ?e) (output_elements packed_vs) = [?e]
     \<or> (t, filter (\<lambda>e'. le_reg e' = le_reg ?e) (output_elements packed_vs)) \<in> set (vo_staged plan)"
    by blast
  moreover have "filter (\<lambda>e'. le_reg e' = le_reg ?e) (output_elements packed_vs) \<noteq> [?e]"
    using two by auto
  ultimately show ?thesis using plan by auto
qed


section \<open>Pre-transformed draws\<close>

text \<open>
  C39. The passthrough list round trip: the codes collected from declaration elements, padded with
  zeros to the fixed length, are read back as exactly those elements' semantics at their positions.
  The padding is safe because the code zero, \<^verbatim>\<open>POSITION0\<close>, never passes through.
\<close>

theorem passthrough_list_roundtrip:
  assumes "map (\<lambda>(u, i). decl_passthrough_code u i) es = map Some codes" and "length es \<le> MAX_LINKED_INPUTS"
  shows "passthrough_entries (codes @ replicate (MAX_LINKED_INPUTS - length codes) 0)
    = enumerate 0 (map (\<lambda>(u, i). the (semantic_from_decl u i)) es)"
proof -
  have one: "c \<noteq> 0 \<and> semantic_from_code c = the (semantic_from_decl u i)"
    if "decl_passthrough_code u i = Some c" for u i c
  proof -
    from that obtain s where s: "semantic_from_decl u i = Some s" "passes_through s" "c = semantic_code s"
      by (auto simp: decl_passthrough_code_def split: option.splits if_splits)
    then have ok: "semantic_ok s"
      by (auto simp: semantic_from_decl_def semantic_from_code_ok split: if_splits)
    have "s \<noteq> semantic_from_code 0"
      using s(2) by (auto simp: semantic_from_code_def usage_table_def passes_through_def is_extra_def)
    with code_roundtrip [OF ok] s show ?thesis by auto
  qed
  have "(\<forall>c\<in>set codes. c \<noteq> 0) \<and> map semantic_from_code codes = map (\<lambda>(u, i). the (semantic_from_decl u i)) es"
    using assms(1)
  proof (induction es arbitrary: codes)
    case (Cons e es)
    then show ?case using one by (cases codes) (auto split: prod.splits)
  qed simp
  then show ?thesis
    by (simp add: passthrough_entries_def takeWhile_append2 takeWhile_replicate)
qed

theorem passthrough_list_roundtrip_witness:
  "map (\<lambda>(u, i). decl_passthrough_code u i) [(11, 0), (3, 0)] = map Some [0xB0, 0x30] \<and>
   passthrough_entries ([0xB0, 0x30] @ replicate (MAX_LINKED_INPUTS - length [0xB0 :: u8, 0x30]) 0)
     = enumerate 0 (map (\<lambda>(u, i). the (semantic_from_decl u i)) [(11, 0), (3, 0)])"
proof -
  have codes: "map (\<lambda>(u, i). decl_passthrough_code u i) [(11, 0), (3, 0)] = map Some [0xB0, 0x30]"
    by (simp add: decl_passthrough_code_def semantic_from_decl_def semantic_from_code_def usage_table_def
        passes_through_def is_extra_def semantic_code_def)
  from passthrough_list_roundtrip [OF codes] codes show ?thesis by (simp add: MAX_LINKED_INPUTS_def)
qed

end
