(* ===== verification/Shader_Create.thy ===== *)
theory Shader_Create
  imports Dxso_Link
begin

text \<open>
  \<^verbatim>\<open>src/windows/core/src/shader_create.rs\<close>: the synchronous validation of a shader and the metadata
  the API wrapper keeps. \<open>program_id\<close> stands for \<^verbatim>\<open>ProgramId::from_tokens\<close>, an xxh3 hash of the tokens
  computed by a third-party crate. The outer option is \<open>None\<close> where the source panics: the
  \<^verbatim>\<open>expect\<close> on the usage index.
\<close>

definition SU_RELATIVE_CONST :: u8 where "SU_RELATIVE_CONST = 1"
definition SU_INT_CONST :: u8 where "SU_INT_CONST = 2"
definition SU_BOOL_CONST :: u8 where "SU_BOOL_CONST = 4"
definition SU_BUMP_ENV :: u8 where "SU_BUMP_ENV = 8"
definition SU_AUTOMATIC_FOG :: u8 where "SU_AUTOMATIC_FOG = 16"
definition SU_LINKED_INPUTS :: u8 where "SU_LINKED_INPUTS = 32"

datatype shader_stage = StageVertex | StagePixel

record shader_input_semantic =
  si_usage :: decl_usage
  si_usage_index :: u8
  si_register_index :: u16

record parsed_shader =
  sh_program :: dxso_program
  sh_id :: u64
  sh_max_const_used :: u32
  sh_usage :: u8
  sh_color_out_mask :: u8
  sh_input_semantics :: "shader_input_semantic list"

datatype shader_create_error = ParseError dxso_error | WrongStage | InvalidPixelInput | ConstantRegisterLimit

definition u8_try_from :: "u32 \<Rightarrow> u8 option" where
  "u8_try_from x = (if unat x < 256 then Some (ucast x) else None)"

text \<open>The loop over the declarations of a vertex shader, left at the first index that does not fit.\<close>

fun collect_semantics :: "dx_declaration list \<Rightarrow> shader_input_semantic list option" where
  "collect_semantics [] = Some []"
| "collect_semantics (d # ds) =
     (case d of
        DeclSemantic usage usage_index reg m \<Rightarrow>
          if rk_kind reg = RInput then
            (case u8_try_from usage_index of
               None \<Rightarrow> None
             | Some i \<Rightarrow>
                 map_option ((#) \<lparr>si_usage = usage, si_usage_index = i, si_register_index = rk_index reg\<rparr>)
                   (collect_semantics ds))
          else collect_semantics ds
      | DeclSampler _ _ \<Rightarrow> collect_semantics ds)"

definition expected_type :: "shader_stage \<Rightarrow> shader_type" where
  "expected_type stage = (case stage of StageVertex \<Rightarrow> VertexShader | StagePixel \<Rightarrow> PixelShader)"

definition max_const_used :: "dxso_program \<Rightarrow> u32" where
  "max_const_used p = (case max_const_reg p of None \<Rightarrow> 0 | Some m \<Rightarrow> ucast m + 1)"

definition common_usage :: "dxso_program \<Rightarrow> u8" where
  "common_usage p =
     flag_set (flag_set (flag_set 0 SU_INT_CONST (uses_dynamic_int_constants p))
       SU_BOOL_CONST (uses_dynamic_bool_constants p))
       SU_RELATIVE_CONST (uses_relative_const_addressing p)"

definition pixel_usage :: "dxso_program \<Rightarrow> u8" where
  "pixel_usage p =
     flag_set (flag_set (flag_set (common_usage p) SU_AUTOMATIC_FOG (dp_major p < 3))
       SU_BUMP_ENV (uses_bump_env p))
       SU_LINKED_INPUTS (\<not> li_is_empty (ps_inputs p))"

definition parse_shader ::
  "(u32 list \<Rightarrow> u64) \<Rightarrow> shader_stage \<Rightarrow> u32 list \<Rightarrow> (shader_create_error + parsed_shader) option"
where
  "parse_shader program_id stage tokens =
     (case parse tokens of
        Inl e \<Rightarrow> Some (Inl (ParseError e))
      | Inr program \<Rightarrow>
          if dp_shader_type program \<noteq> expected_type stage then Some (Inl WrongStage)
          else if expected_type stage = PixelShader \<and> has_invalid_pixel_input_decl program
          then Some (Inl InvalidPixelInput)
          else if violates_constant_register_limits program then Some (Inl ConstantRegisterLimit)
          else (case (case stage of
                        StageVertex \<Rightarrow>
                          map_option (\<lambda>sems. (common_usage program, 0, sems)) (collect_semantics (dp_declarations program))
                      | StagePixel \<Rightarrow> Some (pixel_usage program, color_out_mask program, [])) of
                  None \<Rightarrow> None
                | Some (usage, colors, sems) \<Rightarrow>
                    Some (Inr \<lparr>sh_program = program, sh_id = program_id tokens,
                               sh_max_const_used = max_const_used program, sh_usage = usage,
                               sh_color_out_mask = colors, sh_input_semantics = sems\<rparr>)))"

section \<open>No panic, and what the metadata promises\<close>

lemma collect_semantics_total: "list_all declaration_ok ds \<Longrightarrow> \<exists>sems. collect_semantics ds = Some sems"
  by (induction ds rule: collect_semantics.induct)
    (auto simp: declaration_ok_def u8_try_from_def split: dx_declaration.splits)

text \<open>
  C15. Shader creation never panics: for any tokens, stage and hash it answers an error or a shader,
  and a shader exactly when the stream parses, is of the requested stage, has no invalid pixel
  input and stays within the constant registers.
\<close>

theorem creation_answers:
  "\<exists>r. parse_shader h stage tokens = Some r \<and>
     ((\<exists>sh. r = Inr sh) \<longleftrightarrow>
        (\<exists>p. parse tokens = Inr p \<and> dp_shader_type p = expected_type stage
           \<and> \<not> (stage = StagePixel \<and> has_invalid_pixel_input_decl p)
           \<and> \<not> violates_constant_register_limits p))"
proof (cases "parse tokens")
  case (Inl e)
  then show ?thesis by (simp add: parse_shader_def)
next
  case (Inr p)
  obtain sems where "collect_semantics (dp_declarations p) = Some sems"
    using collect_semantics_total [OF parse_program_ok(3) [OF Inr]] by blast
  with Inr show ?thesis
    by (cases stage) (auto simp: parse_shader_def expected_type_def)
qed

lemma parse_shader_Inr:
  assumes "parse_shader h stage tokens = Some (Inr sh)"
  shows "parse tokens = Inr (sh_program sh)" and "\<not> violates_constant_register_limits (sh_program sh)"
    and "sh_max_const_used sh = max_const_used (sh_program sh)"
  using assms by (auto simp: parse_shader_def split: sum.splits if_splits option.splits shader_stage.splits)



end
