(* ===== verification/Mtl_Types.thy ===== *)
theory Mtl_Types
  imports Prelude
begin

text \<open>
  \<^verbatim>\<open>src/unix/shared/src/mtl.rs\<close>: the Metal values the two halves exchange, as far as modelled
  components read them: pixel formats with their wire numbers, block layouts and sRGB twins, the
  storage modes, swizzles, and the texture creation flags of \<^verbatim>\<open>TextureCreateDesc\<close>.
\<close>

datatype storage_mode = SharedMode | ManagedMode | PrivateMode | MemorylessMode

datatype mtl_swizzle = SwZero | SwOne | SwRed | SwGreen | SwBlue | SwAlpha

datatype (plugins only: size code) pixel_format =
    PfA8Unorm | PfR8Unorm | PfR16Unorm | PfR16Float | PfRg8Unorm | PfRg8Snorm | PfB5G6R5Unorm
    | PfAbgr4Unorm | PfBgr5A1Unorm | PfRg16Unorm | PfRg16Snorm | PfR32Float | PfRg16Float
    | PfRgba8Unorm | PfRgba8UnormSrgb | PfRgba8Snorm | PfBgra8Unorm | PfBgra8UnormSrgb
    | PfRgb10A2Unorm | PfBgr10A2Unorm | PfRg32Float | PfRgba16Unorm | PfRgba16Snorm
    | PfRgba16Float | PfRgba32Float | PfBc1Rgba | PfBc1RgbaSrgb | PfBc2Rgba | PfBc2RgbaSrgb
    | PfBc3Rgba | PfBc3RgbaSrgb | PfBc4RUnorm | PfDepth32Float | PfDepth32FloatStencil8

text \<open>The discriminants; \<^verbatim>\<open>from_repr\<close> is the lookup.\<close>

definition pixel_format_table :: "(u32 \<times> pixel_format) list" where
  "pixel_format_table =
     [(1, PfA8Unorm), (10, PfR8Unorm), (20, PfR16Unorm), (25, PfR16Float), (30, PfRg8Unorm)
     , (32, PfRg8Snorm), (40, PfB5G6R5Unorm), (42, PfAbgr4Unorm), (43, PfBgr5A1Unorm)
     , (60, PfRg16Unorm), (62, PfRg16Snorm), (55, PfR32Float), (65, PfRg16Float)
     , (70, PfRgba8Unorm), (71, PfRgba8UnormSrgb), (72, PfRgba8Snorm), (80, PfBgra8Unorm)
     , (81, PfBgra8UnormSrgb), (90, PfRgb10A2Unorm), (94, PfBgr10A2Unorm), (105, PfRg32Float)
     , (110, PfRgba16Unorm), (112, PfRgba16Snorm), (115, PfRgba16Float), (125, PfRgba32Float)
     , (130, PfBc1Rgba), (131, PfBc1RgbaSrgb), (132, PfBc2Rgba), (133, PfBc2RgbaSrgb)
     , (134, PfBc3Rgba), (135, PfBc3RgbaSrgb), (140, PfBc4RUnorm), (252, PfDepth32Float)
     , (260, PfDepth32FloatStencil8)]"

definition pixel_format_from_repr :: "u32 \<Rightarrow> pixel_format option" where
  "pixel_format_from_repr raw = map_of pixel_format_table raw"

definition srgb_twin :: "pixel_format \<Rightarrow> pixel_format option" where
  "srgb_twin f =
     (if f = PfRgba8Unorm then Some PfRgba8UnormSrgb
      else if f = PfBgra8Unorm then Some PfBgra8UnormSrgb
      else if f = PfBc1Rgba then Some PfBc1RgbaSrgb
      else if f = PfBc2Rgba then Some PfBc2RgbaSrgb
      else if f = PfBc3Rgba then Some PfBc3RgbaSrgb
      else None)"

record layout_of_block =
  bl_width :: u32
  bl_height :: u32
  bl_bytes :: u32

definition pixel_block :: "u32 \<Rightarrow> layout_of_block" where
  "pixel_block n = \<lparr>bl_width = 1, bl_height = 1, bl_bytes = n\<rparr>"

definition compressed_block :: "u32 \<Rightarrow> layout_of_block" where
  "compressed_block n = \<lparr>bl_width = 4, bl_height = 4, bl_bytes = n\<rparr>"

definition unmapped_block :: layout_of_block where
  "unmapped_block = pixel_block 1"

definition block_layout :: "pixel_format \<Rightarrow> layout_of_block" where
  "block_layout f =
     (if f \<in> {PfA8Unorm, PfR8Unorm} then pixel_block 1
      else if f \<in> {PfR16Unorm, PfR16Float, PfRg8Unorm, PfRg8Snorm, PfB5G6R5Unorm, PfAbgr4Unorm, PfBgr5A1Unorm}
      then pixel_block 2
      else if f \<in> {PfR32Float, PfRg16Unorm, PfRg16Snorm, PfRg16Float, PfRgba8Unorm, PfRgba8UnormSrgb,
                   PfRgba8Snorm, PfBgra8Unorm, PfBgra8UnormSrgb, PfRgb10A2Unorm, PfBgr10A2Unorm, PfDepth32Float}
      then pixel_block 4
      else if f \<in> {PfRg32Float, PfRgba16Unorm, PfRgba16Snorm, PfRgba16Float, PfDepth32FloatStencil8}
      then pixel_block 8
      else if f = PfRgba32Float then pixel_block 16
      else if f \<in> {PfBc1Rgba, PfBc1RgbaSrgb, PfBc4RUnorm} then compressed_block 8
      else compressed_block 16)"

definition TEX_HAS_SWIZZLE :: u32 where "TEX_HAS_SWIZZLE = 1"
definition TEX_TYPE_3D :: u32 where "TEX_TYPE_3D = 2"
definition TEX_TYPE_CUBE :: u32 where "TEX_TYPE_CUBE = 4"
definition TEX_CLEAR_ON_CREATE :: u32 where "TEX_CLEAR_ON_CREATE = 8"

definition USE_RENDER_TARGET :: u32 where "USE_RENDER_TARGET = 1"
definition USE_DEPTH_STENCIL :: u32 where "USE_DEPTH_STENCIL = 2"

record texture_create_desc =
  td_tex_id :: u64
  td_width :: u32
  td_height :: u32
  td_depth :: u32
  td_levels :: u32
  td_pixel_format :: pixel_format
  td_storage_mode :: storage_mode
  td_flags :: u32
  td_swizzle_r :: mtl_swizzle
  td_swizzle_g :: mtl_swizzle
  td_swizzle_b :: mtl_swizzle
  td_swizzle_a :: mtl_swizzle
  td_usage_flags :: u32

section \<open>Block layouts\<close>

lemma block_edges: "bl_width (block_layout f) \<in> {1, 4}" "bl_height (block_layout f) \<in> {1, 4}"
  by (simp_all add: block_layout_def pixel_block_def compressed_block_def)

end
