(* ===== verification/Stamp_Grid.thy ===== *)
theory Stamp_Grid
  imports Mtl_Types D3D9_Types
begin

text \<open>
  The write history of \<^verbatim>\<open>src/windows/core/src/texture_versions.rs\<close>: per slice and level of a
  texture, a grid of tiles stamped with the number of the last write that touched each. A retired
  version of the texture remembers how many writes it holds; the preserve copy into it covers the
  bounding box of the tiles stamped later.
\<close>

section \<open>Shapes and rectangles\<close>

record version_shape =
  vs_width :: u32
  vs_height :: u32
  vs_depth :: u32
  vs_levels :: u32
  vs_pixel_format :: pixel_format
  vs_storage_mode :: storage_mode
  vs_flags :: u32
  vs_usage :: u32
  vs_swizzle :: "mtl_swizzle list"

definition shape_of :: "texture_create_desc \<Rightarrow> version_shape" where
  "shape_of desc =
     \<lparr>vs_width = td_width desc, vs_height = td_height desc, vs_depth = td_depth desc,
      vs_levels = td_levels desc, vs_pixel_format = td_pixel_format desc,
      vs_storage_mode = td_storage_mode desc, vs_flags = td_flags desc, vs_usage = td_usage_flags desc,
      vs_swizzle = [td_swizzle_r desc, td_swizzle_g desc, td_swizzle_b desc, td_swizzle_a desc]\<rparr>"

definition shape_slices :: "version_shape \<Rightarrow> u32" where
  "shape_slices shape = (if has_flag (vs_flags shape) TEX_TYPE_CUBE then 6 else 1)"

text \<open>A shift by the width or more takes the amount modulo the width.\<close>

definition level_extent :: "u32 \<Rightarrow> u32 \<Rightarrow> u32" where
  "level_extent base level = max (drop_bit (unat level mod 32) (max base 1)) 1"

definition level_bytes :: "version_shape \<Rightarrow> u32 \<Rightarrow> u64" where
  "level_bytes shape level =
     (let block = block_layout (vs_pixel_format shape);
          w = div_ceil (level_extent (vs_width shape) level) (bl_width block);
          h = div_ceil (level_extent (vs_height shape) level) (bl_height block);
          d = (if has_flag (vs_flags shape) TEX_TYPE_3D then level_extent (vs_depth shape) level else 1)
      in ucast w * ucast h * ucast d * ucast (bl_bytes block))"

definition shape_bytes :: "version_shape \<Rightarrow> u64" where
  "shape_bytes shape =
     foldl (\<lambda>total level. total + level_bytes shape (of_nat level)) 0 [0..<unat (vs_levels shape)]
       * ucast (shape_slices shape)"

definition records_every_write :: "texture_create_desc \<Rightarrow> u32 \<Rightarrow> bool" where
  "records_every_write desc application_usage \<longleftrightarrow>
     \<not> has_flag (td_flags desc) TEX_TYPE_3D
     \<and> application_usage AND (USE_RENDER_TARGET OR USE_DEPTH_STENCIL) = 0
     \<and> td_pixel_format desc \<notin> {PfDepth32Float, PfDepth32FloatStencil8}"

record texel_rect =
  tr_x :: u32
  tr_y :: u32
  tr_width :: u32
  tr_height :: u32

definition rect_new :: "u32 \<Rightarrow> u32 \<Rightarrow> u32 \<Rightarrow> u32 \<Rightarrow> texel_rect" where
  "rect_new x y w h = \<lparr>tr_x = x, tr_y = y, tr_width = w, tr_height = h\<rparr>"

definition rect_level :: "u32 \<Rightarrow> u32 \<Rightarrow> texel_rect" where
  "rect_level w h = rect_new 0 0 w h"

text \<open>The block of \<^verbatim>\<open>FormatMapping\<close>, which is what the grid test reads of a format.\<close>

definition rect_on_block_grid :: "u32 \<times> u32 \<Rightarrow> u32 \<times> u32 \<Rightarrow> u32 \<times> u32 \<Rightarrow> u32 \<times> u32 \<Rightarrow> bool" where
  "rect_on_block_grid block origin sz extent \<longleftrightarrow>
     is_multiple_of (fst origin) (fst block) \<and> is_multiple_of (snd origin) (snd block)
     \<and> (is_multiple_of (fst sz) (fst block) \<or> checked_add (fst origin) (fst sz) = Some (fst extent))
     \<and> (is_multiple_of (snd sz) (snd block) \<or> checked_add (snd origin) (snd sz) = Some (snd extent))"

definition upload_written_rect :: "texel_rect \<Rightarrow> u32 \<times> u32 \<Rightarrow> (u32 \<times> u32) option \<Rightarrow> texel_rect" where
  "upload_written_rect rect extent compressed =
     (let on_grid = (case compressed of
                       Some block \<Rightarrow> rect_on_block_grid block (tr_x rect, tr_y rect) (tr_width rect, tr_height rect) extent
                     | None \<Rightarrow> True)
      in if on_grid then rect else rect_level (fst extent) (snd extent))"

section \<open>The stamp grid of a subresource\<close>

definition MIN_TILE_TEXELS :: u32 where "MIN_TILE_TEXELS = 16"
definition MAX_TILES_PER_AXIS :: u32 where "MAX_TILES_PER_AXIS = 32"

definition tile_edge :: "u32 \<Rightarrow> u32 \<Rightarrow> u32" where
  "tile_edge extent block = next_multiple_of (max (div_ceil extent MAX_TILES_PER_AXIS) MIN_TILE_TEXELS) block"

record stamp_grid =
  sg_width :: u32
  sg_height :: u32
  sg_tile_width :: u32
  sg_tile_height :: u32
  sg_columns :: u32
  sg_rows :: u32
  sg_newest :: u64
  sg_stamps :: "u64 list"

definition grid_new :: "u32 \<Rightarrow> u32 \<Rightarrow> layout_of_block \<Rightarrow> stamp_grid" where
  "grid_new width height block =
     (let tile_width = tile_edge width (bl_width block); tile_height = tile_edge height (bl_height block);
          columns = div_ceil width tile_width; rows = div_ceil height tile_height
      in \<lparr>sg_width = width, sg_height = height, sg_tile_width = tile_width, sg_tile_height = tile_height,
          sg_columns = columns, sg_rows = rows, sg_newest = 0,
          sg_stamps = replicate (unat (columns * rows)) 0\<rparr>)"

definition fill_range :: "nat \<Rightarrow> nat \<Rightarrow> 'a \<Rightarrow> 'a list \<Rightarrow> 'a list" where
  "fill_range a b v xs = take a xs @ replicate (Suc b - a) v @ drop (Suc b) xs"

definition grid_stamp :: "texel_rect \<Rightarrow> u64 \<Rightarrow> stamp_grid \<Rightarrow> stamp_grid" where
  "grid_stamp rect stamp g =
     (let x_end = min (sat_add (tr_x rect) (tr_width rect)) (sg_width g);
          y_end = min (sat_add (tr_y rect) (tr_height rect)) (sg_height g)
      in if x_end \<le> tr_x rect \<or> y_end \<le> tr_y rect then g
         else let first_column = tr_x rect div sg_tile_width g;
                  last_column = (x_end - 1) div sg_tile_width g;
                  first_row = tr_y rect div sg_tile_height g;
                  last_row = (y_end - 1) div sg_tile_height g
              in g\<lparr>sg_stamps := foldl (\<lambda>st row. fill_range (unat (of_nat row * sg_columns g + first_column))
                                              (unat (of_nat row * sg_columns g + last_column)) stamp st)
                                  (sg_stamps g) [unat first_row..<Suc (unat last_row)],
                   sg_newest := stamp\<rparr>)"

text \<open>The scan over the tiles: the smallest and largest column and row stamped after \<open>held\<close>.\<close>

definition grid_tiles :: "stamp_grid \<Rightarrow> (nat \<times> nat) list" where
  "grid_tiles g = concat (map (\<lambda>row. map (\<lambda>column. (row, column)) [0..<unat (sg_columns g)]) [0..<unat (sg_rows g)])"

definition tile_stamp :: "stamp_grid \<Rightarrow> nat \<Rightarrow> nat \<Rightarrow> u64" where
  "tile_stamp g row column = sg_stamps g ! (row * unat (sg_columns g) + column)"

definition scan_step ::
  "stamp_grid \<Rightarrow> u64 \<Rightarrow> (u32 \<times> u32) \<times> (u32 \<times> u32) \<Rightarrow> nat \<times> nat \<Rightarrow> (u32 \<times> u32) \<times> (u32 \<times> u32)"
where
  "scan_step g held acc tile =
     (case (acc, tile) of
        (((c0, c1), (r0, r1)), (row, column)) \<Rightarrow>
          if held < tile_stamp g row column
          then ((min c0 (of_nat column), max c1 (of_nat column)), (min r0 (of_nat row), max r1 (of_nat row)))
          else acc)"

definition scan_tiles :: "stamp_grid \<Rightarrow> u64 \<Rightarrow> (u32 \<times> u32) \<times> (u32 \<times> u32)" where
  "scan_tiles g held = foldl (scan_step g held) ((- 1, 0), (- 1, 0)) (grid_tiles g)"

definition written_since :: "stamp_grid \<Rightarrow> u64 \<Rightarrow> texel_rect option" where
  "written_since g held =
     (if sg_newest g \<le> held then None
      else case scan_tiles g held of
             ((c0, c1), (r0, r1)) \<Rightarrow>
               (let x = c0 * sg_tile_width g; y = r0 * sg_tile_height g;
                    x_end = min ((c1 + 1) * sg_tile_width g) (sg_width g);
                    y_end = min ((r1 + 1) * sg_tile_height g) (sg_height g)
                in Some (rect_new x y (x_end - x) (y_end - y))))"

section \<open>The history of a texture\<close>

record write_history =
  wh_slices :: u32
  wh_levels :: u32
  wh_writes :: u64
  wh_grids :: "stamp_grid list"

definition history_new :: "version_shape \<Rightarrow> write_history" where
  "history_new shape =
     \<lparr>wh_slices = shape_slices shape, wh_levels = vs_levels shape, wh_writes = 0,
      wh_grids = concat (map (\<lambda>_. map (\<lambda>level. grid_new (level_extent (vs_width shape) (of_nat level))
                                                   (level_extent (vs_height shape) (of_nat level))
                                                   (block_layout (vs_pixel_format shape)))
                                    [0..<unat (vs_levels shape)])
                          [0..<unat (shape_slices shape)])\<rparr>"

definition grid_index :: "write_history \<Rightarrow> u32 \<Rightarrow> u32 \<Rightarrow> nat" where
  "grid_index h face level = unat (face * wh_levels h + level)"

text \<open>\<^verbatim>\<open>note_write\<close> on the history of a tracked texture: a subresource it does not have drops it.\<close>

definition history_write :: "u32 \<Rightarrow> u32 \<Rightarrow> texel_rect \<Rightarrow> write_history option \<Rightarrow> write_history option" where
  "history_write face level rect history =
     (case history of
        None \<Rightarrow> None
      | Some h \<Rightarrow>
          if wh_slices h \<le> face \<or> wh_levels h \<le> level then None
          else let stamp = wh_writes h + 1; i = grid_index h face level
               in Some (h\<lparr>wh_writes := stamp, wh_grids := (wh_grids h)[i := grid_stamp rect stamp (wh_grids h ! i)]\<rparr>))"

definition stamp_whole :: "u64 \<Rightarrow> stamp_grid \<Rightarrow> stamp_grid" where
  "stamp_whole stamp g = grid_stamp (rect_level (sg_width g) (sg_height g)) stamp g"

definition history_mips :: "write_history option \<Rightarrow> write_history option" where
  "history_mips history =
     (case history of
        None \<Rightarrow> None
      | Some h \<Rightarrow>
          (let stamp = wh_writes h + 1; levels = unat (max (wh_levels h) 1);
               whole = length (wh_grids h) div levels * levels
           in Some (h\<lparr>wh_writes := stamp,
                      wh_grids := map (\<lambda>i. if i < whole \<and> i mod levels \<noteq> 0 then stamp_whole stamp (wh_grids h ! i)
                                           else wh_grids h ! i) [0..<length (wh_grids h)]\<rparr>)))"

section \<open>The copy plan\<close>

record upload_footprint =
  uf_slice :: u32
  uf_level :: u32
  uf_full_cover :: bool

record preserve_copy =
  pc_slice :: u32
  pc_level :: u32
  pc_region :: "texel_rect option"

definition plan_subresource ::
  "write_history option \<Rightarrow> u64 option \<Rightarrow> upload_footprint \<Rightarrow> u32 \<Rightarrow> u32 \<Rightarrow> preserve_copy list"
where
  "plan_subresource history held_writes upload face level =
     (if face = uf_slice upload \<and> level = uf_level upload \<and> uf_full_cover upload then []
      else case (history, held_writes) of
             (Some h, Some held) \<Rightarrow>
               (let grid = wh_grids h ! grid_index h face level
                in case written_since grid held of
                     None \<Rightarrow> []
                   | Some dirty \<Rightarrow>
                       [\<lparr>pc_slice = face, pc_level = level,
                         pc_region = (if dirty \<noteq> rect_level (sg_width grid) (sg_height grid) then Some dirty else None)\<rparr>])
           | _ \<Rightarrow> [\<lparr>pc_slice = face, pc_level = level, pc_region = None\<rparr>])"

definition history_plan ::
  "write_history option \<Rightarrow> version_shape \<Rightarrow> u64 option \<Rightarrow> upload_footprint \<Rightarrow> preserve_copy list"
where
  "history_plan history shape held_writes upload =
     concat (map (\<lambda>face. concat (map (\<lambda>level.
         plan_subresource history held_writes upload (of_nat face) (of_nat level)) [0..<unat (vs_levels shape)]))
       [0..<unat (shape_slices shape)])"

section \<open>What a grid records\<close>

text \<open>
  A grid is well formed when its tiles cover the level, none of the index arithmetic wraps, and
  \<^verbatim>\<open>newest\<close> is the largest stamp.
\<close>

definition axis_ok :: "u32 \<Rightarrow> u32 \<Rightarrow> u32 \<Rightarrow> bool" where
  "axis_ok extent tile count \<longleftrightarrow>
     0 < unat tile \<and> unat extent \<le> unat count * unat tile \<and> unat count * unat tile < unat extent + unat tile
     \<and> unat extent + unat tile < 2 ^ 32 \<and> unat count \<le> 32"

definition grid_ok :: "stamp_grid \<Rightarrow> bool" where
  "grid_ok g \<longleftrightarrow>
     axis_ok (sg_width g) (sg_tile_width g) (sg_columns g) \<and> axis_ok (sg_height g) (sg_tile_height g) (sg_rows g)
     \<and> length (sg_stamps g) = unat (sg_columns g) * unat (sg_rows g)
     \<and> (\<forall>s\<in>set (sg_stamps g). s \<le> sg_newest g) \<and> (sg_newest g = 0 \<or> sg_newest g \<in> set (sg_stamps g))"

lemma tile_edge_bounds:
  assumes "unat extent < 2 ^ 31" and "block \<in> {1, 4}"
  shows "16 \<le> unat (tile_edge extent block)" "unat (tile_edge extent block) < 2 ^ 28"
    "unat extent \<le> 32 * unat (tile_edge extent block)"
proof -
  let ?m = "max (div_ceil extent MAX_TILES_PER_AXIS) MIN_TILE_TEXELS"
  have d: "unat (div_ceil extent MAX_TILES_PER_AXIS) < 2 ^ 27" "unat extent \<le> 32 * unat (div_ceil extent MAX_TILES_PER_AXIS)"
    using assms(1) div_ceil_ge [of 32 "unat extent"] by (auto simp: unat_div_ceil MAX_TILES_PER_AXIS_def)
  have m: "16 \<le> unat ?m" "unat ?m < 2 ^ 27" "unat (div_ceil extent MAX_TILES_PER_AXIS) \<le> unat ?m"
    using d(1) by (auto simp: unat_max MIN_TILE_TEXELS_def)
  have b: "0 < unat block" "unat block \<le> 4" using assms(2) by auto
  have "unat ?m + unat block < 2 ^ LENGTH(32)" using m b by simp
  note nm = next_multiple_bounds [OF b(1) this]
  show "16 \<le> unat (tile_edge extent block)" "unat (tile_edge extent block) < 2 ^ 28"
    "unat extent \<le> 32 * unat (tile_edge extent block)"
    using nm m b d(2) by (auto simp: tile_edge_def)
qed

lemma axis_new:
  assumes "unat extent < 2 ^ 31" and "block \<in> {1, 4}"
  shows "axis_ok extent (tile_edge extent block) (div_ceil extent (tile_edge extent block))"
proof -
  let ?t = "tile_edge extent block"
  note t = tile_edge_bounds [OF assms]
  have pos: "0 < unat ?t" using t(1) by simp
  have c: "unat extent \<le> unat ?t * unat (div_ceil extent ?t)"
    "unat ?t * unat (div_ceil extent ?t) < unat extent + unat ?t"
    using div_ceil_ge [OF pos, of "unat extent"] div_ceil_lt [OF pos, of "unat extent"] by (simp_all add: unat_div_ceil)
  have "unat ?t * unat (div_ceil extent ?t) < unat ?t * 33" using c(2) t(3) by linarith
  then have "unat (div_ceil extent ?t) \<le> 32" by simp
  with c t(2) pos assms(1) show ?thesis by (simp add: axis_ok_def mult.commute)
qed

lemma grid_new_ok:
  assumes "unat w < 2 ^ 31" "unat h < 2 ^ 31" "bl_width b \<in> {1, 4}" "bl_height b \<in> {1, 4}"
  shows "grid_ok (grid_new w h b)"
proof -
  note ax = axis_new [OF assms(1,3)] axis_new [OF assms(2,4)]
  let ?c = "div_ceil w (tile_edge w (bl_width b))" and ?r = "div_ceil h (tile_edge h (bl_height b))"
  have "unat ?c \<le> 32" "unat ?r \<le> 32" using ax by (simp_all add: axis_ok_def)
  then have "unat ?c * unat ?r \<le> 32 * 32" by (rule mult_le_mono)
  then have "unat (?c * ?r) = unat ?c * unat ?r" by (simp add: unat_mul_no_overflow)
  with ax show ?thesis by (simp add: grid_ok_def grid_new_def Let_def)
qed

lemma fill_range_nth:
  assumes "a \<le> b" "b < length xs"
  shows "length (fill_range a b v xs) = length xs"
    "i < length xs \<Longrightarrow> fill_range a b v xs ! i = (if a \<le> i \<and> i \<le> b then v else xs ! i)"
  using assms by (auto simp: fill_range_def nth_append)

lemma fold_fill_nth:
  assumes "\<forall>r\<in>set rs. a r \<le> b r \<and> b r < length xs"
  shows "length (foldl (\<lambda>st r. fill_range (a r) (b r) v st) xs rs) = length xs
    \<and> (\<forall>i<length xs. foldl (\<lambda>st r. fill_range (a r) (b r) v st) xs rs ! i
          = (if \<exists>r\<in>set rs. a r \<le> i \<and> i \<le> b r then v else xs ! i))"
  using assms
proof (induction rs arbitrary: xs)
  case (Cons r rs)
  then have "length (fill_range (a r) (b r) v xs) = length xs" by (simp add: fill_range_nth)
  with Cons show ?case by (auto simp: fill_range_nth)
qed simp

text \<open>A tile index determines its row and column.\<close>

lemma tile_index_in_row:
  assumes "C < c" "lc < (c::nat)"
  shows "row * c + fc \<le> R * c + C \<and> R * c + C \<le> row * c + lc \<longleftrightarrow> R = row \<and> fc \<le> C \<and> C \<le> lc"
proof
  assume b: "row * c + fc \<le> R * c + C \<and> R * c + C \<le> row * c + lc"
  have "row * c < Suc R * c" "R * c < Suc row * c" using b assms by auto
  then have "R = row" by (metis Suc_leI le_antisym less_Suc_eq_le mult_less_cancel2)
  with b show "R = row \<and> fc \<le> C \<and> C \<le> lc" by simp
qed auto

lemma axis_tile:
  assumes "axis_ok extent tile count" "(x::nat) < unat extent"
  shows "x div unat tile < unat count"
proof -
  have "x < unat count * unat tile" using assms by (auto simp: axis_ok_def)
  then show ?thesis by (simp add: less_mult_imp_div_less)
qed

definition in_rect :: "texel_rect \<Rightarrow> nat \<Rightarrow> nat \<Rightarrow> bool" where
  "in_rect r x y \<longleftrightarrow> unat (tr_x r) \<le> x \<and> x < unat (tr_x r) + unat (tr_width r)
     \<and> unat (tr_y r) \<le> y \<and> y < unat (tr_y r) + unat (tr_height r)"

definition texel_stamp :: "stamp_grid \<Rightarrow> nat \<Rightarrow> nat \<Rightarrow> u64" where
  "texel_stamp g x y = tile_stamp g (y div unat (sg_tile_height g)) (x div unat (sg_tile_width g))"

lemma clamped_end: "unat (min (sat_add a b) c :: u32) = min (unat a + unat b) (unat c)"
  using u32_bound [of c] by (simp add: unat_min unat_sat_add min.assoc)

lemma tile_index_exact:
  fixes c k :: u32
  assumes "row < r" "unat k < unat c" "unat c \<le> 32" "r \<le> 32"
  shows "unat (of_nat row * c + k) = row * unat c + unat k"
proof -
  have le: "row * unat c \<le> 32 * 32" using assms by (intro mult_le_mono) auto
  have u: "unat (of_nat row :: u32) = row" using assms by (simp add: unat_of_nat)
  have "unat (of_nat row * c) = row * unat c" using le by (subst unat_mul_no_overflow) (auto simp: u)
  with le assms show ?thesis by (subst unat_add_no_overflow) auto
qed

lemma tile_in_grid: "row * c + k < c * r" if "row < r" "k < (c::nat)"
proof -
  have "row * c + k < Suc row * c" using that by simp
  also have "\<dots> \<le> r * c" using that by (intro mult_le_mono1) auto
  finally show ?thesis by (simp add: mult.commute)
qed

text \<open>The tiles a stamp sets, as rows and columns.\<close>

lemma grid_stamp_tiles:
  fixes rect g
  defines "xe \<equiv> min (sat_add (tr_x rect) (tr_width rect)) (sg_width g)"
    and "ye \<equiv> min (sat_add (tr_y rect) (tr_height rect)) (sg_height g)"
  assumes ok: "grid_ok g" and ne: "tr_x rect < xe" "tr_y rect < ye" and R: "R < unat (sg_rows g)" and C: "C < unat (sg_columns g)"
  shows "tile_stamp (grid_stamp rect stamp g) R C =
      (if unat (tr_x rect) div unat (sg_tile_width g) \<le> C \<and> C \<le> (unat xe - 1) div unat (sg_tile_width g)
          \<and> unat (tr_y rect) div unat (sg_tile_height g) \<le> R \<and> R \<le> (unat ye - 1) div unat (sg_tile_height g)
       then stamp else tile_stamp g R C)"
    and "length (sg_stamps (grid_stamp rect stamp g)) = length (sg_stamps g)"
proof -
  let ?c = "unat (sg_columns g)" and ?r = "unat (sg_rows g)"
  let ?tw = "unat (sg_tile_width g)" and ?th = "unat (sg_tile_height g)"
  let ?fc = "tr_x rect div sg_tile_width g" and ?lc = "(xe - 1) div sg_tile_width g"
  let ?fr = "unat (tr_y rect div sg_tile_height g)" and ?lr = "unat ((ye - 1) div sg_tile_height g)"
  have ax: "axis_ok (sg_width g) (sg_tile_width g) (sg_columns g)" "axis_ok (sg_height g) (sg_tile_height g) (sg_rows g)"
    and len: "length (sg_stamps g) = ?c * ?r" using ok by (auto simp: grid_ok_def)
  have one: "unat (xe - 1) = unat xe - 1" "unat (ye - 1) = unat ye - 1"
    using unat_sub_le [of 1 xe] unat_sub_le [of 1 ye] ne by (simp_all add: word_less_nat_alt word_le_nat_alt)
  have ends: "unat xe - 1 < unat (sg_width g)" "unat ye - 1 < unat (sg_height g)"
    using ne by (auto simp: xe_def ye_def clamped_end word_less_nat_alt)
  have lc: "unat ?lc = (unat xe - 1) div ?tw" "unat ?lc < ?c" and lr: "?lr = (unat ye - 1) div ?th" "?lr < ?r"
    using axis_tile [OF ax(1) ends(1)] axis_tile [OF ax(2) ends(2)] by (simp_all add: unat_div one)
  have fc: "unat ?fc = unat (tr_x rect) div ?tw" and fr: "?fr = unat (tr_y rect) div ?th" by (simp_all add: unat_div)
  have le: "unat ?fc \<le> unat ?lc"
    unfolding fc lc using ne by (intro div_le_mono) (simp add: word_less_nat_alt)
  have small: "?c \<le> 32" "?r \<le> 32" using ax by (auto simp: axis_ok_def)
  let ?rows = "[?fr..<Suc ?lr]"
  let ?a = "\<lambda>row. unat (of_nat row * sg_columns g + ?fc)" and ?b = "\<lambda>row. unat (of_nat row * sg_columns g + ?lc)"
  have ab: "?a row = row * ?c + unat ?fc" "?b row = row * ?c + unat ?lc" if "row \<in> set ?rows" for row
    using that lr(2) lc(2) le small
    by (auto intro!: tile_index_exact [of row ?r] simp del: upt_Suc)
  have rng: "\<forall>row\<in>set ?rows. ?a row \<le> ?b row \<and> ?b row < length (sg_stamps g)"
    using ab le lr(2) lc(2) tile_in_grid by (auto simp: len)
  have g': "sg_stamps (grid_stamp rect stamp g) = foldl (\<lambda>st row. fill_range (?a row) (?b row) stamp st) (sg_stamps g) ?rows"
    "sg_columns (grid_stamp rect stamp g) = sg_columns g"
    using ne by (simp_all add: grid_stamp_def Let_def xe_def [symmetric] ye_def [symmetric] leD del: upt_Suc)
  note fold = fold_fill_nth [OF rng, of stamp]
  then show "length (sg_stamps (grid_stamp rect stamp g)) = length (sg_stamps g)" by (simp only: g')
  have hit: "(\<exists>row\<in>set ?rows. ?a row \<le> R * ?c + C \<and> R * ?c + C \<le> ?b row)
      \<longleftrightarrow> ?fr \<le> R \<and> R \<le> ?lr \<and> unat ?fc \<le> C \<and> C \<le> unat ?lc"
    using ab tile_index_in_row [OF C lc(2), of _ "unat ?fc" R] by (auto simp: less_Suc_eq_le simp del: upt_Suc)
  have "tile_stamp (grid_stamp rect stamp g) R C = (if \<exists>row\<in>set ?rows. ?a row \<le> R * ?c + C \<and> R * ?c + C \<le> ?b row
      then stamp else tile_stamp g R C)"
    using fold tile_in_grid [OF R C] by (simp only: tile_stamp_def g' len)
  then show "tile_stamp (grid_stamp rect stamp g) R C =
      (if unat (tr_x rect) div ?tw \<le> C \<and> C \<le> (unat xe - 1) div ?tw
          \<and> unat (tr_y rect) div ?th \<le> R \<and> R \<le> (unat ye - 1) div ?th
       then stamp else tile_stamp g R C)"
    unfolding hit by (simp only: fc lc(1) fr lr(1) conj_ac)
qed

lemma grid_stamp_dims [simp]:
  "sg_width (grid_stamp rect s g) = sg_width g" "sg_height (grid_stamp rect s g) = sg_height g"
  "sg_tile_width (grid_stamp rect s g) = sg_tile_width g" "sg_tile_height (grid_stamp rect s g) = sg_tile_height g"
  "sg_columns (grid_stamp rect s g) = sg_columns g" "sg_rows (grid_stamp rect s g) = sg_rows g"
  by (simp_all add: grid_stamp_def Let_def)

lemma tile_stamps:
  assumes len: "length (sg_stamps g) = unat (sg_columns g) * unat (sg_rows g)"
  shows "set (sg_stamps g) = {tile_stamp g R C |R C. R < unat (sg_rows g) \<and> C < unat (sg_columns g)}"
proof -
  have "\<exists>R C. sg_stamps g ! i = tile_stamp g R C \<and> R < unat (sg_rows g) \<and> C < unat (sg_columns g)"
    if "i < length (sg_stamps g)" for i
  proof -
    have "0 < unat (sg_columns g)" using that len by (auto intro: gr0I)
    moreover have "i div unat (sg_columns g) < unat (sg_rows g)"
      using that len by (simp add: less_mult_imp_div_less mult.commute)
    ultimately show ?thesis
      by (intro exI [of _ "i div unat (sg_columns g)"] exI [of _ "i mod unat (sg_columns g)"]) (simp add: tile_stamp_def)
  qed
  then show ?thesis
    using tile_in_grid len by (fastforce simp: in_set_conv_nth tile_stamp_def)
qed

text \<open>Stamping a write keeps the grid well formed, stamps every texel written and forgets nothing.\<close>

lemma grid_stamp_ok:
  assumes ok: "grid_ok g" and new: "sg_newest g \<le> stamp"
  shows "grid_ok (grid_stamp rect stamp g)" "sg_newest (grid_stamp rect stamp g) \<le> stamp"
    and "x < unat (sg_width g) \<Longrightarrow> y < unat (sg_height g) \<Longrightarrow>
      texel_stamp (grid_stamp rect stamp g) x y \<in> {stamp, texel_stamp g x y}
      \<and> (in_rect rect x y \<longrightarrow> texel_stamp (grid_stamp rect stamp g) x y = stamp)"
proof -
  let ?xe = "min (sat_add (tr_x rect) (tr_width rect)) (sg_width g)"
  let ?ye = "min (sat_add (tr_y rect) (tr_height rect)) (sg_height g)"
  have ax: "axis_ok (sg_width g) (sg_tile_width g) (sg_columns g)" "axis_ok (sg_height g) (sg_tile_height g) (sg_rows g)"
    using ok by (auto simp: grid_ok_def)
  have *: "grid_ok (grid_stamp rect stamp g) \<and> sg_newest (grid_stamp rect stamp g) \<le> stamp
    \<and> (x < unat (sg_width g) \<longrightarrow> y < unat (sg_height g) \<longrightarrow>
      texel_stamp (grid_stamp rect stamp g) x y \<in> {stamp, texel_stamp g x y}
      \<and> (in_rect rect x y \<longrightarrow> texel_stamp (grid_stamp rect stamp g) x y = stamp))" for x y
  proof (cases "tr_x rect < ?xe \<and> tr_y rect < ?ye")
    case False
    then have same: "grid_stamp rect stamp g = g" by (simp only: grid_stamp_def Let_def not_less de_Morgan_conj if_True)
    moreover have "\<not> in_rect rect x y" if "x < unat (sg_width g)" "y < unat (sg_height g)"
      using False that by (auto simp: in_rect_def word_less_nat_alt clamped_end)
    ultimately show ?thesis using ok new by simp
  next
    case True
    note tiles = grid_stamp_tiles [OF ok conjunct1 [OF True] conjunct2 [OF True]]
    have newest: "sg_newest (grid_stamp rect stamp g) = stamp"
      using True by (auto simp: grid_stamp_def Let_def min_le_iff_disj dest: leD)
    have ends: "unat ?xe - 1 < unat (sg_width g)" "unat ?ye - 1 < unat (sg_height g)"
      using True by (auto simp: clamped_end word_less_nat_alt)
    note last_tile = axis_tile [OF ax(1) ends(1)] axis_tile [OF ax(2) ends(2)]
    have len: "length (sg_stamps (grid_stamp rect stamp g)) = unat (sg_columns g) * unat (sg_rows g)"
      using tiles(2) [OF last_tile(2,1)] ok by (simp add: grid_ok_def)
    let ?in = "\<lambda>R C. tile_stamp (grid_stamp rect stamp g) R C"
    have old: "tile_stamp g R C \<le> stamp" if "R < unat (sg_rows g)" "C < unat (sg_columns g)" for R C
      using that tile_stamps [of g] ok new by (fastforce simp: grid_ok_def)
    have hit: "?in R C = stamp" if "R = y' div unat (sg_tile_height g)" "C = x' div unat (sg_tile_width g)"
      "unat (tr_x rect) \<le> x'" "x' < unat ?xe" "unat (tr_y rect) \<le> y'" "y' < unat ?ye" for R C x' y'
    proof -
      have "R < unat (sg_rows g)" "C < unat (sg_columns g)"
        using axis_tile [OF ax(1), of x'] axis_tile [OF ax(2), of y'] that by (auto simp: clamped_end)
      from tiles(1) [OF this] that show ?thesis by (simp add: div_le_mono)
    qed
    have "unat (tr_x rect) < unat ?xe" "unat (tr_y rect) < unat ?ye" using True by (auto simp: word_less_nat_alt)
    note first = hit [OF refl refl order_refl this(1) order_refl this(2)]
    have set: "set (sg_stamps (grid_stamp rect stamp g))
      = {?in R C |R C. R < unat (sg_rows g) \<and> C < unat (sg_columns g)}"
      using tile_stamps [of "grid_stamp rect stamp g"] len by simp
    have "x' div unat (sg_tile_width g) < unat (sg_columns g)" if "x' < unat ?xe" for x'
      using axis_tile [OF ax(1), of x'] that by (auto simp: clamped_end)
    moreover have "y' div unat (sg_tile_height g) < unat (sg_rows g)" if "y' < unat ?ye" for y'
      using axis_tile [OF ax(2), of y'] that by (auto simp: clamped_end)
    ultimately have "stamp \<in> set (sg_stamps (grid_stamp rect stamp g))"
      using first True by (force simp: set word_less_nat_alt)
    moreover have "\<forall>s\<in>set (sg_stamps (grid_stamp rect stamp g)). s \<le> stamp"
      using tiles(1) old by (auto simp: set)
    ultimately have "grid_ok (grid_stamp rect stamp g)" using len ok newest by (simp add: grid_ok_def)
    moreover have "texel_stamp (grid_stamp rect stamp g) x y \<in> {stamp, texel_stamp g x y}"
      if "x < unat (sg_width g)" "y < unat (sg_height g)"
      using tiles(1) [OF axis_tile [OF ax(2) that(2)] axis_tile [OF ax(1) that(1)]] by (simp add: texel_stamp_def)
    moreover have "texel_stamp (grid_stamp rect stamp g) x y = stamp"
      if "x < unat (sg_width g)" "y < unat (sg_height g)" "in_rect rect x y"
      using hit [OF refl refl, of x y] that by (simp add: texel_stamp_def in_rect_def clamped_end)
    ultimately show ?thesis using newest by simp
  qed
  show "grid_ok (grid_stamp rect stamp g)" "sg_newest (grid_stamp rect stamp g) \<le> stamp" using * by blast+
  show "x < unat (sg_width g) \<Longrightarrow> y < unat (sg_height g) \<Longrightarrow>
      texel_stamp (grid_stamp rect stamp g) x y \<in> {stamp, texel_stamp g x y}
      \<and> (in_rect rect x y \<longrightarrow> texel_stamp (grid_stamp rect stamp g) x y = stamp)" using * by blast
qed

text \<open>The scan finds the bounding box of the tiles stamped later.\<close>

lemma scan_box:
  assumes "foldl (scan_step g held) ((c0, c1), (r0, r1)) ts = ((c0', c1'), (r0', r1'))"
    and "\<forall>(R, C)\<in>set ts. R < rn \<and> C < cn" "rn \<le> 32" "cn \<le> 32" "unat c1 < cn" "unat r1 < rn"
  shows "unat c0' \<le> unat c0 \<and> unat r0' \<le> unat r0 \<and> unat c1 \<le> unat c1' \<and> unat r1 \<le> unat r1'
    \<and> unat c1' < cn \<and> unat r1' < rn
    \<and> (\<forall>(R, C)\<in>set ts. held < tile_stamp g R C \<longrightarrow>
        unat c0' \<le> C \<and> C \<le> unat c1' \<and> unat r0' \<le> R \<and> R \<le> unat r1')"
  using assms
proof (induction ts arbitrary: c0 c1 r0 r1)
  case (Cons t ts)
  obtain R C where t: "t = (R, C)" by (cases t)
  have small: "R < rn" "C < cn" "unat (of_nat R :: u32) = R" "unat (of_nat C :: u32) = C"
    using Cons.prems(2,3,4) by (auto simp: t unat_of_nat)
  show ?case
  proof (cases "held < tile_stamp g R C")
    case True
    from Cons.prems(1) True have "foldl (scan_step g held)
        ((min c0 (of_nat C), max c1 (of_nat C)), (min r0 (of_nat R), max r1 (of_nat R))) ts = ((c0', c1'), (r0', r1'))"
      by (simp add: t scan_step_def [of g held "((c0, c1), (r0, r1))" "(R, C)"])
    from Cons.IH [OF this] Cons.prems(2-6) small show ?thesis by (auto simp: t unat_min unat_max)
  next
    case False
    from Cons.prems(1) False have "foldl (scan_step g held) ((c0, c1), (r0, r1)) ts = ((c0', c1'), (r0', r1'))"
      by (simp add: t scan_step_def [of g held "((c0, c1), (r0, r1))" "(R, C)"])
    from Cons.IH [OF this] Cons.prems(2-6) False show ?thesis by (auto simp: t)
  qed
qed auto

lemma set_grid_tiles: "set (grid_tiles g) = {(R, C). R < unat (sg_rows g) \<and> C < unat (sg_columns g)}"
  by (auto simp: grid_tiles_def)

lemma axis_span:
  assumes ax: "axis_ok extent tile count" and k: "unat a \<le> k" "k \<le> unat b" "unat b < unat count"
  shows "unat (a * tile) = unat a * unat tile"
    "unat (min ((b + 1) * tile) extent) = min (Suc (unat b) * unat tile) (unat extent)"
    "a * tile \<le> min ((b + 1) * tile) extent"
proof -
  have le: "Suc (unat b) * unat tile \<le> unat count * unat tile" using k by (intro mult_le_mono1) auto
  have lim: "unat count * unat tile < 4294967296" using ax by (auto simp: axis_ok_def)
  have "unat a * unat tile \<le> Suc (unat b) * unat tile" using k by (intro mult_le_mono1) auto
  with le lim show a: "unat (a * tile) = unat a * unat tile" by (simp add: unat_mul_no_overflow)
  have "unat (b + 1) = Suc (unat b)" using k ax by (simp add: unat_add_no_overflow axis_ok_def)
  then have "unat ((b + 1) * tile) = Suc (unat b) * unat tile" using le lim by (simp add: unat_mul_no_overflow)
  then show b: "unat (min ((b + 1) * tile) extent) = min (Suc (unat b) * unat tile) (unat extent)"
    by (simp add: unat_min)
  have "unat b * unat tile + unat tile \<le> unat count * unat tile" using le by simp
  then have "unat b * unat tile < unat extent" using ax by (simp add: axis_ok_def)
  moreover have "unat a * unat tile \<le> unat b * unat tile" using k by (intro mult_le_mono1) auto
  ultimately have "unat a * unat tile \<le> min (Suc (unat b) * unat tile) (unat extent)"
    unfolding min_def by (simp only: mult_Suc split: if_split) linarith
  then show "a * tile \<le> min ((b + 1) * tile) extent" by (simp only: word_le_nat_alt a b)
qed

lemma written_since_None: "grid_ok g \<Longrightarrow> x < unat (sg_width g) \<Longrightarrow> y < unat (sg_height g) \<Longrightarrow>
  written_since g held = None \<Longrightarrow> texel_stamp g x y \<le> held"
  using tile_stamps [of g] axis_tile [of "sg_width g" "sg_tile_width g" "sg_columns g" x]
    axis_tile [of "sg_height g" "sg_tile_height g" "sg_rows g" y]
  by (fastforce simp: grid_ok_def texel_stamp_def written_since_def Let_def split: if_splits prod.splits)

text \<open>Every texel stamped later is in the box, and the box is tile aligned within the level.\<close>

lemma written_since_Some:
  assumes ok: "grid_ok g" and w: "written_since g held = Some r"
  shows "x < unat (sg_width g) \<Longrightarrow> y < unat (sg_height g) \<Longrightarrow> held < texel_stamp g x y \<Longrightarrow> in_rect r x y"
    and "unat (sg_tile_width g) dvd unat (tr_x r)" "unat (sg_tile_height g) dvd unat (tr_y r)"
    and "unat (sg_tile_width g) dvd unat (tr_width r) \<or> unat (tr_x r) + unat (tr_width r) = unat (sg_width g)"
    and "unat (sg_tile_height g) dvd unat (tr_height r) \<or> unat (tr_y r) + unat (tr_height r) = unat (sg_height g)"
    and "unat (tr_x r) + unat (tr_width r) \<le> unat (sg_width g)" "unat (tr_y r) + unat (tr_height r) \<le> unat (sg_height g)"
proof -
  let ?tw = "unat (sg_tile_width g)" and ?th = "unat (sg_tile_height g)"
  have ax: "axis_ok (sg_width g) (sg_tile_width g) (sg_columns g)" "axis_ok (sg_height g) (sg_tile_height g) (sg_rows g)"
    and len: "length (sg_stamps g) = unat (sg_columns g) * unat (sg_rows g)" using ok by (auto simp: grid_ok_def)
  obtain c0 c1 r0 r1 where scan: "scan_tiles g held = ((c0, c1), (r0, r1))" by (metis surj_pair)
  have newer: "held < sg_newest g" using w by (auto simp: written_since_def not_le split: if_splits)
  with ok have "sg_newest g \<in> set (sg_stamps g)" by (auto simp: grid_ok_def)
  then obtain R C where hit: "R < unat (sg_rows g)" "C < unat (sg_columns g)" "held < tile_stamp g R C"
    using newer tile_stamps [OF len] by auto
  have box: "unat c1 < unat (sg_columns g)" "unat r1 < unat (sg_rows g)"
    "\<And>R C. R < unat (sg_rows g) \<Longrightarrow> C < unat (sg_columns g) \<Longrightarrow> held < tile_stamp g R C \<Longrightarrow>
       unat c0 \<le> C \<and> C \<le> unat c1 \<and> unat r0 \<le> R \<and> R \<le> unat r1"
    using scan_box [OF scan [unfolded scan_tiles_def], of "unat (sg_rows g)" "unat (sg_columns g)"] hit ax
    by (auto simp: set_grid_tiles axis_ok_def)
  have hull: "unat c0 \<le> C" "C \<le> unat c1" "unat r0 \<le> R" "R \<le> unat r1" using box(3) [OF hit] by auto
  note X = axis_span [OF ax(1) hull(1,2) box(1)] and Y = axis_span [OF ax(2) hull(3,4) box(2)]
  have r: "r = rect_new (c0 * sg_tile_width g) (r0 * sg_tile_height g)
      (min ((c1 + 1) * sg_tile_width g) (sg_width g) - c0 * sg_tile_width g)
      (min ((r1 + 1) * sg_tile_height g) (sg_height g) - r0 * sg_tile_height g)"
    using w newer by (auto simp: written_since_def scan Let_def split: if_splits)
  have ends: "unat (tr_x r) + unat (tr_width r) = min (Suc (unat c1) * ?tw) (unat (sg_width g))"
    "unat (tr_y r) + unat (tr_height r) = min (Suc (unat r1) * ?th) (unat (sg_height g))"
    using X(3) Y(3) by (simp_all add: r rect_new_def unat_sub_le word_le_nat_alt X(2) Y(2))
  have starts: "unat (tr_x r) = unat c0 * ?tw" "unat (tr_y r) = unat r0 * ?th"
    by (simp_all add: r rect_new_def X(1) Y(1))
  then show "?tw dvd unat (tr_x r)" "?th dvd unat (tr_y r)" by simp_all
  show "unat (tr_x r) + unat (tr_width r) \<le> unat (sg_width g)" "unat (tr_y r) + unat (tr_height r) \<le> unat (sg_height g)"
    using ends by simp_all
  show "?tw dvd unat (tr_width r) \<or> unat (tr_x r) + unat (tr_width r) = unat (sg_width g)"
    "?th dvd unat (tr_height r) \<or> unat (tr_y r) + unat (tr_height r) = unat (sg_height g)"
    using ends starts by (metis dvd_add_right_iff dvd_triv_right min_def)+
  show "in_rect r x y" if xy: "x < unat (sg_width g)" "y < unat (sg_height g)" "held < texel_stamp g x y"
  proof -
    have t: "unat c0 \<le> x div ?tw" "x div ?tw \<le> unat c1" "unat r0 \<le> y div ?th" "y div ?th \<le> unat r1"
      using box(3) [OF axis_tile [OF ax(2) xy(2)] axis_tile [OF ax(1) xy(1)]] xy(3) by (auto simp: texel_stamp_def)
    have pos: "0 < ?tw" "0 < ?th" using ax by (auto simp: axis_ok_def)
    have "unat c0 * ?tw \<le> x" "x < Suc (unat c1) * ?tw" "unat r0 * ?th \<le> y" "y < Suc (unat r1) * ?th"
      using t pos by (simp_all add: less_eq_div_iff_mult_less_eq div_less_iff_less_mult [symmetric] less_Suc_eq_le del: mult_Suc)
    then show ?thesis using xy(1,2) ends by (simp add: in_rect_def starts)
  qed
qed

section \<open>What a history records\<close>

definition shape_bounded :: "version_shape \<Rightarrow> bool" where
  "shape_bounded shape \<longleftrightarrow>
     unat (vs_width shape) < 2 ^ 31 \<and> unat (vs_height shape) < 2 ^ 31 \<and> unat (vs_levels shape) \<le> 32"

definition level_grid :: "version_shape \<Rightarrow> nat \<Rightarrow> stamp_grid" where
  "level_grid shape level =
     grid_new (level_extent (vs_width shape) (of_nat level)) (level_extent (vs_height shape) (of_nat level))
       (block_layout (vs_pixel_format shape))"

definition same_tiling :: "stamp_grid \<Rightarrow> stamp_grid \<Rightarrow> bool" where
  "same_tiling g g' \<longleftrightarrow> sg_width g = sg_width g' \<and> sg_height g = sg_height g'
     \<and> sg_tile_width g = sg_tile_width g' \<and> sg_tile_height g = sg_tile_height g'"

definition history_ok :: "version_shape \<Rightarrow> write_history \<Rightarrow> bool" where
  "history_ok shape h \<longleftrightarrow>
     wh_slices h = shape_slices shape \<and> wh_levels h = vs_levels shape
     \<and> length (wh_grids h) = unat (shape_slices shape) * unat (vs_levels shape)
     \<and> (\<forall>i<length (wh_grids h). grid_ok (wh_grids h ! i) \<and> sg_newest (wh_grids h ! i) \<le> wh_writes h
          \<and> same_tiling (wh_grids h ! i) (level_grid shape (i mod unat (vs_levels shape))))"

lemma level_extent_bounds: "0 < unat (level_extent base level)"
  "unat base < 2 ^ 31 \<Longrightarrow> unat (level_extent base level) < 2 ^ 31"
proof -
  have le: "unat (drop_bit n b) \<le> unat b" for n and b :: u32
    by (subst unat_drop_bit_eq) (simp add: drop_bit_eq_div)
  show "0 < unat (level_extent base level)" by (simp add: level_extent_def unat_max)
  show "unat base < 2 ^ 31 \<Longrightarrow> unat (level_extent base level) < 2 ^ 31"
    using le [of "unat level mod 32" "max base 1"] by (auto simp: level_extent_def unat_max)
qed

lemma level_grid_ok: "shape_bounded shape \<Longrightarrow> grid_ok (level_grid shape level)"
  unfolding level_grid_def shape_bounded_def by (intro grid_new_ok level_extent_bounds block_edges; simp)

lemma shape_slices_le: "unat (shape_slices shape) \<le> 6" "0 < unat (shape_slices shape)"
  by (simp_all add: shape_slices_def)

lemma history_grids: "wh_grids (history_new shape)
  = concat (map (\<lambda>_. map (level_grid shape) [0..<unat (vs_levels shape)]) [0..<unat (shape_slices shape)])"
  by (simp add: history_new_def level_grid_def [abs_def])

lemma nth_concat_rows:
  "i < n * length xs \<Longrightarrow> concat (map (\<lambda>_. xs) [0..<n]) ! i = xs ! (i mod length xs)"
proof (induction n)
  case (Suc n)
  have len: "length (concat (map (\<lambda>_. xs) [0..<n])) = n * length xs"
    by (simp add: length_concat comp_def sum_list_triv)
  show ?case
  proof (cases "i < n * length xs")
    case False
    then obtain k where k: "i = n * length xs + k" by (metis le_Suc_ex not_less)
    with Suc.prems have "k < length xs" by simp
    then show ?thesis by (simp add: k nth_append len)
  qed (use Suc.IH in \<open>simp add: nth_append len\<close>)
qed simp

lemma history_new_ok:
  assumes "shape_bounded shape"
  shows "history_ok shape (history_new shape)"
proof -
  have len: "length (wh_grids (history_new shape)) = unat (shape_slices shape) * unat (vs_levels shape)"
    by (simp add: history_grids length_concat comp_def sum_list_triv)
  have "wh_grids (history_new shape) ! i = level_grid shape (i mod unat (vs_levels shape))"
    if "i < length (wh_grids (history_new shape))" for i
  proof -
    have "0 < unat (vs_levels shape)" using that len by (auto intro: gr0I)
    then show ?thesis using that len by (simp add: history_grids nth_concat_rows)
  qed
  then show ?thesis
    using assms len level_grid_ok
    by (simp add: history_ok_def same_tiling_def) (simp add: history_new_def level_grid_def grid_new_def Let_def)
qed

text \<open>The writes a history hears of, as events, and the texels each touches.\<close>

datatype write_event = WriteRect u32 u32 texel_rect | RegenerateMips

fun history_event :: "write_event \<Rightarrow> write_history option \<Rightarrow> write_history option" where
  "history_event (WriteRect face level rect) history = history_write face level rect history"
| "history_event RegenerateMips history = history_mips history"

fun touches :: "write_event \<Rightarrow> u32 \<Rightarrow> u32 \<Rightarrow> nat \<Rightarrow> nat \<Rightarrow> bool" where
  "touches (WriteRect f l rect) face level x y \<longleftrightarrow> f = face \<and> l = level \<and> in_rect rect x y"
| "touches RegenerateMips face level x y \<longleftrightarrow> level \<noteq> 0"

lemma grid_index_exact:
  assumes "history_ok shape h" "shape_bounded shape" "face < shape_slices shape" "level < vs_levels shape"
  shows "grid_index h face level = unat face * unat (vs_levels shape) + unat level"
    "grid_index h face level < length (wh_grids h)"
    "grid_index h face level mod unat (vs_levels shape) = unat level"
proof -
  have lv: "wh_levels h = vs_levels shape" and len: "length (wh_grids h) = unat (shape_slices shape) * unat (vs_levels shape)"
    using assms(1) by (auto simp: history_ok_def)
  have less: "unat face < unat (shape_slices shape)" "unat level < unat (vs_levels shape)" "unat (vs_levels shape) \<le> 32"
    using assms(2-4) by (auto simp: word_less_nat_alt shape_bounded_def)
  have fl: "unat face * unat (vs_levels shape) \<le> 6 * 32"
    using less shape_slices_le(1) [of shape] by (intro mult_le_mono) auto
  then have "unat (face * vs_levels shape) = unat face * unat (vs_levels shape)" by (simp add: unat_mul_no_overflow)
  with fl less show *: "grid_index h face level = unat face * unat (vs_levels shape) + unat level"
    by (simp add: grid_index_def lv unat_add_no_overflow)
  show "grid_index h face level < length (wh_grids h)"
    using tile_in_grid [OF less(1,2)] by (simp add: * len mult.commute)
  show "grid_index h face level mod unat (vs_levels shape) = unat level" using less(2) by (simp add: *)
qed

abbreviation subgrid :: "write_history \<Rightarrow> u32 \<Rightarrow> u32 \<Rightarrow> stamp_grid" where
  "subgrid h face level \<equiv> wh_grids h ! grid_index h face level"

lemma stamped_same_tiling: "same_tiling g t \<Longrightarrow> same_tiling (grid_stamp rect s g) t"
  by (simp add: same_tiling_def)

lemma next_stamp: "unat (w::u64) < 2 ^ 64 - 1 \<Longrightarrow> unat (w + 1) = Suc (unat w) \<and> w \<le> w + 1 \<and> w < w + 1"
  by (simp add: unat_add_no_overflow word_le_nat_alt word_less_nat_alt)

lemma whole_in_level: "x < unat (sg_width g) \<Longrightarrow> y < unat (sg_height g) \<Longrightarrow> in_rect (rect_level (sg_width g) (sg_height g)) x y"
  by (simp add: in_rect_def rect_level_def rect_new_def)

text \<open>
  What an event does to one grid: it leaves it alone and touches none of its texels, or it stamps
  a rectangle that holds every texel it touches.
\<close>

definition restamped :: "write_event \<Rightarrow> u32 \<Rightarrow> u32 \<Rightarrow> u64 \<Rightarrow> stamp_grid \<Rightarrow> stamp_grid \<Rightarrow> bool" where
  "restamped ev face level stamp g g' \<longleftrightarrow>
     (\<exists>rect. (g' = grid_stamp rect stamp g \<or> g' = g \<and> rect = rect_level 0 0) \<and>
        (\<forall>x y. x < unat (sg_width g) \<longrightarrow> y < unat (sg_height g) \<longrightarrow> touches ev face level x y \<longrightarrow> in_rect rect x y))"

lemma restamped_same: "(\<And>x y. \<not> touches ev face level x y) \<Longrightarrow> restamped ev face level stamp g g"
  by (auto simp: restamped_def)

lemma restamped_grid:
  assumes "restamped ev face level stamp g g'" "grid_ok g" "sg_newest g \<le> stamp"
  shows "grid_ok g'" "sg_newest g' \<le> stamp" "same_tiling g t \<Longrightarrow> same_tiling g' t"
    "x < unat (sg_width g) \<Longrightarrow> y < unat (sg_height g) \<Longrightarrow> texel_stamp g' x y \<in> {stamp, texel_stamp g x y}"
    "x < unat (sg_width g) \<Longrightarrow> y < unat (sg_height g) \<Longrightarrow> touches ev face level x y \<Longrightarrow> texel_stamp g' x y = stamp"
  using assms grid_stamp_ok [OF assms(2,3)] stamped_same_tiling
  by (auto simp: restamped_def) (fastforce simp: in_rect_def rect_level_def rect_new_def)+

definition index_face :: "version_shape \<Rightarrow> nat \<Rightarrow> u32" where
  "index_face shape i = of_nat (i div unat (vs_levels shape))"

definition index_level :: "version_shape \<Rightarrow> nat \<Rightarrow> u32" where
  "index_level shape i = of_nat (i mod unat (vs_levels shape))"

lemma index_parts:
  assumes ok: "history_ok shape h" and bd: "shape_bounded shape" and i: "i < length (wh_grids h)"
  shows "index_face shape i < shape_slices shape" "index_level shape i < vs_levels shape"
    "grid_index h (index_face shape i) (index_level shape i) = i"
proof -
  let ?lv = "unat (vs_levels shape)"
  have len: "i < unat (shape_slices shape) * ?lv" using i ok by (simp add: history_ok_def)
  then have pos: "0 < ?lv" by (auto intro: gr0I)
  have small: "i div ?lv < unat (shape_slices shape)" "i mod ?lv < ?lv"
    using len pos by (simp_all add: less_mult_imp_div_less)
  have u: "unat (index_face shape i) = i div ?lv" "unat (index_level shape i) = i mod ?lv"
    using small shape_slices_le(1) [of shape] bd by (auto simp: index_face_def index_level_def unat_of_nat shape_bounded_def)
  show less: "index_face shape i < shape_slices shape" "index_level shape i < vs_levels shape"
    using small by (simp_all add: word_less_nat_alt u)
  show "grid_index h (index_face shape i) (index_level shape i) = i"
    using grid_index_exact(1) [OF ok bd less] by (simp add: u)
qed

lemma index_of_parts:
  assumes "history_ok shape h" "shape_bounded shape" "face < shape_slices shape" "level < vs_levels shape"
  shows "index_face shape (grid_index h face level) = face" "index_level shape (grid_index h face level) = level"
  using grid_index_exact [OF assms] assms(4) u32_bound [of face] u32_bound [of level]
  by (simp_all add: index_face_def index_level_def word_less_nat_alt word_unat_eq_iff unat_of_nat)

lemma write_step:
  assumes ok: "history_ok shape h" and bd: "shape_bounded shape"
    and ev: "history_write f l rect (Some h) = Some h'"
  shows "\<exists>gs. h' = h\<lparr>wh_writes := wh_writes h + 1, wh_grids := gs\<rparr> \<and> length gs = length (wh_grids h)
    \<and> (\<forall>i<length gs. restamped (WriteRect f l rect) (index_face shape i) (index_level shape i) (wh_writes h + 1)
          (wh_grids h ! i) (gs ! i))"
proof -
  let ?i = "grid_index h f l" and ?g = "grid_stamp rect (wh_writes h + 1)"
  have fl: "f < shape_slices shape" "l < vs_levels shape"
    and h': "h' = h\<lparr>wh_writes := wh_writes h + 1, wh_grids := (wh_grids h)[?i := ?g (wh_grids h ! ?i)]\<rparr>"
    using ev ok by (auto simp: history_write_def Let_def history_ok_def not_le split: if_splits)
  have "restamped (WriteRect f l rect) (index_face shape i) (index_level shape i) (wh_writes h + 1)
      (wh_grids h ! i) ((wh_grids h)[?i := ?g (wh_grids h ! ?i)] ! i)" if i: "i < length (wh_grids h)" for i
  proof (cases "?i = i")
    case True
    with i show ?thesis by (auto simp: restamped_def)
  next
    case False
    then have "f \<noteq> index_face shape i \<or> l \<noteq> index_level shape i" using index_parts(3) [OF ok bd i] by auto
    with False i show ?thesis by (auto intro: restamped_same)
  qed
  with h' show ?thesis by (intro exI) (auto simp del: nth_list_update)
qed

lemma mips_step:
  assumes ok: "history_ok shape h" and bd: "shape_bounded shape" and ev: "history_mips (Some h) = Some h'"
  shows "\<exists>gs. h' = h\<lparr>wh_writes := wh_writes h + 1, wh_grids := gs\<rparr> \<and> length gs = length (wh_grids h)
    \<and> (\<forall>i<length gs. restamped RegenerateMips (index_face shape i) (index_level shape i) (wh_writes h + 1)
          (wh_grids h ! i) (gs ! i))"
proof -
  let ?lv = "unat (vs_levels shape)" and ?n = "length (wh_grids h)"
  let ?gs = "map (\<lambda>i. if i mod ?lv \<noteq> 0 then stamp_whole (wh_writes h + 1) (wh_grids h ! i) else wh_grids h ! i) [0..<?n]"
  have lv: "wh_levels h = vs_levels shape" "unat (max (vs_levels shape) 1) = max ?lv 1" and len: "?n = unat (shape_slices shape) * ?lv"
    using ok by (auto simp: history_ok_def unat_max)
  have h': "h' = h\<lparr>wh_writes := wh_writes h + 1, wh_grids := ?gs\<rparr>"
  proof (cases "?lv = 0")
    case True
    with len have "wh_grids h = []" by simp
    with ev show ?thesis by (auto simp: history_mips_def Let_def)
  next
    case False
    then have "max ?lv 1 = ?lv" by simp
    moreover have "?n div ?lv * ?lv = ?n" by (simp add: len)
    ultimately show ?thesis using ev by (auto simp: history_mips_def Let_def lv simp del: One_nat_def)
  qed
  have "restamped RegenerateMips (index_face shape i) (index_level shape i) (wh_writes h + 1) (wh_grids h ! i) (?gs ! i)"
    if i: "i < ?n" for i
  proof -
    have "index_level shape i = 0 \<longleftrightarrow> i mod ?lv = 0"
      using grid_index_exact(3) [OF ok bd index_parts(1,2) [OF ok bd i]] index_parts(3) [OF ok bd i] by (simp add: unat_eq_0)
    then show ?thesis
      using i by (auto simp: stamp_whole_def intro: restamped_same) (auto simp: restamped_def whole_in_level)
  qed
  with h' show ?thesis by (intro exI [of _ ?gs]) auto
qed

lemma history_event_step:
  assumes ok: "history_ok shape h" and bd: "shape_bounded shape" and room: "unat (wh_writes h) < 2 ^ 64 - 1"
    and ev: "history_event ev (Some h) = Some h'"
  shows "history_ok shape h'" "wh_writes h' = wh_writes h + 1"
    and "face < shape_slices shape \<Longrightarrow> level < vs_levels shape \<Longrightarrow>
      restamped ev face level (wh_writes h') (subgrid h face level) (subgrid h' face level)"
proof -
  have "\<exists>gs. h' = h\<lparr>wh_writes := wh_writes h + 1, wh_grids := gs\<rparr> \<and> length gs = length (wh_grids h)
    \<and> (\<forall>i<length gs. restamped ev (index_face shape i) (index_level shape i) (wh_writes h + 1)
          (wh_grids h ! i) (gs ! i))"
    using ev write_step [OF ok bd] mips_step [OF ok bd] by (cases ev) (simp_all only: history_event.simps)
  then obtain gs where gs: "h' = h\<lparr>wh_writes := wh_writes h + 1, wh_grids := gs\<rparr>" "length gs = length (wh_grids h)"
    and each: "\<And>i. i < length gs \<Longrightarrow> restamped ev (index_face shape i) (index_level shape i) (wh_writes h + 1)
          (wh_grids h ! i) (gs ! i)"
    by blast
  show w: "wh_writes h' = wh_writes h + 1" by (simp add: gs)
  have old: "grid_ok (wh_grids h ! i)" "sg_newest (wh_grids h ! i) \<le> wh_writes h + 1"
    "same_tiling (wh_grids h ! i) (level_grid shape (i mod unat (vs_levels shape)))" if "i < length gs" for i
    using ok that gs(2) next_stamp [OF room] order_trans by (auto simp: history_ok_def)
  show "history_ok shape h'"
    using ok gs restamped_grid [OF each old(1,2)] old(3) by (auto simp: history_ok_def)
  show "restamped ev face level (wh_writes h') (subgrid h face level) (subgrid h' face level)"
    if fl: "face < shape_slices shape" "level < vs_levels shape"
    using each [of "grid_index h face level"] grid_index_exact(2) [OF ok bd fl] index_of_parts [OF ok bd fl] gs
    by (simp add: w grid_index_def)
qed

lemma history_event_None: "fold history_event evs None = None"
proof (induction evs)
  case (Cons ev evs)
  then show ?case by (cases ev) (simp_all add: history_write_def history_mips_def)
qed simp

text \<open>A texel stamped after \<open>held\<close> stays so, and every event stamps what it touches later than \<open>held\<close>.\<close>

lemma history_fold:
  assumes "history_ok shape h" "shape_bounded shape" "fold history_event evs (Some h) = Some h'"
    and "unat (wh_writes h) + length evs < 2 ^ 64"
  shows "history_ok shape h' \<and> unat (wh_writes h') = unat (wh_writes h) + length evs
    \<and> (face < shape_slices shape \<longrightarrow> level < vs_levels shape \<longrightarrow>
        x < unat (sg_width (level_grid shape (unat level))) \<longrightarrow> y < unat (sg_height (level_grid shape (unat level))) \<longrightarrow>
        held \<le> wh_writes h \<longrightarrow>
        held < texel_stamp (subgrid h face level) x y \<or> (\<exists>ev\<in>set evs. touches ev face level x y) \<longrightarrow>
        held < texel_stamp (subgrid h' face level) x y)"
  using assms
proof (induction evs arbitrary: h)
  case (Cons ev evs)
  from Cons.prems(3) obtain h1 where ev: "history_event ev (Some h) = Some h1" and rest: "fold history_event evs (Some h1) = Some h'"
    by (cases "history_event ev (Some h)") (auto simp: history_event_None)
  have room: "unat (wh_writes h) < 2 ^ 64 - 1" using Cons.prems(4) by simp
  note step = history_event_step [OF Cons.prems(1,2) room ev] and up = next_stamp [OF room]
  have w1: "unat (wh_writes h1) = Suc (unat (wh_writes h))" using step(2) up by simp
  note IH = Cons.IH [OF step(1) Cons.prems(2) rest]
  have mid: "held < texel_stamp (subgrid h1 face level) x y \<or> (\<exists>ev\<in>set evs. touches ev face level x y)"
    if fl: "face < shape_slices shape" "level < vs_levels shape"
      and xy: "x < unat (sg_width (level_grid shape (unat level)))" "y < unat (sg_height (level_grid shape (unat level)))"
      and held: "held \<le> wh_writes h"
      and hit: "held < texel_stamp (subgrid h face level) x y \<or> (\<exists>ev\<in>set (ev # evs). touches ev face level x y)"
  proof -
    note i = grid_index_exact [OF Cons.prems(1,2) fl]
    have g: "grid_ok (subgrid h face level)" "sg_newest (subgrid h face level) \<le> wh_writes h1"
      "same_tiling (subgrid h face level) (level_grid shape (unat level))"
      using Cons.prems(1) i(2,3) up order_trans by (auto simp: history_ok_def step(2))
    have "x < unat (sg_width (subgrid h face level))" "y < unat (sg_height (subgrid h face level))"
      using xy g(3) by (auto simp: same_tiling_def)
    note r = restamped_grid(4,5) [OF step(3) [OF fl] g(1,2) this]
    have "held < wh_writes h1" using held up step(2) by auto
    with r hit show ?thesis by auto
  qed
  have "held \<le> wh_writes h1" if "held \<le> wh_writes h" using that up step(2) by auto
  with IH mid w1 Cons.prems(4) show ?case by auto
qed simp

section \<open>A reused version is whole\<close>

text \<open>
  The effect of a plan on an image: the copies read the live version and write the version the
  rename makes live. An image gives each texel of each subresource.
\<close>

definition copies_texel :: "preserve_copy \<Rightarrow> u32 \<Rightarrow> u32 \<Rightarrow> nat \<Rightarrow> nat \<Rightarrow> bool" where
  "copies_texel c face level x y \<longleftrightarrow> pc_slice c = face \<and> pc_level c = level
     \<and> (case pc_region c of None \<Rightarrow> True | Some r \<Rightarrow> in_rect r x y)"

definition run_copies ::
  "preserve_copy list \<Rightarrow> (u32 \<Rightarrow> u32 \<Rightarrow> nat \<Rightarrow> nat \<Rightarrow> 'c) \<Rightarrow> (u32 \<Rightarrow> u32 \<Rightarrow> nat \<Rightarrow> nat \<Rightarrow> 'c) \<Rightarrow> u32 \<Rightarrow> u32 \<Rightarrow> nat \<Rightarrow> nat \<Rightarrow> 'c"
where
  "run_copies plan live dest face level x y =
     (if list_ex (\<lambda>c. copies_texel c face level x y) plan then live face level x y else dest face level x y)"

lemma history_plan_mem:
  assumes "face < shape_slices shape" "level < vs_levels shape"
    and "c \<in> set (plan_subresource history held upload face level)"
  shows "c \<in> set (history_plan history shape held upload)"
proof -
  have "unat face < unat (shape_slices shape)" "unat level < unat (vs_levels shape)"
    "c \<in> set (plan_subresource history held upload (of_nat (unat face)) (of_nat (unat level)))"
    using assms by (simp_all add: word_less_nat_alt of_nat_unat)
  then show ?thesis
    by (simp add: history_plan_def) (meson atLeastLessThan_iff zero_le)
qed

lemma run_copies_covered:
  assumes "face < shape_slices shape" "level < vs_levels shape"
    and "\<exists>c\<in>set (plan_subresource history held upload face level). copies_texel c face level x y"
  shows "run_copies (history_plan history shape held upload) live dest face level x y = live face level x y"
  using assms(3) history_plan_mem [OF assms(1,2)] by (auto simp: run_copies_def list_ex_iff)

lemma level_grid_dims:
  "sg_width (level_grid shape (unat level)) = level_extent (vs_width shape) level"
  "sg_height (level_grid shape (unat level)) = level_extent (vs_height shape) level"
  by (simp_all add: level_grid_def grid_new_def Let_def of_nat_unat)

lemma known_version_whole:
  assumes "shape_bounded shape"
    and "fold history_event before (Some (history_new shape)) = Some h0"
    and "fold history_event later (Some h0) = Some h" and "length before + length later < 2 ^ 64"
    and "face < shape_slices shape" "level < vs_levels shape"
    and "x < unat (level_extent (vs_width shape) level)" "y < unat (level_extent (vs_height shape) level)"
    and "\<not> (face = uf_slice upload \<and> level = uf_level upload \<and> uf_full_cover upload)"
    and "\<not> list_ex (\<lambda>ev. touches ev face level x y) later \<Longrightarrow> spare face level x y = live face level x y"
  shows "run_copies (history_plan (Some h) shape (Some (wh_writes h0)) upload) live spare face level x y = live face level x y"
proof -
  have w0: "unat (wh_writes (history_new shape)) = 0" by (simp add: history_new_def)
  have h0: "history_ok shape h0" "unat (wh_writes h0) = length before"
    using history_fold [OF history_new_ok [OF assms(1)] assms(1,2)] assms(4) w0 by auto
  note run = history_fold [OF h0(1) assms(1,3), of face level x y "wh_writes h0"]
  have h: "history_ok shape h" using run assms(4) h0(2) by simp
  have later: "wh_writes h0 < texel_stamp (subgrid h face level) x y" if "\<exists>ev\<in>set later. touches ev face level x y"
    using run that assms(4-8) h0(2) by (simp add: level_grid_dims)
  note i = grid_index_exact [OF h assms(1,5,6)]
  have g: "grid_ok (subgrid h face level)" "sg_width (subgrid h face level) = level_extent (vs_width shape) level"
    "sg_height (subgrid h face level) = level_extent (vs_height shape) level"
    using h i by (auto simp: history_ok_def same_tiling_def level_grid_dims)
  have copied: "\<exists>c\<in>set (plan_subresource (Some h) (Some (wh_writes h0)) upload face level). copies_texel c face level x y"
    if "\<exists>ev\<in>set later. touches ev face level x y"
  proof (cases "written_since (subgrid h face level) (wh_writes h0)")
    case None
    with written_since_None [OF g(1), of x y "wh_writes h0"] assms(7,8) g
    have "texel_stamp (subgrid h face level) x y \<le> wh_writes h0" by simp
    with later [OF that] show ?thesis by simp
  next
    case (Some r)
    with written_since_Some(1) [OF g(1) Some] assms(7,8) g later [OF that] have "in_rect r x y" by simp
    with Some assms(9) show ?thesis by (auto simp: plan_subresource_def Let_def copies_texel_def)
  qed
  show ?thesis
    using run_copies_covered [OF assms(5,6) copied] assms(10)
    by (cases "\<exists>ev\<in>set later. touches ev face level x y") (auto simp: list_ex_iff run_copies_def)
qed

lemma unknown_version_whole:
  assumes "face < shape_slices shape" "level < vs_levels shape"
    and "\<not> (face = uf_slice upload \<and> level = uf_level upload \<and> uf_full_cover upload)"
  shows "run_copies (history_plan history shape None upload) live unknown face level x y = live face level x y"
  using assms(3) by (intro run_copies_covered [OF assms(1,2)])
    (auto simp: plan_subresource_def copies_texel_def split: option.split)

text \<open>
  C7. A reused version is whole. Take a spare that retired when the history had counted some writes,
  and any later writes and mip regenerations the history heard of. If the spare still agrees with
  the live version on every texel no later write touched, then after the planned copies it agrees
  on every texel of every subresource, except in one the pending upload rewrites entirely. A version
  of unknown contents gets every subresource copied.
\<close>

theorem reused_version_is_whole:
  assumes "shape_bounded shape"
    and "fold history_event before (Some (history_new shape)) = Some h0"
    and "fold history_event later (Some h0) = Some h" and "length before + length later < 2 ^ 64"
    and "face < shape_slices shape" "level < vs_levels shape"
    and "x < unat (level_extent (vs_width shape) level)" "y < unat (level_extent (vs_height shape) level)"
    and "\<not> (face = uf_slice upload \<and> level = uf_level upload \<and> uf_full_cover upload)"
    and "\<not> list_ex (\<lambda>ev. touches ev face level x y) later \<Longrightarrow> spare face level x y = live face level x y"
  shows "run_copies (history_plan (Some h) shape (Some (wh_writes h0)) upload) live spare face level x y = live face level x y
    \<and> run_copies (history_plan history shape None upload) live unknown face level x y = live face level x y"
  using known_version_whole [OF assms(1-9), of spare live] assms(10) unknown_version_whole [OF assms(5,6,9)] by blast

text \<open>A 64 by 32 texture written once before a version retires and once after.\<close>

definition demo_shape :: version_shape where
  "demo_shape = \<lparr>vs_width = 64, vs_height = 32, vs_depth = 1, vs_levels = 1, vs_pixel_format = PfBgra8Unorm,
     vs_storage_mode = PrivateMode, vs_flags = 0, vs_usage = 0, vs_swizzle = []\<rparr>"

definition demo_upload :: upload_footprint where
  "demo_upload = \<lparr>uf_slice = 0, uf_level = 0, uf_full_cover = False\<rparr>"

lemma demo_writes:
  "\<exists>h0 h. fold history_event [WriteRect 0 0 (rect_new 0 0 16 16)] (Some (history_new demo_shape)) = Some h0
     \<and> fold history_event [WriteRect 0 0 (rect_new 20 4 8 8)] (Some h0) = Some h"
  by (simp add: history_write_def history_new_def demo_shape_def shape_slices_def Let_def)

theorem reused_version_is_whole_witness:
  "\<exists>h0 h. fold history_event [WriteRect 0 0 (rect_new 0 0 16 16)] (Some (history_new demo_shape)) = Some h0
     \<and> fold history_event [WriteRect 0 0 (rect_new 20 4 8 8)] (Some h0) = Some h
     \<and> run_copies (history_plan (Some h) demo_shape (Some (wh_writes h0)) demo_upload)
         (\<lambda>_ _ _ _. 1 :: nat) (\<lambda>_ _ _ _. 0) 0 0 24 8 = 1"
proof -
  obtain h0 h where h: "fold history_event [WriteRect 0 0 (rect_new 0 0 16 16)] (Some (history_new demo_shape)) = Some h0"
    "fold history_event [WriteRect 0 0 (rect_new 20 4 8 8)] (Some h0) = Some h"
    using demo_writes by blast
  have "run_copies (history_plan (Some h) demo_shape (Some (wh_writes h0)) demo_upload)
      (\<lambda>_ _ _ _. 1 :: nat) (\<lambda>_ _ _ _. 0) 0 0 24 8 = 1"
    by (rule conjunct1 [OF reused_version_is_whole [OF _ h, where face = 0 and level = 0 and x = 24 and y = 8]])
      (simp_all add: demo_shape_def shape_bounded_def shape_slices_def level_extent_def demo_upload_def in_rect_def rect_new_def)
  with h show ?thesis by blast
qed

lemma dvd_next_multiple: "(b::nat) dvd a + (b - a mod b)" if "0 < b"
proof -
  have "a + (b - a mod b) = b * (a div b) + b"
    using that mod_less_divisor [of b a] mult_div_mod_eq [of b a] by linarith
  then show ?thesis by simp
qed

lemma block_dvd_tile:
  assumes "unat extent < 2 ^ 31" "block \<in> {1, 4}"
  shows "unat block dvd unat (tile_edge extent block)"
proof -
  let ?m = "max (div_ceil extent MAX_TILES_PER_AXIS) MIN_TILE_TEXELS"
  have "unat (div_ceil extent MAX_TILES_PER_AXIS) < 2 ^ 27"
    using assms(1) by (auto simp: unat_div_ceil MAX_TILES_PER_AXIS_def)
  then have "unat ?m + unat block < 2 ^ LENGTH(32)" using assms(2) by (auto simp: unat_max MIN_TILE_TEXELS_def)
  moreover have "0 < unat block" using assms(2) by auto
  ultimately show ?thesis using dvd_next_multiple by (auto simp: tile_edge_def unat_next_multiple)
qed

text \<open>
  C40. Every partial copy of a plan is one Metal accepts: the rectangle lies in its level, starts on
  the format's block grid and ends on it or at the level's edge, so that a box of tiles is a legal
  copy region for a block-compressed texture too.
\<close>

theorem planned_regions_are_legal:
  assumes "shape_bounded shape" "fold history_event evs (Some (history_new shape)) = Some h" "length evs < 2 ^ 64"
    and "c \<in> set (history_plan (Some h) shape held upload)" "pc_region c = Some r"
  shows "let block = block_layout (vs_pixel_format shape);
             w = level_extent (vs_width shape) (pc_level c); ht = level_extent (vs_height shape) (pc_level c)
         in unat (tr_x r) + unat (tr_width r) \<le> unat w \<and> unat (tr_y r) + unat (tr_height r) \<le> unat ht
            \<and> rect_on_block_grid (bl_width block, bl_height block) (tr_x r, tr_y r) (tr_width r, tr_height r) (w, ht)"
proof -
  let ?b = "block_layout (vs_pixel_format shape)"
  have h: "history_ok shape h"
    using history_fold [OF history_new_ok [OF assms(1)] assms(1,2)] assms(3) by (simp add: history_new_def)
  obtain f l where fl: "f < unat (shape_slices shape)" "l < unat (vs_levels shape)"
    and c: "c \<in> set (plan_subresource (Some h) held upload (of_nat f) (of_nat l))"
    using assms(4) by (auto simp: history_plan_def)
  let ?f = "of_nat f :: u32" and ?l = "of_nat l :: u32"
  have "unat ?f = f" "unat ?l = l"
    using fl shape_slices_le(1) [of shape] assms(1) by (auto simp: unat_of_nat shape_bounded_def)
  with fl have less: "?f < shape_slices shape" "?l < vs_levels shape" and l: "unat ?l = l" by (auto simp: word_less_nat_alt)
  obtain hw where hw: "written_since (subgrid h ?f ?l) hw = Some r" and pl: "pc_level c = ?l"
    using c assms(5) by (auto simp: plan_subresource_def Let_def split: if_splits option.splits)
  have g: "grid_ok (subgrid h ?f ?l)" "same_tiling (subgrid h ?f ?l) (level_grid shape l)"
    using h grid_index_exact(2,3) [OF h assms(1) less] l by (auto simp: history_ok_def)
  have dims: "sg_width (subgrid h ?f ?l) = level_extent (vs_width shape) ?l"
    "sg_height (subgrid h ?f ?l) = level_extent (vs_height shape) ?l"
    "sg_tile_width (subgrid h ?f ?l) = tile_edge (level_extent (vs_width shape) ?l) (bl_width ?b)"
    "sg_tile_height (subgrid h ?f ?l) = tile_edge (level_extent (vs_height shape) ?l) (bl_height ?b)"
    using g(2) by (auto simp: same_tiling_def level_grid_def grid_new_def Let_def)
  have ext: "unat (level_extent (vs_width shape) ?l) < 2 ^ 31" "unat (level_extent (vs_height shape) ?l) < 2 ^ 31"
    using assms(1) level_extent_bounds(2) [of "vs_width shape" ?l] level_extent_bounds(2) [of "vs_height shape" ?l]
    by (simp_all add: shape_bounded_def)
  note tile = block_dvd_tile [OF ext(1) block_edges(1)] block_dvd_tile [OF ext(2) block_edges(2)]
  note box = written_since_Some(2-7) [OF g(1) hw, unfolded dims]
  have "rect_on_block_grid (bl_width ?b, bl_height ?b) (tr_x r, tr_y r) (tr_width r, tr_height r)
    (level_extent (vs_width shape) ?l, level_extent (vs_height shape) ?l)"
    using box tile dvd_trans [OF tile(1)] dvd_trans [OF tile(2)] u32_bound
    by (auto simp: rect_on_block_grid_def is_multiple_of_unat checked_add_Some)
  with box pl show ?thesis by (simp add: Let_def)
qed

lemma demo_grid: "level_grid demo_shape 0 = \<lparr>sg_width = 64, sg_height = 32, sg_tile_width = 16, sg_tile_height = 16,
    sg_columns = 4, sg_rows = 2, sg_newest = 0, sg_stamps = [0, 0, 0, 0, 0, 0, 0, 0]\<rparr>"
  by (simp add: level_grid_def demo_shape_def grid_new_def level_extent_def tile_edge_def block_layout_def pixel_block_def
      div_ceil_def MAX_TILES_PER_AXIS_def MIN_TILE_TEXELS_def next_multiple_of_def Let_def) (simp add: numeral_eq_Suc)

lemma demo_history: "fold history_event [WriteRect 0 0 (rect_new 0 0 16 16), WriteRect 0 0 (rect_new 20 4 8 8)]
    (Some (history_new demo_shape)) = Some \<lparr>wh_slices = 1, wh_levels = 1, wh_writes = 2,
      wh_grids = [(level_grid demo_shape 0)\<lparr>sg_newest := 2, sg_stamps := [1, 2, 0, 0, 0, 0, 0, 0]\<rparr>]\<rparr>"
proof -
  have "history_new demo_shape = \<lparr>wh_slices = 1, wh_levels = 1, wh_writes = 0, wh_grids = [level_grid demo_shape 0]\<rparr>"
    by (simp add: history_new_def demo_shape_def shape_slices_def level_grid_def has_flag_def)
  then show ?thesis
    by (simp add: history_write_def grid_index_def grid_stamp_def Let_def rect_new_def demo_grid fill_range_def sat_add_def)
qed
theorem planned_regions_are_legal_witness:
  "\<exists>h c r. fold history_event [WriteRect 0 0 (rect_new 0 0 16 16), WriteRect 0 0 (rect_new 20 4 8 8)]
       (Some (history_new demo_shape)) = Some h
     \<and> history_plan (Some h) demo_shape (Some 1) demo_upload = [c] \<and> pc_region c = Some r
     \<and> rect_on_block_grid (1, 1) (tr_x r, tr_y r) (tr_width r, tr_height r) (64, 32)"
proof -
  let ?h = "\<lparr>wh_slices = 1, wh_levels = 1, wh_writes = 2,
      wh_grids = [(level_grid demo_shape 0)\<lparr>sg_newest := 2, sg_stamps := [1, 2, 0, 0, 0, 0, 0, 0]\<rparr>]\<rparr> :: write_history"
  let ?r = "rect_new 16 0 16 16"
  have "written_since ((level_grid demo_shape 0)\<lparr>sg_newest := 2, sg_stamps := [1, 2, 0, 0, 0, 0, 0, 0]\<rparr>) 1 = Some ?r"
    by (simp add: written_since_def scan_tiles_def grid_tiles_def demo_grid upt_rec)
      (simp add: scan_step_def tile_stamp_def word_le_nat_alt min_def unat_max_word Let_def)
  then have plan: "history_plan (Some ?h) demo_shape (Some 1) demo_upload = [\<lparr>pc_slice = 0, pc_level = 0, pc_region = Some ?r\<rparr>]"
    by (simp add: history_plan_def plan_subresource_def demo_upload_def shape_slices_def has_flag_def grid_index_def Let_def
        rect_new_def demo_grid) (simp add: demo_shape_def rect_level_def rect_new_def)
  have "rect_on_block_grid (1, 1) (tr_x ?r, tr_y ?r) (tr_width ?r, tr_height ?r) (64, 32)"
    using planned_regions_are_legal [OF _ demo_history, of "\<lparr>pc_slice = 0, pc_level = 0, pc_region = Some ?r\<rparr>" "Some 1" demo_upload ?r]
    by (simp add: plan shape_bounded_def) (simp add: demo_shape_def block_layout_def pixel_block_def level_extent_def)
  with demo_history plan show ?thesis by auto
qed

end
