(* ===== verification/Texture_Versions.thy ===== *)
theory Texture_Versions
  imports Stamp_Grid "HOL-Library.Product_Lexorder" "HOL-Library.Multiset"
begin

text \<open>
  The version pool of \<^verbatim>\<open>src/windows/core/src/texture_versions.rs\<close>: retired versions of renamed textures,
  the spares they become, the destroy queue and the memory budget. The hash map of textures is a
  map; where the code iterates over a hash table, the order is an argument of the definition. The
  view handles are a type parameter. A \<^verbatim>\<open>usize\<close> count is a natural number, byte totals are 64-bit words.
\<close>

section \<open>Budget\<close>

definition SPARE_MAX_IDLE_SUBMITS :: u64 where "SPARE_MAX_IDLE_SUBMITS = 8"
definition VERSION_POOL_CEILING_BYTES :: u64 where "VERSION_POOL_CEILING_BYTES = 2 ^ 30"
definition VERSION_POOL_WORKING_SET_DIVISOR :: u64 where "VERSION_POOL_WORKING_SET_DIVISOR = 8"
definition VERSION_POOL_PRESSURE_QUARTERS :: u64 where "VERSION_POOL_PRESSURE_QUARTERS = 3"
definition STATE_MAX_IDLE_SUBMITS :: u64 where "STATE_MAX_IDLE_SUBMITS = 120"
definition MIN_DESTROYS_PER_DRAIN :: nat where "MIN_DESTROYS_PER_DRAIN = 64"
definition DESTROY_SPREAD_DRAINS :: nat where "DESTROY_SPREAD_DRAINS = 8"

record version_budget =
  vb_spare_cap :: u64
  vb_pressure_above :: u64

definition from_working_set :: "u64 \<Rightarrow> version_budget" where
  "from_working_set working_set =
     (if working_set = 0
      then \<lparr>vb_spare_cap = VERSION_POOL_CEILING_BYTES, vb_pressure_above = - 1\<rparr>
      else let share = working_set div VERSION_POOL_WORKING_SET_DIVISOR
           in \<lparr>vb_spare_cap = (if share < VERSION_POOL_CEILING_BYTES then share else VERSION_POOL_CEILING_BYTES),
               vb_pressure_above = working_set div 4 * VERSION_POOL_PRESSURE_QUARTERS\<rparr>)"

definition resume_below :: "version_budget \<Rightarrow> u64" where
  "resume_below b = sat_sub (vb_pressure_above b) (vb_spare_cap b)"

section \<open>State\<close>

record 'v spare =
  sp_views :: 'v
  sp_held_writes :: "u64 option"
  sp_parked_seq :: u64

record 'v retiring =
  rt_id :: u64
  rt_views :: 'v
  rt_seq :: u64
  rt_epoch :: u64
  rt_birth_seq :: u64
  rt_held_writes :: u64
  rt_bytes :: u64

record 'v version_state =
  st_shape :: version_shape
  st_epoch :: u64
  st_bytes :: u64
  st_history :: "write_history option"
  st_live_birth_seq :: u64
  st_last_rename_seq :: u64
  st_spares :: "'v spare list"

record 'v texture_versions =
  tv_textures :: "u64 \<rightharpoonup> 'v version_state"
  tv_retiring :: "'v retiring list"
  tv_parked_bytes :: u64
  tv_doomed :: "('v \<times> u64) list"
  tv_doomed_bytes :: u64
  tv_doomed_since_take :: nat
  tv_doomed_arrivals :: "nat list"
  tv_arrival_slot :: nat
  tv_next_epoch :: u64
  tv_with_spares :: "u64 set"
  tv_idle :: "(u64 \<times> u64 \<times> u64) list"
  tv_budget :: version_budget
  tv_pressed :: bool
  tv_relieve_bytes :: u64

definition versions_new :: "version_budget \<Rightarrow> 'v texture_versions" where
  "versions_new budget =
     \<lparr>tv_textures = Map.empty, tv_retiring = [], tv_parked_bytes = 0, tv_doomed = [], tv_doomed_bytes = 0,
      tv_doomed_since_take = 0, tv_doomed_arrivals = replicate DESTROY_SPREAD_DRAINS 0, tv_arrival_slot = 0,
      tv_next_epoch = 1, tv_with_spares = {}, tv_idle = [], tv_budget = budget, tv_pressed = False,
      tv_relieve_bytes = 0\<rparr>"

definition state_new :: "version_shape \<Rightarrow> u64 \<Rightarrow> bool \<Rightarrow> 'v version_state" where
  "state_new shape epoch records =
     \<lparr>st_shape = shape, st_epoch = epoch, st_bytes = shape_bytes shape,
      st_history = (if records then Some (history_new shape) else None),
      st_live_birth_seq = 0, st_last_rename_seq = 0, st_spares = []\<rparr>"

text \<open>A \<^verbatim>\<open>BTreeSet\<close> as its ordered list.\<close>

definition bs_insert :: "'a::linorder \<Rightarrow> 'a list \<Rightarrow> 'a list" where
  "bs_insert x xs = (if x \<in> set xs then xs else insort x xs)"

definition records_writes :: "'v texture_versions \<Rightarrow> u64 \<Rightarrow> bool" where
  "records_writes tv tid =
     (case tv_textures tv tid of None \<Rightarrow> False | Some state \<Rightarrow> st_history state \<noteq> None)"

section \<open>Operations\<close>

definition doom :: "'v \<Rightarrow> u64 \<Rightarrow> 'v texture_versions \<Rightarrow> 'v texture_versions" where
  "doom views n tv =
     tv\<lparr>tv_doomed_bytes := tv_doomed_bytes tv + n, tv_doomed_since_take := tv_doomed_since_take tv + 1,
        tv_doomed := tv_doomed tv @ [(views, n)]\<rparr>"

text \<open>
  Moving spares of a state to the destroy queue, as \<^verbatim>\<open>take_spare\<close>, \<^verbatim>\<open>note_allocated\<close> and \<^verbatim>\<open>trim\<close> all do:
  the bytes change hands and the views keep their order.
\<close>

definition queue_spares :: "'v version_state \<Rightarrow> 'v spare list \<Rightarrow> 'v texture_versions \<Rightarrow> 'v texture_versions" where
  "queue_spares state gone tv =
     tv\<lparr>tv_parked_bytes := tv_parked_bytes tv - st_bytes state * of_nat (length gone),
        tv_doomed_bytes := tv_doomed_bytes tv + st_bytes state * of_nat (length gone),
        tv_doomed_since_take := tv_doomed_since_take tv + length gone,
        tv_doomed := tv_doomed tv @ map (\<lambda>spare. (sp_views spare, st_bytes state)) gone\<rparr>"

definition start_state :: "u64 \<Rightarrow> u64 \<Rightarrow> 'v texture_versions \<Rightarrow> 'v texture_versions" where
  "start_state tid seq tv =
     tv\<lparr>tv_next_epoch := tv_next_epoch tv + 1, tv_idle := bs_insert (seq, tid, tv_next_epoch tv) (tv_idle tv)\<rparr>"

definition rename_state ::
  "u64 \<Rightarrow> version_shape \<Rightarrow> bool \<Rightarrow> u64 \<Rightarrow> 'v texture_versions \<Rightarrow> 'v texture_versions \<times> 'v version_state"
where
  "rename_state tid shape records seq tv =
     (case tv_textures tv tid of
        None \<Rightarrow> (start_state tid seq tv, state_new shape (tv_next_epoch tv) records)
      | Some state \<Rightarrow>
          if st_shape state \<noteq> shape
          then (start_state tid seq (queue_spares state (st_spares state) tv), state_new shape (tv_next_epoch tv) records)
          else (tv, state))"

definition take_spare ::
  "u64 \<Rightarrow> version_shape \<Rightarrow> bool \<Rightarrow> u64 \<Rightarrow> 'v texture_versions \<Rightarrow> 'v spare option \<times> 'v texture_versions"
where
  "take_spare tid shape records seq tv =
     (case rename_state tid shape records seq tv of
        (tv1, state) \<Rightarrow>
          (let spare = (if st_spares state = [] then None else Some (last (st_spares state)));
               left = butlast (st_spares state)
           in (spare,
               tv1\<lparr>tv_textures := (tv_textures tv1)(tid \<mapsto> state\<lparr>st_last_rename_seq := seq, st_spares := left\<rparr>),
                   tv_parked_bytes := (if spare \<noteq> None then tv_parked_bytes tv1 - st_bytes state else tv_parked_bytes tv1),
                   tv_with_spares := (if left = [] then tv_with_spares tv1 - {tid} else tv_with_spares tv1)\<rparr>)))"

definition preserve_plan ::
  "'v texture_versions \<Rightarrow> u64 \<Rightarrow> version_shape \<Rightarrow> u64 option \<Rightarrow> upload_footprint \<Rightarrow> preserve_copy list"
where
  "preserve_plan tv tid shape held_writes upload =
     history_plan (case tv_textures tv tid of None \<Rightarrow> None | Some state \<Rightarrow> st_history state) shape held_writes upload"

definition retire :: "u64 \<Rightarrow> 'v \<Rightarrow> u64 \<Rightarrow> 'v texture_versions \<Rightarrow> 'v texture_versions" where
  "retire tid views seq tv =
     (case tv_textures tv tid of
        None \<Rightarrow>
          tv\<lparr>tv_retiring := tv_retiring tv
               @ [\<lparr>rt_id = tid, rt_views = views, rt_seq = seq, rt_epoch = 0, rt_birth_seq = 0, rt_held_writes = 0, rt_bytes = 0\<rparr>]\<rparr>
      | Some state \<Rightarrow>
          tv\<lparr>tv_textures := (tv_textures tv)(tid \<mapsto> state\<lparr>st_live_birth_seq := seq\<rparr>),
             tv_retiring := tv_retiring tv
               @ [\<lparr>rt_id = tid, rt_views = views, rt_seq = seq, rt_epoch = st_epoch state,
                   rt_birth_seq = st_live_birth_seq state,
                   rt_held_writes = (case st_history state of None \<Rightarrow> 0 | Some h \<Rightarrow> wh_writes h),
                   rt_bytes = st_bytes state\<rparr>]\<rparr>)"

definition map_history ::
  "(write_history option \<Rightarrow> write_history option) \<Rightarrow> u64 \<Rightarrow> 'v texture_versions \<Rightarrow> 'v texture_versions"
where
  "map_history f tid tv =
     (case tv_textures tv tid of
        None \<Rightarrow> tv
      | Some state \<Rightarrow> tv\<lparr>tv_textures := (tv_textures tv)(tid \<mapsto> state\<lparr>st_history := f (st_history state)\<rparr>)\<rparr>)"

definition note_write :: "u64 \<Rightarrow> u32 \<Rightarrow> u32 \<Rightarrow> texel_rect \<Rightarrow> 'v texture_versions \<Rightarrow> 'v texture_versions" where
  "note_write tid face level rect tv = map_history (history_write face level rect) tid tv"

definition note_mip_regeneration :: "u64 \<Rightarrow> 'v texture_versions \<Rightarrow> 'v texture_versions" where
  "note_mip_regeneration tid tv = map_history history_mips tid tv"

definition pop_retired :: "u64 \<Rightarrow> 'v texture_versions \<Rightarrow> ('v retiring \<times> 'v texture_versions) option" where
  "pop_retired settled tv =
     (case tv_retiring tv of
        [] \<Rightarrow> None
      | entry # rest \<Rightarrow> if settled < rt_seq entry then None else Some (entry, tv\<lparr>tv_retiring := rest\<rparr>))"

definition park :: "'v retiring \<Rightarrow> u64 \<Rightarrow> u64 \<Rightarrow> 'v texture_versions \<Rightarrow> 'v texture_versions" where
  "park entry failed now tv =
     (case tv_textures tv (rt_id entry) of
        None \<Rightarrow> doom (rt_views entry) (rt_bytes entry) tv
      | Some state \<Rightarrow>
          if st_epoch state \<noteq> rt_epoch entry then doom (rt_views entry) (rt_bytes entry) tv
          else if tv_pressed tv then doom (rt_views entry) (st_bytes state) tv
          else if vb_spare_cap (tv_budget tv) < tv_parked_bytes tv + st_bytes state
          then doom (rt_views entry) (st_bytes state) tv
          else let aborted = (failed \<noteq> 0 \<and> rt_birth_seq entry \<le> failed);
                   spare = \<lparr>sp_views = rt_views entry,
                            sp_held_writes = (if aborted then None else Some (rt_held_writes entry)),
                            sp_parked_seq = now\<rparr>
               in tv\<lparr>tv_parked_bytes := tv_parked_bytes tv + st_bytes state,
                     tv_with_spares := (if st_spares state = [] then insert (rt_id entry) (tv_with_spares tv)
                                        else tv_with_spares tv),
                     tv_textures := (tv_textures tv)(rt_id entry \<mapsto> state\<lparr>st_spares := st_spares state @ [spare]\<rparr>)\<rparr>)"

subsection \<open>Memory pressure\<close>

text \<open>
  The spares in the order they are given back: by the submission they were parked in, then by
  texture. Entries of one texture and submission are equal, so any sorting gives this list,
  whatever the order \<open>order\<close> the set of textures is visited in.
\<close>

definition spares_by_age :: "u64 list \<Rightarrow> 'v texture_versions \<Rightarrow> (u64 \<times> u64 \<times> u64) list" where
  "spares_by_age order tv =
     sort_key (\<lambda>(seq, tid, _). (seq, tid))
       (concat (map (\<lambda>tid. case tv_textures tv tid of
                              None \<Rightarrow> []
                            | Some state \<Rightarrow> map (\<lambda>spare. (sp_parked_seq spare, tid, st_bytes state)) (st_spares state))
                 order))"

fun give_back :: "u64 \<Rightarrow> u64 \<Rightarrow> (u64 \<times> u64 \<times> u64) list \<Rightarrow> u64 list" where
  "give_back excess freed [] = []"
| "give_back excess freed ((_, tid, n) # oldest) =
     (if excess \<le> freed then [] else tid # give_back excess (freed + n) oldest)"

definition doom_oldest :: "u64 \<Rightarrow> nat \<Rightarrow> 'v texture_versions \<Rightarrow> 'v texture_versions" where
  "doom_oldest tid n tv =
     (case tv_textures tv tid of
        None \<Rightarrow> tv
      | Some state \<Rightarrow>
          (let left = drop n (st_spares state)
           in (queue_spares state (take n (st_spares state)) tv)
                \<lparr>tv_textures := (tv_textures tv)(tid \<mapsto> state\<lparr>st_spares := left\<rparr>),
                 tv_with_spares := (if left = [] then tv_with_spares tv - {tid} else tv_with_spares tv)\<rparr>))"

text \<open>
  \<open>order\<close> is the order the set of textures is visited in, \<open>counted\<close> that of the table of counts, whose
  keys are the textures that give a spare back.
\<close>

definition note_allocated :: "u64 list \<Rightarrow> u64 list \<Rightarrow> u64 \<Rightarrow> 'v texture_versions \<Rightarrow> 'v texture_versions" where
  "note_allocated order counted allocated tv =
     (let excess = sat_sub allocated (vb_pressure_above (tv_budget tv));
          tv1 = tv\<lparr>tv_relieve_bytes := excess,
                   tv_pressed := (if tv_pressed tv then resume_below (tv_budget tv) \<le> allocated
                                  else vb_pressure_above (tv_budget tv) < allocated)\<rparr>
      in if excess = 0 \<or> excess \<le> tv_doomed_bytes tv1 then tv1
         else let given = give_back excess (tv_doomed_bytes tv1) (spares_by_age order tv1)
              in foldl (\<lambda>tv tid. doom_oldest tid (count_list given tid) tv) tv1 counted)"

subsection \<open>The destroy queue\<close>

definition nat_div_ceil :: "nat \<Rightarrow> nat \<Rightarrow> nat" where
  "nat_div_ceil a b = (if a mod b = 0 then a div b else a div b + 1)"

text \<open>How many further entries of the queue it takes to cover \<open>relieve\<close> bytes.\<close>

fun cover_more :: "u64 \<Rightarrow> u64 \<Rightarrow> ('v \<times> u64) list \<Rightarrow> nat" where
  "cover_more covered relieve [] = 0"
| "cover_more covered relieve ((_, n) # queue) =
     (if covered < relieve then Suc (cover_more (covered + n) relieve queue) else 0)"

definition take_doomed :: "'v texture_versions \<Rightarrow> 'v list \<times> 'v texture_versions" where
  "take_doomed tv =
     (let arrivals = (tv_doomed_arrivals tv)[tv_arrival_slot tv := tv_doomed_since_take tv];
          rate = nat_div_ceil (sum_list arrivals) DESTROY_SPREAD_DRAINS;
          queue = tv_doomed tv;
          batch = min (max MIN_DESTROYS_PER_DRAIN (rate + nat_div_ceil (length queue) DESTROY_SPREAD_DRAINS)) (length queue);
          covered = sum_list (map snd (take batch queue));
          batch = batch + cover_more covered (tv_relieve_bytes tv) (drop batch queue)
      in (map fst (take batch queue),
          tv\<lparr>tv_doomed_arrivals := arrivals, tv_arrival_slot := (tv_arrival_slot tv + 1) mod DESTROY_SPREAD_DRAINS,
             tv_doomed_since_take := 0, tv_relieve_bytes := 0, tv_doomed := drop batch queue,
             tv_doomed_bytes := foldl (\<lambda>total (_, n). total - n) (tv_doomed_bytes tv) (take batch queue)\<rparr>))"

subsection \<open>Trimming\<close>

definition spare_aged :: "u64 \<Rightarrow> u64 \<Rightarrow> bool" where
  "spare_aged now seq \<longleftrightarrow> seq + SPARE_MAX_IDLE_SUBMITS < now"

definition state_aged :: "u64 \<Rightarrow> u64 \<Rightarrow> bool" where
  "state_aged now seq \<longleftrightarrow> seq + STATE_MAX_IDLE_SUBMITS < now"

definition trim_texture :: "u64 \<Rightarrow> 'v texture_versions \<Rightarrow> u64 \<Rightarrow> 'v texture_versions" where
  "trim_texture now tv tid =
     (case tv_textures tv tid of
        None \<Rightarrow> tv\<lparr>tv_with_spares := tv_with_spares tv - {tid}\<rparr>
      | Some state \<Rightarrow> doom_oldest tid (length (takeWhile (\<lambda>spare. spare_aged now (sp_parked_seq spare)) (st_spares state))) tv)"

definition trim_entry :: "u64 \<Rightarrow> u64 \<times> u64 \<times> u64 \<Rightarrow> 'v texture_versions \<Rightarrow> 'v texture_versions" where
  "trim_entry now entry tv =
     (case entry of
        (seq, raw, epoch) \<Rightarrow>
          (case tv_textures tv raw of
             None \<Rightarrow> tv
           | Some state \<Rightarrow>
               if st_epoch state \<noteq> epoch then tv
               else if state_aged now (st_last_rename_seq state) \<and> st_spares state = []
               then tv\<lparr>tv_textures := (tv_textures tv)(raw := None)\<rparr>
               else tv\<lparr>tv_idle := bs_insert
                          (if state_aged now (st_last_rename_seq state) then now else st_last_rename_seq state, raw, epoch)
                          (tv_idle tv)\<rparr>))"

partial_function (option) trim_idle :: "u64 \<Rightarrow> 'v texture_versions \<Rightarrow> 'v texture_versions option" where
  "trim_idle now tv =
     (case tv_idle tv of
        [] \<Rightarrow> Some tv
      | entry # rest \<Rightarrow>
          if \<not> state_aged now (fst entry) then Some tv
          else trim_idle now (trim_entry now entry (tv\<lparr>tv_idle := rest\<rparr>)))"

definition trim :: "u64 list \<Rightarrow> u64 \<Rightarrow> 'v texture_versions \<Rightarrow> 'v texture_versions option" where
  "trim order now tv = trim_idle now (foldl (trim_texture now) tv order)"

definition forget_texture :: "u64 \<Rightarrow> 'v texture_versions \<Rightarrow> 'v texture_versions" where
  "forget_texture tid tv =
     (case tv_textures tv tid of
        None \<Rightarrow> tv
      | Some state \<Rightarrow>
          foldl (\<lambda>tv spare. doom (sp_views spare) (st_bytes state) tv)
            (tv\<lparr>tv_textures := (tv_textures tv)(tid := None), tv_with_spares := tv_with_spares tv - {tid},
                tv_parked_bytes := tv_parked_bytes tv - st_bytes state * of_nat (length (st_spares state))\<rparr>)
            (st_spares state))"

definition drain_texture :: "'v list \<times> 'v texture_versions \<Rightarrow> u64 \<Rightarrow> 'v list \<times> 'v texture_versions" where
  "drain_texture acc tid =
     (case acc of
        (out, tv) \<Rightarrow>
          (case tv_textures tv tid of
             None \<Rightarrow> (out, tv)
           | Some state \<Rightarrow> (out @ map sp_views (st_spares state),
                            tv\<lparr>tv_textures := (tv_textures tv)(tid \<mapsto> state\<lparr>st_spares := []\<rparr>)\<rparr>)))"

definition drain_versions :: "u64 list \<Rightarrow> 'v texture_versions \<Rightarrow> 'v list \<times> 'v texture_versions" where
  "drain_versions order tv =
     (case foldl drain_texture
             (map rt_views (tv_retiring tv) @ map fst (tv_doomed tv),
              tv\<lparr>tv_retiring := [], tv_doomed := [], tv_doomed_bytes := 0, tv_doomed_since_take := 0,
                 tv_doomed_arrivals := replicate DESTROY_SPREAD_DRAINS 0, tv_with_spares := {}\<rparr>) order of
        (out, tv') \<Rightarrow> (out, tv'\<lparr>tv_parked_bytes := 0\<rparr>))"

subsection \<open>The drain\<close>

lemma park_retiring [simp]: "tv_retiring (park entry failed now tv) = tv_retiring tv"
  by (simp add: park_def doom_def Let_def split: option.split)

text \<open>The loop of \<^verbatim>\<open>reclaim_texture_versions\<close>: every settled version is popped and parked.\<close>

function park_retired :: "u64 \<Rightarrow> u64 \<Rightarrow> u64 \<Rightarrow> 'v texture_versions \<Rightarrow> 'v texture_versions" where
  "park_retired settled failed now tv =
     (case pop_retired settled tv of
        None \<Rightarrow> tv
      | Some (entry, tv1) \<Rightarrow> park_retired settled failed now (park entry failed now tv1))"
  by pat_completeness auto
termination
  by (relation "measure (\<lambda>(_, _, _, tv). length (tv_retiring tv))")
    (auto simp: pop_retired_def split: list.splits if_splits)

declare park_retired.simps [simp del]

text \<open>
  The whole drain step: \<open>allocated\<close> is what the device reports, the lists are the orders in which the
  hash tables are visited. The second result is what the caller destroys.
\<close>

definition reclaim_texture_versions ::
  "u64 list \<Rightarrow> u64 list \<Rightarrow> u64 list \<Rightarrow> u64 \<Rightarrow> u64 \<Rightarrow> u64 \<Rightarrow> u64 \<Rightarrow> 'v texture_versions \<Rightarrow> ('v list \<times> 'v texture_versions) option"
where
  "reclaim_texture_versions order counted order' allocated settled failed now tv =
     map_option take_doomed
       (trim order' now (park_retired settled failed now (note_allocated order counted allocated tv)))"

section \<open>Totals over the tracked textures\<close>

definition sum_map :: "('s \<Rightarrow> 'm::comm_monoid_add) \<Rightarrow> ('k \<rightharpoonup> 's) \<Rightarrow> 'm" where
  "sum_map f m = (\<Sum>k\<in>dom m. f (the (m k)))"

lemma sum_map_empty [simp]: "sum_map f Map.empty = 0"
  by (simp add: sum_map_def)

lemma sum_map_without: "finite (dom m) \<Longrightarrow> sum_map f m = sum_map f (m(k := None)) + (case m k of None \<Rightarrow> 0 | Some s \<Rightarrow> f s)"
proof (cases "m k")
  case None
  then have "m(k := None) = m" by auto
  with None show ?thesis by simp
next
  case (Some s)
  assume fin: "finite (dom m)"
  have "sum_map f m = f (the (m k)) + (\<Sum>k'\<in>dom (m(k := None)). f (the (m k')))"
    using sum.remove [OF fin, of k "\<lambda>k. f (the (m k))"] Some by (simp add: sum_map_def domI)
  also have "(\<Sum>k'\<in>dom (m(k := None)). f (the (m k'))) = sum_map f (m(k := None))"
    unfolding sum_map_def by (intro sum.cong) auto
  finally show ?thesis using Some by (simp add: add.commute)
qed

lemma sum_map_with: "finite (dom m) \<Longrightarrow> sum_map f (m(k \<mapsto> s)) = sum_map f (m(k := None)) + f s"
  using sum_map_without [of "m(k \<mapsto> s)" f k] by simp

lemma sum_map_zero: "(\<And>k s. m k = Some s \<Longrightarrow> f s = 0) \<Longrightarrow> sum_map f m = 0"
  unfolding sum_map_def by (rule sum.neutral) auto

lemma sum_map_member: "finite (dom m) \<Longrightarrow> m k = Some s \<Longrightarrow> f s \<le> sum_map f m" for f :: "'s \<Rightarrow> nat"
  using sum_map_without [of m f k] by simp

lemma sum_map_same: "(\<And>s. m k = Some s \<Longrightarrow> f s' = f s) \<Longrightarrow> m k \<noteq> None \<Longrightarrow> finite (dom m) \<Longrightarrow> sum_map f (m(k \<mapsto> s')) = sum_map f m"
  using sum_map_without [of m f k] by (auto simp: sum_map_with)

section \<open>The pool's accounts\<close>

text \<open>
  What the pool holds: the retiring versions, the destroy queue and the spares. And the
  accounts: the byte totals are those of the spares and of the queue, the spares stay within the
  budget, and \<^verbatim>\<open>with_spares\<close> names the textures that have one.
\<close>

abbreviation spare_views :: "'v version_state \<Rightarrow> 'v multiset" where
  "spare_views state \<equiv> mset (map sp_views (st_spares state))"

abbreviation spare_bytes :: "'v version_state \<Rightarrow> nat" where
  "spare_bytes state \<equiv> unat (st_bytes state) * length (st_spares state)"

definition pool_views :: "'v texture_versions \<Rightarrow> 'v multiset" where
  "pool_views tv = mset (map rt_views (tv_retiring tv)) + mset (map fst (tv_doomed tv))
     + sum_map spare_views (tv_textures tv)"

definition pool_ok :: "'v texture_versions \<Rightarrow> bool" where
  "pool_ok tv \<longleftrightarrow>
     finite (dom (tv_textures tv))
     \<and> unat (tv_parked_bytes tv) = sum_map spare_bytes (tv_textures tv)
     \<and> tv_parked_bytes tv \<le> vb_spare_cap (tv_budget tv) \<and> unat (vb_spare_cap (tv_budget tv)) \<le> 2 ^ 30
     \<and> tv_doomed_bytes tv = sum_list (map snd (tv_doomed tv))
     \<and> tv_with_spares tv = {tid. \<exists>state. tv_textures tv tid = Some state \<and> st_spares state \<noteq> []}
     \<and> (\<forall>tid state. tv_textures tv tid = Some state \<longrightarrow> unat (st_bytes state) < 2 ^ 63)"

lemma cap_bound: "unat (vb_spare_cap (from_working_set ws)) \<le> 2 ^ 30"
  by (auto simp: from_working_set_def VERSION_POOL_CEILING_BYTES_def Let_def word_less_nat_alt not_less)

lemma versions_new_ok: "pool_ok (versions_new (from_working_set ws))" "pool_views (versions_new b) = {#}"
  using cap_bound [of ws] by (auto simp: pool_ok_def versions_new_def pool_views_def)

lemma parked_sub:
  assumes "unat (p::u64) = t + unat b * n" "unat b * n < 2 ^ 64"
  shows "unat (p - b * of_nat n) = t"
proof -
  have "n = 0 \<or> unat b = 0 \<or> n < 2 ^ 64"
    using assms(2) by (cases "unat b") auto
  then have "unat (b * of_nat n) = unat b * n"
  proof (elim disjE)
    assume "n < 2 ^ 64"
    then have "unat (of_nat n :: u64) = n" by (simp add: unat_of_nat)
    with assms(2) show ?thesis by (simp add: unat_mul_no_overflow)
  qed (auto simp: unat_eq_0)
  then show ?thesis using assms(1) by (subst unat_sub_le) (auto simp: word_le_nat_alt)
qed

lemma doomed_queue [simp]:
  "sum_list (map snd (map (\<lambda>spare. (sp_views spare, n :: u64)) ss)) = n * of_nat (length ss)"
  "map fst (map (\<lambda>spare. (sp_views spare, n)) ss) = map sp_views ss"
  by (induction ss) (auto simp: algebra_simps)

lemma queue_spares_simps [simp]:
  "tv_textures (queue_spares state gone tv) = tv_textures tv" "tv_retiring (queue_spares state gone tv) = tv_retiring tv"
  "tv_with_spares (queue_spares state gone tv) = tv_with_spares tv" "tv_budget (queue_spares state gone tv) = tv_budget tv"
  "tv_next_epoch (queue_spares state gone tv) = tv_next_epoch tv" "tv_idle (queue_spares state gone tv) = tv_idle tv"
  by (simp_all add: queue_spares_def)

text \<open>
  Replacing one state's spares by others while the rest of the pool is accounted for: the lemma the
  operations share.
\<close>

lemma pool_update:
  assumes ok: "pool_ok tv" and st: "tv_textures tv tid = Some state"
    and same: "tv_textures tv' = (tv_textures tv)(tid \<mapsto> state')" "tv_budget tv' = tv_budget tv"
    and state': "unat (st_bytes state') < 2 ^ 63"
    and p: "unat (tv_parked_bytes tv') + spare_bytes state = unat (tv_parked_bytes tv) + spare_bytes state'"
    and cap: "tv_parked_bytes tv' \<le> vb_spare_cap (tv_budget tv)"
    and d: "tv_doomed_bytes tv' = sum_list (map snd (tv_doomed tv'))"
    and w: "tv_with_spares tv' = (if st_spares state' = [] then tv_with_spares tv - {tid} else insert tid (tv_with_spares tv))"
  shows "pool_ok tv'"
proof -
  have fin: "finite (dom (tv_textures tv))" using ok by (simp add: pool_ok_def)
  have "unat (tv_parked_bytes tv) = sum_map spare_bytes (tv_textures tv)" using ok by (simp add: pool_ok_def)
  then have "unat (tv_parked_bytes tv') = sum_map spare_bytes (tv_textures tv')"
    using p sum_map_without [OF fin, of spare_bytes tid] st by (simp add: same sum_map_with [OF fin])
  with ok state' cap d show ?thesis
    by (auto simp: pool_ok_def same w split: if_splits)
qed

lemma pool_drop:
  assumes ok: "pool_ok tv" and st: "tv_textures tv tid = Some state"
    and same: "tv_textures tv' = (tv_textures tv)(tid := None)" "tv_budget tv' = tv_budget tv"
    and p: "unat (tv_parked_bytes tv') + spare_bytes state = unat (tv_parked_bytes tv)"
    and d: "tv_doomed_bytes tv' = sum_list (map snd (tv_doomed tv'))"
    and w: "tv_with_spares tv' = tv_with_spares tv - {tid}"
  shows "pool_ok tv'"
proof -
  have fin: "finite (dom (tv_textures tv))" using ok by (simp add: pool_ok_def)
  have "unat (tv_parked_bytes tv) = sum_map spare_bytes (tv_textures tv)" using ok by (simp add: pool_ok_def)
  then have "unat (tv_parked_bytes tv') = sum_map spare_bytes (tv_textures tv')"
    using p sum_map_without [OF fin, of spare_bytes tid] st by (simp add: same)
  moreover have "tv_parked_bytes tv' \<le> tv_parked_bytes tv" using p by (simp add: word_le_nat_alt)
  ultimately show ?thesis using ok d by (auto simp: pool_ok_def same w)
qed

lemma views_update:
  assumes "finite (dom (tv_textures tv))" "tv_textures tv tid = Some state"
    and "tv_textures tv' = (tv_textures tv)(tid \<mapsto> state')"
  shows "pool_views tv' + spare_views state + mset (map rt_views (tv_retiring tv)) + mset (map fst (tv_doomed tv))
    = pool_views tv + spare_views state' + mset (map rt_views (tv_retiring tv')) + mset (map fst (tv_doomed tv'))"
  using sum_map_without [OF assms(1), of spare_views tid] assms
  by (simp add: pool_views_def sum_map_with)

lemma parked_less:
  assumes ok: "pool_ok tv" and st: "tv_textures tv tid = Some state" and n: "n \<le> length (st_spares state)"
  shows "unat (tv_parked_bytes tv - st_bytes state * of_nat n) = unat (tv_parked_bytes tv) - unat (st_bytes state) * n"
    "unat (st_bytes state) * n \<le> unat (tv_parked_bytes tv)"
proof -
  have "spare_bytes state \<le> unat (tv_parked_bytes tv)"
    using ok st sum_map_member [of "tv_textures tv" tid state spare_bytes] by (simp add: pool_ok_def)
  moreover have "unat (st_bytes state) * n \<le> spare_bytes state" using n by simp
  ultimately show le: "unat (st_bytes state) * n \<le> unat (tv_parked_bytes tv)" by linarith
  then have "unat (st_bytes state) * n < 2 ^ 64" using unat_lt_len [of "tv_parked_bytes tv"] by simp
  from parked_sub [OF _ this] le
  show "unat (tv_parked_bytes tv - st_bytes state * of_nat n) = unat (tv_parked_bytes tv) - unat (st_bytes state) * n"
    by simp
qed

lemma parked_le_cap: "pool_ok tv \<Longrightarrow> unat p \<le> unat (tv_parked_bytes tv) \<Longrightarrow> p \<le> vb_spare_cap (tv_budget tv)"
  unfolding pool_ok_def word_le_nat_alt by linarith

lemma doom_oldest_ok:
  assumes ok: "pool_ok tv"
  shows "pool_ok (doom_oldest tid n tv) \<and> pool_views (doom_oldest tid n tv) = pool_views tv"
proof (cases "tv_textures tv tid")
  case None
  with ok show ?thesis by (simp add: doom_oldest_def)
next
  case (Some state)
  let ?s = "st_spares state" and ?tv = "doom_oldest tid n tv"
  have fin: "finite (dom (tv_textures tv))" and b: "unat (st_bytes state) < 2 ^ 63"
    and w: "tid \<in> tv_with_spares tv \<longleftrightarrow> ?s \<noteq> []" and d: "tv_doomed_bytes tv = sum_list (map snd (tv_doomed tv))"
    using ok Some by (auto simp: pool_ok_def)
  note less = parked_less [OF ok Some, of "length (take n ?s)"]
  have tv': "tv_textures ?tv = (tv_textures tv)(tid \<mapsto> state\<lparr>st_spares := drop n ?s\<rparr>)" "tv_budget ?tv = tv_budget tv"
    "tv_parked_bytes ?tv = tv_parked_bytes tv - st_bytes state * of_nat (length (take n ?s))"
    "tv_doomed ?tv = tv_doomed tv @ map (\<lambda>spare. (sp_views spare, st_bytes state)) (take n ?s)"
    "tv_doomed_bytes ?tv = tv_doomed_bytes tv + st_bytes state * of_nat (length (take n ?s))"
    "tv_retiring ?tv = tv_retiring tv"
    "tv_with_spares ?tv = (if drop n ?s = [] then tv_with_spares tv - {tid} else tv_with_spares tv)"
    by (simp_all add: doom_oldest_def Some queue_spares_def Let_def)
  have split: "unat (st_bytes state) * length (take n ?s) + unat (st_bytes state) * length (drop n ?s) = spare_bytes state"
    unfolding distrib_left [symmetric] by (metis append_take_drop_id length_append)
  have "pool_ok ?tv"
  proof (rule pool_update [OF ok Some tv'(1,2)])
    show "unat (tv_parked_bytes ?tv) + spare_bytes state
      = unat (tv_parked_bytes tv) + spare_bytes (state\<lparr>st_spares := drop n ?s\<rparr>)"
      using less split unfolding tv' by simp
    show "tv_parked_bytes ?tv \<le> vb_spare_cap (tv_budget tv)"
      by (rule parked_le_cap [OF ok]) (use less in \<open>simp add: tv'\<close>)
    show "tv_doomed_bytes ?tv = sum_list (map snd (tv_doomed ?tv))"
      unfolding tv' map_append sum_list_append doomed_queue by (simp add: d)
  qed (use b w in \<open>auto simp: tv'\<close>)
  moreover have parts: "spare_views state = mset (map sp_views (take n ?s)) + mset (map sp_views (drop n ?s))"
    by (metis append_take_drop_id map_append mset_append)
  moreover have "pool_views ?tv = pool_views tv"
    using views_update [OF fin Some tv'(1)] unfolding parts by (simp add: tv' comp_def del: mset_map)
  ultimately show ?thesis by simp
qed

lemma doom_ok:
  "pool_ok tv \<Longrightarrow> pool_ok (doom v n tv)" "pool_views (doom v n tv) = add_mset v (pool_views tv)"
  by (auto simp: pool_ok_def pool_views_def doom_def)

lemma pool_fold_ok:
  assumes "pool_ok tv" and "\<And>tv x. pool_ok tv \<Longrightarrow> pool_ok (f tv x) \<and> pool_views (f tv x) = pool_views tv"
  shows "pool_ok (foldl f tv xs) \<and> pool_views (foldl f tv xs) = pool_views tv"
  using assms(1) by (induction xs arbitrary: tv) (auto simp: assms(2))

lemma fold_doom_oldest_ok: "pool_ok tv \<Longrightarrow> pool_ok (foldl (\<lambda>tv tid. doom_oldest tid (c tid) tv) tv tids)
    \<and> pool_views (foldl (\<lambda>tv tid. doom_oldest tid (c tid) tv) tv tids) = pool_views tv"
  by (rule pool_fold_ok) (auto simp: doom_oldest_ok)

lemma note_allocated_ok:
  assumes "pool_ok tv"
  shows "pool_ok (note_allocated order counted allocated tv) \<and> pool_views (note_allocated order counted allocated tv) = pool_views tv"
proof -
  have "pool_ok (tv\<lparr>tv_relieve_bytes := r, tv_pressed := p\<rparr>) \<and> pool_views (tv\<lparr>tv_relieve_bytes := r, tv_pressed := p\<rparr>) = pool_views tv" for r p
    using assms by (simp add: pool_ok_def pool_views_def)
  then show ?thesis
    unfolding note_allocated_def Let_def by (auto simp: fold_doom_oldest_ok)
qed

lemma trim_texture_ok: "pool_ok tv \<Longrightarrow> pool_ok (trim_texture now tv tid) \<and> pool_views (trim_texture now tv tid) = pool_views tv"
  by (auto simp: trim_texture_def doom_oldest_ok split: option.split) (auto simp: pool_ok_def pool_views_def)

lemma trim_entry_ok:
  assumes ok: "pool_ok tv"
  shows "pool_ok (trim_entry now entry tv) \<and> pool_views (trim_entry now entry tv) = pool_views tv"
proof -
  obtain seq raw epoch where e: "entry = (seq, raw, epoch)" by (cases entry)
  have drop: "pool_ok (tv\<lparr>tv_textures := (tv_textures tv)(raw := None)\<rparr>)
      \<and> pool_views (tv\<lparr>tv_textures := (tv_textures tv)(raw := None)\<rparr>) = pool_views tv"
    if st: "tv_textures tv raw = Some state" "st_spares state = []" for state
  proof -
    have "finite (dom (tv_textures tv))" using ok by (simp add: pool_ok_def)
    then have "sum_map spare_views (tv_textures tv) = sum_map spare_views ((tv_textures tv)(raw := None))"
      using sum_map_without [of "tv_textures tv" spare_views raw] st by simp
    moreover have "raw \<notin> tv_with_spares tv" using ok st by (simp add: pool_ok_def)
    moreover have "tv_doomed_bytes tv = sum_list (map snd (tv_doomed tv))" using ok by (simp add: pool_ok_def)
    ultimately show ?thesis
      using pool_drop [OF ok st(1), of "tv\<lparr>tv_textures := (tv_textures tv)(raw := None)\<rparr>"] st(2)
      by (simp add: pool_views_def)
  qed
  have idle: "pool_ok (tv\<lparr>tv_idle := i\<rparr>) \<and> pool_views (tv\<lparr>tv_idle := i\<rparr>) = pool_views tv" for i
    using ok by (simp add: pool_ok_def pool_views_def)
  show ?thesis using ok drop idle by (auto simp: trim_entry_def e split: option.split)
qed

lemma trim_idle_ok:
  assumes "trim_idle now tv = Some tv'"
  shows "pool_ok tv \<longrightarrow> pool_ok tv' \<and> pool_views tv' = pool_views tv"
proof (rule trim_idle.raw_induct [OF _ assms])
  fix f now' and tv1 tv2 :: "'a texture_versions"
  assume IH: "\<And>now tv tv'. f now tv = Some tv' \<Longrightarrow> pool_ok tv \<longrightarrow> pool_ok tv' \<and> pool_views tv' = pool_views tv"
    and body: "(case tv_idle tv1 of [] \<Rightarrow> Some tv1 | entry # rest \<Rightarrow> if \<not> state_aged now' (fst entry) then Some tv1
      else f now' (trim_entry now' entry (tv1\<lparr>tv_idle := rest\<rparr>))) = Some tv2"
  have rest: "pool_ok (tv1\<lparr>tv_idle := r\<rparr>) = pool_ok tv1" "pool_views (tv1\<lparr>tv_idle := r\<rparr>) = pool_views tv1" for r
    by (simp_all add: pool_ok_def pool_views_def)
  show "pool_ok tv1 \<longrightarrow> pool_ok tv2 \<and> pool_views tv2 = pool_views tv1"
  proof (cases "tv_idle tv1")
    case (Cons entry r)
    have "pool_ok (trim_entry now' entry (tv1\<lparr>tv_idle := r\<rparr>))
      \<and> pool_views (trim_entry now' entry (tv1\<lparr>tv_idle := r\<rparr>)) = pool_views tv1" if "pool_ok tv1"
      using trim_entry_ok [of "tv1\<lparr>tv_idle := r\<rparr>"] that rest by simp
    then show ?thesis using body IH by (auto simp: Cons split: if_splits)
  qed (use body in simp)
qed

lemma trim_ok: "trim order now tv = Some tv' \<Longrightarrow> pool_ok tv \<Longrightarrow> pool_ok tv' \<and> pool_views tv' = pool_views tv"
  using pool_fold_ok [of tv "trim_texture now" order] trim_texture_ok trim_idle_ok [of now _ tv'] by (auto simp: trim_def)

lemma park_ok:
  assumes ok: "pool_ok tv"
  shows "pool_ok (park entry failed now tv) \<and> pool_views (park entry failed now tv) = add_mset (rt_views entry) (pool_views tv)"
proof (cases "\<exists>state. tv_textures tv (rt_id entry) = Some state \<and> st_epoch state = rt_epoch entry \<and> \<not> tv_pressed tv
    \<and> tv_parked_bytes tv + st_bytes state \<le> vb_spare_cap (tv_budget tv)")
  case False
  then show ?thesis using doom_ok ok by (auto simp: park_def not_le split: option.split)
next
  case True
  then obtain state where st: "tv_textures tv (rt_id entry) = Some state" "st_epoch state = rt_epoch entry" "\<not> tv_pressed tv"
    "tv_parked_bytes tv + st_bytes state \<le> vb_spare_cap (tv_budget tv)" by blast
  define spare where "spare = \<lparr>sp_views = rt_views entry,
    sp_held_writes = (if failed \<noteq> 0 \<and> rt_birth_seq entry \<le> failed then None else Some (rt_held_writes entry)), sp_parked_seq = now\<rparr>"
  let ?tv = "park entry failed now tv"
  have fin: "finite (dom (tv_textures tv))" and b: "unat (st_bytes state) < 2 ^ 63"
    and cap: "unat (tv_parked_bytes tv) \<le> 2 ^ 30" and w: "rt_id entry \<in> tv_with_spares tv \<longleftrightarrow> st_spares state \<noteq> []"
    and d: "tv_doomed_bytes tv = sum_list (map snd (tv_doomed tv))"
    using ok st(1) by (auto simp: pool_ok_def word_le_nat_alt)
  have tv': "tv_textures ?tv = (tv_textures tv)(rt_id entry \<mapsto> state\<lparr>st_spares := st_spares state @ [spare]\<rparr>)"
    "tv_budget ?tv = tv_budget tv" "tv_parked_bytes ?tv = tv_parked_bytes tv + st_bytes state"
    "tv_doomed ?tv = tv_doomed tv" "tv_doomed_bytes ?tv = tv_doomed_bytes tv" "tv_retiring ?tv = tv_retiring tv"
    "tv_with_spares ?tv = (if st_spares state = [] then insert (rt_id entry) (tv_with_spares tv) else tv_with_spares tv)"
    using st by (auto simp: park_def Let_def spare_def)
  have "pool_ok ?tv"
  proof (rule pool_update [OF ok st(1) tv'(1,2)])
    show "unat (tv_parked_bytes ?tv) + spare_bytes state
      = unat (tv_parked_bytes tv) + spare_bytes (state\<lparr>st_spares := st_spares state @ [spare]\<rparr>)"
      using b cap by (simp add: tv' unat_add_no_overflow)
  qed (use b d w st(4) in \<open>auto simp: tv'\<close>)
  moreover have "pool_views ?tv = add_mset (rt_views entry) (pool_views tv)"
    using views_update [OF fin st(1) tv'(1)] by (simp add: tv' spare_def)
  ultimately show ?thesis ..
qed

lemma park_retired_ok: "pool_ok tv \<Longrightarrow> pool_ok (park_retired settled failed now tv)
    \<and> pool_views (park_retired settled failed now tv) = pool_views tv"
proof (induction settled failed now tv rule: park_retired.induct)
  case (1 settled failed now tv)
  show ?case
  proof (cases "pop_retired settled tv")
    case None
    with 1(2) show ?thesis by (simp add: park_retired.simps [of settled])
  next
    case (Some p)
    then obtain entry r where r: "tv_retiring tv = entry # r" and p: "pop_retired settled tv = Some (entry, tv\<lparr>tv_retiring := r\<rparr>)"
      by (auto simp: pop_retired_def split: list.splits if_splits)
    then have "pool_ok (tv\<lparr>tv_retiring := r\<rparr>)" "add_mset (rt_views entry) (pool_views (tv\<lparr>tv_retiring := r\<rparr>)) = pool_views tv"
      using 1(2) by (simp_all add: pool_ok_def pool_views_def)
    then show ?thesis
      using 1(1) [OF p refl] park_ok [of _ entry failed now] p by (simp add: park_retired.simps [of settled])
  qed
qed

lemma pool_frame:
  assumes "pool_ok tv" "tv_textures tv' = tv_textures tv" "tv_parked_bytes tv' = tv_parked_bytes tv" "tv_budget tv' = tv_budget tv"
    "tv_with_spares tv' = tv_with_spares tv" "tv_doomed_bytes tv' = sum_list (map snd (tv_doomed tv'))"
  shows "pool_ok tv'"
  using assms by (simp add: pool_ok_def)

text \<open>An update of a state that leaves its spares and its bytes alone.\<close>

lemma keep_spares_ok:
  assumes ok: "pool_ok tv" and st: "tv_textures tv tid = Some state"
    and keep: "st_spares state' = st_spares state" "st_bytes state' = st_bytes state"
    and tv': "tv_textures tv' = (tv_textures tv)(tid \<mapsto> state')" "tv_parked_bytes tv' = tv_parked_bytes tv"
      "tv_budget tv' = tv_budget tv" "tv_with_spares tv' = tv_with_spares tv"
      "tv_doomed tv' = tv_doomed tv" "tv_doomed_bytes tv' = tv_doomed_bytes tv"
  shows "pool_ok tv'" "pool_views tv' + mset (map rt_views (tv_retiring tv)) = pool_views tv + mset (map rt_views (tv_retiring tv'))"
proof -
  have fin: "finite (dom (tv_textures tv))" and b: "unat (st_bytes state) < 2 ^ 63"
    and w: "tid \<in> tv_with_spares tv \<longleftrightarrow> st_spares state \<noteq> []" using ok st by (auto simp: pool_ok_def)
  show "pool_ok tv'"
    by (rule pool_update [OF ok st tv'(1,3)]) (use ok b w in \<open>auto simp: keep tv' pool_ok_def\<close>)
  show "pool_views tv' + mset (map rt_views (tv_retiring tv)) = pool_views tv + mset (map rt_views (tv_retiring tv'))"
    using views_update [OF fin st tv'(1)] by (simp add: keep tv')
qed

lemma retire_ok: "pool_ok tv \<Longrightarrow> pool_ok (retire tid v seq tv) \<and> pool_views (retire tid v seq tv) = add_mset v (pool_views tv)"
proof (cases "tv_textures tv tid")
  case None
  assume "pool_ok tv"
  with None show ?thesis by (simp add: retire_def pool_ok_def pool_views_def)
next
  case (Some state)
  assume "pool_ok tv"
  from keep_spares_ok [OF this Some, of "state\<lparr>st_live_birth_seq := seq\<rparr>" "retire tid v seq tv"] Some show ?thesis
    by (simp add: retire_def)
qed

lemma map_history_ok: "pool_ok tv \<Longrightarrow> pool_ok (map_history f tid tv) \<and> pool_views (map_history f tid tv) = pool_views tv"
proof (cases "tv_textures tv tid")
  case (Some state)
  assume "pool_ok tv"
  from keep_spares_ok [OF this Some, of "state\<lparr>st_history := f (st_history state)\<rparr>" "map_history f tid tv"] Some show ?thesis
    by (simp add: map_history_def)
qed (simp add: map_history_def)

lemma foldl_minus: "foldl (\<lambda>t (_, n). t - n) (s :: u64) q = s - sum_list (map snd q)"
  by (induction q arbitrary: s) (auto simp: algebra_simps)

lemma take_doomed_ok:
  assumes "pool_ok tv" "take_doomed tv = (out, tv')"
  shows "pool_ok tv' \<and> pool_views tv = pool_views tv' + mset out"
proof -
  from assms(2) obtain k where k: "out = map fst (take k (tv_doomed tv))" "tv_doomed tv' = drop k (tv_doomed tv)"
    "tv_doomed_bytes tv' = tv_doomed_bytes tv - sum_list (map snd (take k (tv_doomed tv)))"
    and same: "tv_textures tv' = tv_textures tv" "tv_parked_bytes tv' = tv_parked_bytes tv" "tv_budget tv' = tv_budget tv"
    "tv_with_spares tv' = tv_with_spares tv" "tv_retiring tv' = tv_retiring tv"
    by (auto simp: take_doomed_def Let_def foldl_minus)
  have q: "map g (tv_doomed tv) = map g (take k (tv_doomed tv)) @ map g (drop k (tv_doomed tv))" for g :: "_ \<Rightarrow> 'c"
    by (metis append_take_drop_id map_append)
  have "sum_list (map snd (tv_doomed tv)) = sum_list (map snd (take k (tv_doomed tv))) + sum_list (map snd (drop k (tv_doomed tv)))"
    unfolding q [of snd] by simp
  then have "pool_ok tv'"
    using assms(1) by (intro pool_frame [OF assms(1) same(1-4)]) (simp add: k pool_ok_def)
  moreover have "mset (map fst (tv_doomed tv)) = mset out + mset (map fst (tv_doomed tv'))"
    unfolding q [of fst] by (simp add: k)
  ultimately show ?thesis by (simp add: pool_views_def same)
qed

lemma fold_doom:
  "foldl (\<lambda>tv spare. doom (sp_views spare) n tv) tv ss
     = tv\<lparr>tv_doomed_bytes := tv_doomed_bytes tv + n * of_nat (length ss),
          tv_doomed_since_take := tv_doomed_since_take tv + length ss,
          tv_doomed := tv_doomed tv @ map (\<lambda>spare. (sp_views spare, n)) ss\<rparr>"
  by (induction ss arbitrary: tv) (auto simp: doom_def algebra_simps)

lemma forget_texture_ok:
  assumes ok: "pool_ok tv"
  shows "pool_ok (forget_texture tid tv) \<and> pool_views (forget_texture tid tv) = pool_views tv"
proof (cases "tv_textures tv tid")
  case None
  with ok show ?thesis by (simp add: forget_texture_def)
next
  case (Some state)
  let ?tv = "forget_texture tid tv"
  have fin: "finite (dom (tv_textures tv))" and d: "tv_doomed_bytes tv = sum_list (map snd (tv_doomed tv))"
    using ok by (auto simp: pool_ok_def)
  have tv': "tv_textures ?tv = (tv_textures tv)(tid := None)" "tv_budget ?tv = tv_budget tv"
    "tv_parked_bytes ?tv = tv_parked_bytes tv - st_bytes state * of_nat (length (st_spares state))"
    "tv_doomed ?tv = tv_doomed tv @ map (\<lambda>spare. (sp_views spare, st_bytes state)) (st_spares state)"
    "tv_doomed_bytes ?tv = tv_doomed_bytes tv + st_bytes state * of_nat (length (st_spares state))"
    "tv_retiring ?tv = tv_retiring tv" "tv_with_spares ?tv = tv_with_spares tv - {tid}"
    by (simp_all add: forget_texture_def Some fold_doom)
  have "pool_ok ?tv"
  proof (rule pool_drop [OF ok Some tv'(1,2) _ _ tv'(7)])
    show "unat (tv_parked_bytes ?tv) + spare_bytes state = unat (tv_parked_bytes tv)"
      using parked_less [OF ok Some order_refl] by (simp add: tv')
    show "tv_doomed_bytes ?tv = sum_list (map snd (tv_doomed ?tv))"
      unfolding tv' map_append sum_list_append doomed_queue by (simp add: d)
  qed
  moreover have "pool_views ?tv = pool_views tv"
    using sum_map_without [OF fin, of spare_views tid] by (simp add: pool_views_def tv' Some comp_def)
  ultimately show ?thesis ..
qed

abbreviation opt_views :: "'v spare option \<Rightarrow> 'v multiset" where
  "opt_views spare \<equiv> (case spare of None \<Rightarrow> {#} | Some s \<Rightarrow> {#sp_views s#})"

lemma take_spare_same:
  assumes ok: "pool_ok tv" and st: "tv_textures tv tid = Some state" "st_shape state = shape"
    and take: "take_spare tid shape records seq tv = (spare, tv')"
  shows "pool_ok tv' \<and> pool_views tv = pool_views tv' + opt_views spare"
proof -
  let ?s = "st_spares state"
  let ?state' = "state\<lparr>st_last_rename_seq := seq, st_spares := butlast ?s\<rparr>"
  have fin: "finite (dom (tv_textures tv))" and b: "unat (st_bytes state) < 2 ^ 63"
    and w: "tid \<in> tv_with_spares tv \<longleftrightarrow> ?s \<noteq> []" and d: "tv_doomed_bytes tv = sum_list (map snd (tv_doomed tv))"
    using ok st by (auto simp: pool_ok_def)
  have tv': "tv_textures tv' = (tv_textures tv)(tid \<mapsto> ?state')" "tv_budget tv' = tv_budget tv"
    "tv_parked_bytes tv' = (if ?s = [] then tv_parked_bytes tv else tv_parked_bytes tv - st_bytes state)"
    "tv_doomed tv' = tv_doomed tv" "tv_doomed_bytes tv' = tv_doomed_bytes tv" "tv_retiring tv' = tv_retiring tv"
    "tv_with_spares tv' = (if butlast ?s = [] then tv_with_spares tv - {tid} else tv_with_spares tv)"
    and spare: "spare = (if ?s = [] then None else Some (last ?s))"
    using take st by (auto simp: take_spare_def rename_state_def Let_def)
  have one: "unat (tv_parked_bytes tv') + spare_bytes state = unat (tv_parked_bytes tv) + spare_bytes ?state'"
    "unat (tv_parked_bytes tv') \<le> unat (tv_parked_bytes tv)"
    using parked_less [OF ok st(1), of 1] by (cases ?s; simp add: tv' algebra_simps)+
  have "pool_ok tv'"
    by (rule pool_update [OF ok st(1) tv'(1,2) _ one(1) parked_le_cap [OF ok one(2)]])
      (use b d w in \<open>auto simp: tv' dest: in_set_butlastD\<close>)
  moreover have "spare_views state = spare_views ?state' + opt_views spare"
    by (cases ?s rule: rev_cases) (simp_all add: spare)
  then have "pool_views tv = pool_views tv' + opt_views spare"
    using views_update [OF fin st(1) tv'(1)] by (simp add: tv')
  ultimately show ?thesis ..
qed

lemma take_spare_new:
  assumes ok: "pool_ok tv" and b: "unat (shape_bytes shape) < 2 ^ 63"
    and st: "\<And>state. tv_textures tv tid = Some state \<Longrightarrow> st_shape state \<noteq> shape"
    and take: "take_spare tid shape records seq tv = (spare, tv')"
  shows "pool_ok tv' \<and> pool_views tv = pool_views tv' + opt_views spare"
proof (cases "tv_textures tv tid")
  case None
  let ?state' = "(state_new shape (tv_next_epoch tv) records)\<lparr>st_last_rename_seq := seq, st_spares := []\<rparr>"
  have fin: "finite (dom (tv_textures tv))" and w: "tid \<notin> tv_with_spares tv"
    using ok None by (auto simp: pool_ok_def)
  have tv': "tv_textures tv' = (tv_textures tv)(tid \<mapsto> ?state')" "tv_with_spares tv' = tv_with_spares tv - {tid}" "spare = None"
    "tv_parked_bytes tv' = tv_parked_bytes tv" "tv_budget tv' = tv_budget tv" "tv_doomed tv' = tv_doomed tv"
    "tv_doomed_bytes tv' = tv_doomed_bytes tv" "tv_retiring tv' = tv_retiring tv"
    using take None by (auto simp: take_spare_def rename_state_def start_state_def state_new_def Let_def)
  have "(tv_textures tv)(tid := None) = tv_textures tv" using None by auto
  then have sums: "sum_map spare_bytes (tv_textures tv') = sum_map spare_bytes (tv_textures tv)"
    "sum_map spare_views (tv_textures tv') = sum_map spare_views (tv_textures tv)"
    by (simp_all add: tv'(1) sum_map_with [OF fin])
  have "tv_with_spares tv' = {tid. \<exists>state. tv_textures tv' tid = Some state \<and> st_spares state \<noteq> []}"
    using ok None by (auto simp: tv' pool_ok_def)
  moreover have "unat (st_bytes state) < 2 ^ 63" if "tv_textures tv' t = Some state" for t state
    using that ok b by (auto simp: tv' pool_ok_def state_new_def split: if_splits)
  moreover have "finite (dom (tv_textures tv'))" using fin by (simp add: tv')
  ultimately show ?thesis using ok sums by (simp add: pool_ok_def pool_views_def tv'(3-8))
next
  case (Some state)
  let ?s = "st_spares state"
  let ?state' = "(state_new shape (tv_next_epoch tv) records)\<lparr>st_last_rename_seq := seq, st_spares := []\<rparr>"
  have fin: "finite (dom (tv_textures tv))" and d: "tv_doomed_bytes tv = sum_list (map snd (tv_doomed tv))"
    using ok by (auto simp: pool_ok_def)
  have tv': "tv_textures tv' = (tv_textures tv)(tid \<mapsto> ?state')" "tv_budget tv' = tv_budget tv" "spare = None"
    "tv_parked_bytes tv' = tv_parked_bytes tv - st_bytes state * of_nat (length ?s)"
    "tv_doomed tv' = tv_doomed tv @ map (\<lambda>spare. (sp_views spare, st_bytes state)) ?s"
    "tv_doomed_bytes tv' = tv_doomed_bytes tv + st_bytes state * of_nat (length ?s)"
    "tv_retiring tv' = tv_retiring tv" "tv_with_spares tv' = tv_with_spares tv - {tid}"
    using take Some st [OF Some]
    by (auto simp: take_spare_def rename_state_def start_state_def queue_spares_def state_new_def Let_def)
  note less = parked_less [OF ok Some order_refl]
  have p: "unat (tv_parked_bytes tv') + spare_bytes state = unat (tv_parked_bytes tv) + spare_bytes ?state'"
    "unat (tv_parked_bytes tv') \<le> unat (tv_parked_bytes tv)"
    using less by (auto simp: tv')
  have "tv_doomed_bytes tv' = sum_list (map snd (tv_doomed tv'))"
    unfolding tv' map_append sum_list_append doomed_queue by (simp add: d)
  then have "pool_ok tv'"
    by (rule pool_update [OF ok Some tv'(1,2) _ p(1) parked_le_cap [OF ok p(2)], rotated]) (use b in \<open>auto simp: tv' state_new_def\<close>)
  moreover have "pool_views tv = pool_views tv'"
    using views_update [OF fin Some tv'(1)] by (simp add: tv' comp_def)
  ultimately show ?thesis by (simp add: tv')
qed

lemma take_spare_ok:
  assumes "pool_ok tv" "unat (shape_bytes shape) < 2 ^ 63" "take_spare tid shape records seq tv = (spare, tv')"
  shows "pool_ok tv' \<and> pool_views tv = pool_views tv' + opt_views spare"
  using take_spare_same [OF assms(1) _ _ assms(3)] take_spare_new [OF assms(1,2) _ assms(3)] by blast

definition drained :: "u64 set \<Rightarrow> 'v texture_versions \<Rightarrow> 'v texture_versions \<Rightarrow> bool" where
  "drained tids tv tv' \<longleftrightarrow> tv\<lparr>tv_textures := tv_textures tv'\<rparr> = tv' \<and>
     (\<forall>tid. tv_textures tv' tid
        = (if tid \<in> tids then map_option (st_spares_update (\<lambda>_. [])) (tv_textures tv tid) else tv_textures tv tid))"

lemma drain_fold:
  assumes "finite (dom (tv_textures tv))" "foldl drain_texture (out, tv) order = (out', tv')"
  shows "finite (dom (tv_textures tv')) \<and> drained (set order) tv tv'
    \<and> sum_map spare_views (tv_textures tv) + mset out = sum_map spare_views (tv_textures tv') + mset out'"
  using assms
proof (induction order arbitrary: out tv)
  case Nil
  then show ?case by (simp add: drained_def)
next
  case (Cons t order)
  obtain out1 tv1 where step: "drain_texture (out, tv) t = (out1, tv1)" by fastforce
  have one: "finite (dom (tv_textures tv1))" "drained {t} tv tv1"
    "sum_map spare_views (tv_textures tv) + mset out = sum_map spare_views (tv_textures tv1) + mset out1"
    using step Cons.prems(1) sum_map_without [OF Cons.prems(1), of spare_views t] sum_map_with [OF Cons.prems(1), of spare_views t]
    by (auto simp: drain_texture_def drained_def split: option.splits)
  moreover have "drained (set order) tv1 tv' \<Longrightarrow> drained (set (t # order)) tv tv'"
    using one(2) by (auto simp: drained_def option.map_comp comp_def)
        (metis texture_versions.update_convs(1) texture_versions.surjective)
  ultimately show ?case using Cons.IH [OF one(1)] Cons.prems(2) step by simp
qed

lemma drain_versions_ok:
  assumes ok: "pool_ok tv" and all: "set order = tv_with_spares tv" and drain: "drain_versions order tv = (out, tv')"
  shows "pool_ok tv' \<and> pool_views tv' = {#} \<and> mset out = pool_views tv"
proof -
  define tv0 where "tv0 = tv\<lparr>tv_retiring := [], tv_doomed := [], tv_doomed_bytes := 0, tv_doomed_since_take := 0,
    tv_doomed_arrivals := replicate DESTROY_SPREAD_DRAINS 0, tv_with_spares := {}\<rparr>"
  obtain out1 tv1 where fold: "foldl drain_texture (map rt_views (tv_retiring tv) @ map fst (tv_doomed tv), tv0) order = (out1, tv1)"
    by fastforce
  have res: "out = out1" "tv' = tv1\<lparr>tv_parked_bytes := 0\<rparr>"
    using drain fold by (auto simp: drain_versions_def tv0_def [symmetric])
  have t0: "tv_textures tv0 = tv_textures tv" by (simp add: tv0_def)
  have fin: "finite (dom (tv_textures tv0))" using ok by (simp add: t0 pool_ok_def)
  note d = drain_fold [OF fin fold]
  have none: "st_spares state = []" "unat (st_bytes state) < 2 ^ 63" if "tv_textures tv1 t = Some state" for t state
  proof -
    have "(t \<in> tv_with_spares tv \<and> (\<exists>s. tv_textures tv t = Some s \<and> state = s\<lparr>st_spares := []\<rparr>))
        \<or> t \<notin> tv_with_spares tv \<and> tv_textures tv t = Some state"
      using that d all by (auto simp: drained_def t0 split: if_splits)
    then show "st_spares state = []" "unat (st_bytes state) < 2 ^ 63" using ok by (auto simp: pool_ok_def)
  qed
  have sums: "sum_map spare_bytes (tv_textures tv1) = 0" "sum_map spare_views (tv_textures tv1) = {#}"
    using none(1) sum_map_zero [of "tv_textures tv1" spare_bytes] sum_map_zero [of "tv_textures tv1" spare_views] by auto
  have e: "tv1 = tv0\<lparr>tv_textures := tv_textures tv1\<rparr>" using d by (simp add: drained_def)
  have same: "tv_retiring tv1 = []" "tv_doomed tv1 = []" "tv_doomed_bytes tv1 = 0" "tv_with_spares tv1 = {}" "tv_budget tv1 = tv_budget tv"
    by (subst e, simp add: tv0_def)+
  have "pool_ok tv'" using ok d none sums by (auto simp: pool_ok_def res same)
  moreover have "pool_views tv' = {#}" by (simp add: pool_views_def res same sums del: mset_map)
  moreover have "mset out = pool_views tv" using d by (simp add: pool_views_def res sums t0 ac_simps del: mset_map)
  ultimately show ?thesis by simp
qed

section \<open>The pool as a state machine\<close>

text \<open>
  A state of the pool with the views its caller has given it and not received back. Every public
  operation is a step, for any arguments; the orders of the hash tables are arbitrary too, except
  that a drain of the whole pool visits every texture with spares.
\<close>

inductive pool_step :: "'v texture_versions \<times> 'v multiset \<Rightarrow> 'v texture_versions \<times> 'v multiset \<Rightarrow> bool" where
  step_take: "unat (shape_bytes shape) < 2 ^ 63 \<Longrightarrow> take_spare tid shape records seq tv = (spare, tv') \<Longrightarrow>
    pool_step (tv, given) (tv', given - opt_views spare)"
| step_retire: "pool_step (tv, given) (retire tid views seq tv, add_mset views given)"
| step_write: "pool_step (tv, given) (note_write tid face level rect tv, given)"
| step_mips: "pool_step (tv, given) (note_mip_regeneration tid tv, given)"
| step_reclaim: "reclaim_texture_versions order counted order' allocated settled failed now tv = Some (out, tv') \<Longrightarrow>
    pool_step (tv, given) (tv', given - mset out)"
| step_forget: "pool_step (tv, given) (forget_texture tid tv, given)"
| step_drain: "set order = tv_with_spares tv \<Longrightarrow> drain_versions order tv = (out, tv') \<Longrightarrow>
    pool_step (tv, given) (tv', given - mset out)"

definition pool_init :: "'v texture_versions \<times> 'v multiset \<Rightarrow> bool" where
  "pool_init s \<longleftrightarrow> (\<exists>working_set. s = (versions_new (from_working_set working_set), {#}))"

definition pool_inv :: "'v texture_versions \<times> 'v multiset \<Rightarrow> bool" where
  "pool_inv s \<longleftrightarrow> pool_ok (fst s) \<and> pool_views (fst s) = snd s"

lemma reclaim_ok:
  assumes "pool_ok tv" "reclaim_texture_versions order counted order' allocated settled failed now tv = Some (out, tv')"
  shows "pool_ok tv' \<and> pool_views tv = pool_views tv' + mset out"
proof -
  let ?tv1 = "park_retired settled failed now (note_allocated order counted allocated tv)"
  obtain tv2 where t: "trim order' now ?tv1 = Some tv2" "take_doomed tv2 = (out, tv')"
    using assms(2) by (auto simp: reclaim_texture_versions_def)
  have "pool_ok ?tv1 \<and> pool_views ?tv1 = pool_views tv"
    using note_allocated_ok [OF assms(1), of order counted allocated]
      park_retired_ok [of "note_allocated order counted allocated tv" settled failed now] by simp
  with trim_ok [OF t(1)] take_doomed_ok [OF _ t(2)] show ?thesis by simp
qed

interpretation pool: step_invariant pool_init pool_step pool_inv
proof
  show "pool_inv s" if "pool_init s" for s :: "'a texture_versions \<times> 'a multiset"
    using that versions_new_ok by (auto simp: pool_init_def pool_inv_def)
next
  fix s t :: "'a texture_versions \<times> 'a multiset"
  assume inv: "pool_inv s" and step: "pool_step s t"
  from step inv show "pool_inv t"
  proof cases
    case (step_take shape tid records seq tv spare tv' given)
    with inv take_spare_ok [OF _ step_take(3,4)] show ?thesis by (auto simp: pool_inv_def)
  next
    case (step_reclaim order counted order' allocated settled failed now tv out tv' given)
    with inv reclaim_ok [OF _ step_reclaim(3)] show ?thesis by (auto simp: pool_inv_def)
  next
    case (step_drain order tv out tv' given)
    with inv drain_versions_ok [OF _ step_drain(3,4)] show ?thesis by (auto simp: pool_inv_def)
  qed (auto simp: pool_inv_def retire_ok note_write_def note_mip_regeneration_def map_history_ok forget_texture_ok)
qed

text \<open>
  C8. The pool neither loses nor duplicates a version, and stays within its budget. After any
  sequence of operations the views it holds, retiring, parked as spares or queued to be destroyed,
  are exactly those the caller gave it and has not been handed back; \<^verbatim>\<open>parked_bytes\<close> is the storage of
  the spares and never exceeds the cap; and \<^verbatim>\<open>doomed_bytes\<close> is the storage of the queue.
\<close>

theorem pool_accounts_exact:
  assumes "reach pool_init pool_step (tv, given)"
  shows "pool_views tv = given
    \<and> unat (tv_parked_bytes tv) = sum_map spare_bytes (tv_textures tv)
    \<and> tv_parked_bytes tv \<le> vb_spare_cap (tv_budget tv)
    \<and> tv_doomed_bytes tv = sum_list (map snd (tv_doomed tv))
    \<and> tv_with_spares tv = {tid. \<exists>state. tv_textures tv tid = Some state \<and> st_spares state \<noteq> []}"
  using pool.reach_inv [OF assms] by (simp add: pool_inv_def pool_ok_def)

theorem pool_accounts_exact_witness:
  "\<exists>tv. reach pool_init pool_step (tv, {#7 :: nat#}) \<and> pool_views tv = {#7#} \<and> length (tv_retiring tv) = 1"
proof -
  let ?tv0 = "versions_new (from_working_set 0) :: nat texture_versions"
  have "reach pool_init pool_step (?tv0, {#})" by (rule reach_init) (auto simp: pool_init_def)
  then have r: "reach pool_init pool_step (retire 3 7 1 ?tv0, {#7#})" using step_retire reach_step by fastforce
  with pool_accounts_exact [OF r] show ?thesis
    by (intro exI [of _ "retire 3 7 1 ?tv0"]) (simp add: retire_def versions_new_def)
qed

section \<open>Trimming ends\<close>

definition due :: "u64 \<Rightarrow> 'v texture_versions \<Rightarrow> nat" where
  "due now tv = length (filter (\<lambda>e. state_aged now (fst e)) (tv_idle tv))"

lemma filter_insort_other: "\<not> P x \<Longrightarrow> length (filter P (insort x xs)) = length (filter P xs)"
  by (induction xs) auto

lemma not_aged_now: "unat now + 120 < 2 ^ 64 \<Longrightarrow> \<not> state_aged now now"
  by (simp add: state_aged_def STATE_MAX_IDLE_SUBMITS_def word_less_nat_alt unat_add_no_overflow)

lemma trim_entry_due:
  assumes "unat now + 120 < 2 ^ 64"
  shows "due now (trim_entry now entry tv) = due now tv"
  using not_aged_now [OF assms]
  by (auto simp: trim_entry_def due_def bs_insert_def filter_insort_other split: prod.split option.split)

lemma trim_entry_keeps:
  "tv_textures tv tid = Some state \<Longrightarrow> tv_textures (trim_entry now entry tv) tid = Some state
     \<or> tv_textures (trim_entry now entry tv) tid = None \<and> state_aged now (st_last_rename_seq state) \<and> st_spares state = []"
  "tv_textures tv tid = None \<Longrightarrow> tv_textures (trim_entry now entry tv) tid = None"
  by (auto simp: trim_entry_def split: prod.split option.split)

lemma trim_idle_returns:
  assumes now: "unat now + 120 < 2 ^ 64"
  shows "\<exists>tv'. trim_idle now tv = Some tv' \<and>
    (\<forall>tid. tv_textures tv' tid = tv_textures tv tid \<or>
       tv_textures tv' tid = None \<and> (\<exists>state. tv_textures tv tid = Some state
         \<and> state_aged now (st_last_rename_seq state) \<and> st_spares state = []))"
proof (induction "due now tv" arbitrary: tv rule: less_induct)
  case less
  show ?case
  proof (cases "tv_idle tv = [] \<or> \<not> state_aged now (fst (hd (tv_idle tv)))")
    case True
    then have "trim_idle now tv = Some tv" by (subst trim_idle.simps) (auto split: list.split)
    then show ?thesis by simp
  next
    case False
    then obtain entry rest where idle: "tv_idle tv = entry # rest" "state_aged now (fst entry)" by (cases "tv_idle tv") auto
    let ?tv = "trim_entry now entry (tv\<lparr>tv_idle := rest\<rparr>)"
    have "due now (tv\<lparr>tv_idle := rest\<rparr>) < due now tv" using idle by (simp add: due_def)
    then have "due now ?tv < due now tv" by (simp only: trim_entry_due [OF now])
    from less.hyps [OF this] obtain tv' where tv': "trim_idle now ?tv = Some tv'"
      "\<And>tid. tv_textures tv' tid = tv_textures ?tv tid \<or>
       tv_textures tv' tid = None \<and> (\<exists>state. tv_textures ?tv tid = Some state
         \<and> state_aged now (st_last_rename_seq state) \<and> st_spares state = [])" by blast
    have keeps: "tv_textures tv tid = Some state \<Longrightarrow> tv_textures ?tv tid = Some state
       \<or> tv_textures ?tv tid = None \<and> state_aged now (st_last_rename_seq state) \<and> st_spares state = []"
      "tv_textures tv tid = None \<Longrightarrow> tv_textures ?tv tid = None" for tid state
      using trim_entry_keeps [of "tv\<lparr>tv_idle := rest\<rparr>"] by auto
    have "trim_idle now tv = Some tv'" using tv'(1) idle by (subst trim_idle.simps) simp
    moreover have "tv_textures tv' tid = tv_textures tv tid \<or> tv_textures tv' tid = None \<and>
      (\<exists>state. tv_textures tv tid = Some state \<and> state_aged now (st_last_rename_seq state) \<and> st_spares state = [])" for tid
      using tv'(2) [of tid] keeps [of tid] by (cases "tv_textures tv tid") auto
    ultimately show ?thesis by blast
  qed
qed

text \<open>
  C9. Trimming ends and forgets only idle textures. For every submission number the counter can
  reach, the loop over the idle set returns, although it enters states it keeps into that set
  again; and a texture it stops tracking had no spares left and no rename for longer than
  \<^verbatim>\<open>STATE_MAX_IDLE_SUBMITS\<close> submissions.
\<close>

theorem trim_returns:
  assumes "unat now + 120 < 2 ^ 64"
  shows "\<exists>tv'. trim order now tv = Some tv' \<and>
    (\<forall>tid. let kept = tv_textures (foldl (trim_texture now) tv order) tid
      in tv_textures tv' tid = kept \<or>
         tv_textures tv' tid = None \<and> (\<exists>state. kept = Some state
           \<and> state_aged now (st_last_rename_seq state) \<and> st_spares state = []))"
  using trim_idle_returns [OF assms] by (simp add: trim_def Let_def)

theorem trim_returns_witness:
  "\<exists>spare tv tv'. take_spare 5 demo_shape False 1 (versions_new (from_working_set 0)) = (spare, tv :: nat texture_versions)
     \<and> tv_textures tv 5 \<noteq> None \<and> trim [] 200 tv = Some tv' \<and> tv_textures tv' 5 = None"
proof -
  define tv where "tv = snd (take_spare 5 demo_shape False 1 (versions_new (from_working_set 0) :: nat texture_versions))"
  have tv: "tv_idle tv = [(1, 5, 1)]" "\<exists>st. tv_textures tv 5 = Some st \<and> st_epoch st = 1 \<and> st_last_rename_seq st = 1 \<and> st_spares st = []"
    by (simp_all add: tv_def take_spare_def rename_state_def versions_new_def start_state_def state_new_def bs_insert_def Let_def)
  obtain tv' where tv': "trim [] 200 tv = Some tv'" using trim_returns [of 200 "[]" tv] by auto
  have aged: "state_aged 200 1" by (simp add: state_aged_def STATE_MAX_IDLE_SUBMITS_def)
  have "tv_idle (tv\<lparr>tv_idle := [], tv_textures := m\<rparr>) = []" for m by simp
  then have "trim_idle 200 (tv\<lparr>tv_idle := [], tv_textures := m\<rparr>) = Some (tv\<lparr>tv_idle := [], tv_textures := m\<rparr>)" for m
    by (subst trim_idle.simps) simp
  moreover have "trim_entry 200 (1, 5, 1) (tv\<lparr>tv_idle := []\<rparr>) = tv\<lparr>tv_idle := [], tv_textures := (tv_textures tv)(5 := None)\<rparr>"
    using tv(2) aged by (auto simp: trim_entry_def)
  ultimately have "trim_idle 200 tv = Some (tv\<lparr>tv_idle := [], tv_textures := (tv_textures tv)(5 := None)\<rparr>)"
    using aged by (subst trim_idle.simps) (simp add: tv(1))
  with tv' have "tv_textures tv' 5 = None" by (auto simp: trim_def)
  with tv tv' show ?thesis unfolding tv_def by (metis option.distinct(1) prod.collapse)
qed

end
