(* ===== verification/Version_Rename.thy ===== *)
theory Version_Rename
  imports Texture_Versions
begin

text \<open>
  How the encoder uses the version pool (\<^verbatim>\<open>src/unix/unix/src/encoder.rs\<close>): the upload that renames a sampled
  texture, the preserve copies it queues, the write it records, and the drain. The encoder's state
  is reduced to the texture cache, the pool, the submission counter and the queued copies; what
  Metal answers is an argument.
\<close>

section \<open>The encoder's part\<close>

record 'v version_encoder =
  ve_versions :: "'v texture_versions"
  ve_cache :: "u64 \<rightharpoonup> 'v"
  ve_seq :: u64
  ve_copies :: "(bool \<times> 'v \<times> 'v \<times> preserve_copy) list"
  ve_retained :: "'v list"

text \<open>
  An upload job: the descriptor the encoder derives for its texture, the application's usage, the
  destination subresource and rectangle, and the block of a compressed source format.
\<close>

record upload_job =
  uj_id :: u64
  uj_desc :: texture_create_desc
  uj_usage :: u32
  uj_slice :: u32
  uj_level :: u32
  uj_x :: u32
  uj_y :: u32
  uj_w :: u32
  uj_h :: u32
  uj_depth :: u32
  uj_compressed :: "(u32 \<times> u32) option"

abbreviation job_shape :: "upload_job \<Rightarrow> version_shape" where
  "job_shape job \<equiv> shape_of (uj_desc job)"

definition full_cover :: "upload_job \<Rightarrow> bool" where
  "full_cover job \<longleftrightarrow>
     (\<not> has_flag (td_flags (uj_desc job)) TEX_TYPE_3D \<or> level_extent (td_depth (uj_desc job)) (uj_level job) \<le> uj_depth job)
     \<and> uj_x job = 0 \<and> uj_y job = 0
     \<and> level_extent (td_width (uj_desc job)) (uj_level job) \<le> uj_w job
     \<and> level_extent (td_height (uj_desc job)) (uj_level job) \<le> uj_h job"

definition job_footprint :: "upload_job \<Rightarrow> upload_footprint" where
  "job_footprint job = \<lparr>uf_slice = uj_slice job, uf_level = uj_level job, uf_full_cover = full_cover job\<rparr>"

definition job_written :: "upload_job \<Rightarrow> texel_rect" where
  "job_written job =
     upload_written_rect (rect_new (uj_x job) (uj_y job) (uj_w job) (uj_h job))
       (level_extent (td_width (uj_desc job)) (uj_level job), level_extent (td_height (uj_desc job)) (uj_level job))
       (uj_compressed job)"

text \<open>
  \<open>created\<close> is the fresh allocation, if Metal gives one; \<open>packed\<close> that the source is a packed depth
  format; \<open>old\<close> the version the caller resolved. The first result is the destination of the upload.
\<close>

definition rename_sampled_texture ::
  "upload_job \<Rightarrow> 'v option \<Rightarrow> bool \<Rightarrow> bool \<Rightarrow> 'v \<Rightarrow> 'v version_encoder \<Rightarrow> 'v option \<times> 'v version_encoder"
where
  "rename_sampled_texture job created ordered packed old enc =
     (case take_spare (uj_id job) (job_shape job) (records_every_write (uj_desc job) (uj_usage job)) (ve_seq enc)
             (ve_versions enc) of
        (spare, tv) \<Rightarrow>
          (case (case spare of Some s \<Rightarrow> Some (sp_views s, sp_held_writes s) | None \<Rightarrow> map_option (\<lambda>v. (v, None)) created) of
             None \<Rightarrow> (if packed then None else Some old, enc\<lparr>ve_versions := tv\<rparr>)
           | Some (views, held_writes) \<Rightarrow>
               (case ve_cache enc (uj_id job) of
                  None \<Rightarrow> (Some old, enc\<lparr>ve_versions := tv, ve_retained := ve_retained enc @ [views]\<rparr>)
                | Some old_views \<Rightarrow>
                    (let plan = preserve_plan tv (uj_id job) (job_shape job) held_writes (job_footprint job)
                     in (Some views,
                         enc\<lparr>ve_versions := retire (uj_id job) old_views (ve_seq enc) tv,
                             ve_cache := (ve_cache enc)(uj_id job \<mapsto> views),
                             ve_copies := ve_copies enc @ map (\<lambda>c. (ordered, old, views, c)) plan\<rparr>)))))"

definition note_upload_write :: "upload_job \<Rightarrow> 'v version_encoder \<Rightarrow> 'v version_encoder" where
  "note_upload_write job enc =
     (if 1 < uj_depth job \<or> \<not> records_writes (ve_versions enc) (uj_id job) then enc
      else enc\<lparr>ve_versions := note_write (uj_id job) (uj_slice job) (uj_level job) (job_written job) (ve_versions enc)\<rparr>)"

definition get_or_create_texture_view ::
  "upload_job \<Rightarrow> 'v option \<Rightarrow> 'v version_encoder \<Rightarrow> 'v option \<times> 'v version_encoder"
where
  "get_or_create_texture_view job created enc =
     (case ve_cache enc (uj_id job) of
        Some views \<Rightarrow> (Some views, enc)
      | None \<Rightarrow>
          (case created of
             None \<Rightarrow> (None, enc)
           | Some views \<Rightarrow> (Some views, enc\<lparr>ve_cache := (ve_cache enc)(uj_id job \<mapsto> views)\<rparr>)))"

text \<open>
  \<open>sampled\<close> and \<open>blitted\<close> are what the pass state answers for the resolved texture, \<open>emitted\<close> what the
  blit path answers, \<open>created\<close> and \<open>created'\<close> the allocations of the cache and of the rename.
\<close>

definition emit_texture_upload ::
  "bool \<Rightarrow> bool \<Rightarrow> bool \<Rightarrow> bool \<Rightarrow> 'v option \<Rightarrow> 'v option \<Rightarrow> bool \<Rightarrow> upload_job \<Rightarrow> 'v version_encoder \<Rightarrow> bool \<times> 'v version_encoder"
where
  "emit_texture_upload ORDERED sampled blitted packed created created' emitted job enc =
     (case get_or_create_texture_view job created enc of
        (None, enc1) \<Rightarrow> (False, enc1)
      | (Some handle, enc1) \<Rightarrow>
          (let ordered = (ORDERED \<or> sampled \<and> blitted);
               ordered_color = (ordered \<and> \<not> packed);
               (dest, enc2) = (if \<not> ORDERED \<and> sampled \<and> \<not> ordered_color
                               then rename_sampled_texture job created' ordered packed handle enc1
                               else (Some handle, enc1))
           in if dest = None then (False, enc2)
              else if emitted then (True, note_upload_write job enc2)
              else (False, enc2)))"

text \<open>The replay of an upload an aborted submission lost: no rename, and nothing without a cached texture.\<close>

definition reissue_texture_upload :: "bool \<Rightarrow> upload_job \<Rightarrow> 'v version_encoder \<Rightarrow> bool \<times> 'v version_encoder" where
  "reissue_texture_upload emitted job enc =
     (if ve_cache enc (uj_id job) = None then (False, enc)
      else if emitted then (True, note_upload_write job enc)
      else (False, enc))"

definition note_texture_blit_write ::
  "u64 \<Rightarrow> u32 \<Rightarrow> u32 \<Rightarrow> texel_rect \<Rightarrow> bool \<Rightarrow> 'v version_encoder \<Rightarrow> 'v version_encoder"
where
  "note_texture_blit_write tid face level rect regenerates enc =
     enc\<lparr>ve_versions := (let tv = note_write tid face level rect (ve_versions enc)
                        in if regenerates then note_mip_regeneration tid tv else tv)\<rparr>"

definition run_generate_mipmaps :: "u64 \<Rightarrow> 'v version_encoder \<Rightarrow> 'v version_encoder" where
  "run_generate_mipmaps tid enc =
     (case ve_cache enc tid of
        None \<Rightarrow> enc
      | Some _ \<Rightarrow> enc\<lparr>ve_versions := note_mip_regeneration tid (ve_versions enc)\<rparr>)"

definition destroy_cached_texture :: "u64 \<Rightarrow> 'v version_encoder \<Rightarrow> 'v version_encoder" where
  "destroy_cached_texture tid enc =
     enc\<lparr>ve_cache := (ve_cache enc)(tid := None),
         ve_retained := (case ve_cache enc tid of None \<Rightarrow> ve_retained enc | Some views \<Rightarrow> ve_retained enc @ [views]),
         ve_versions := forget_texture tid (ve_versions enc)\<rparr>"

definition retire_texture_versions :: "u64 list \<Rightarrow> 'v version_encoder \<Rightarrow> 'v version_encoder" where
  "retire_texture_versions order enc =
     (case drain_versions order (ve_versions enc) of
        (out, tv) \<Rightarrow> enc\<lparr>ve_versions := tv, ve_retained := ve_retained enc @ out\<rparr>)"

section \<open>Reclaiming only gives versions away\<close>

text \<open>
  What the pool's own housekeeping may do: it forgets textures, retired versions and spares, and it
  turns a retired version into a spare of the same texture and epoch that holds the writes the
  retired one held, or is of unknown contents.
\<close>

definition spare_from :: "'v texture_versions \<Rightarrow> u64 \<Rightarrow> 'v version_state \<Rightarrow> 'v spare \<Rightarrow> bool" where
  "spare_from tv tid state spare \<longleftrightarrow>
     spare \<in> set (st_spares state)
     \<or> (\<exists>e\<in>set (tv_retiring tv). rt_id e = tid \<and> rt_epoch e = st_epoch state \<and> sp_views spare = rt_views e
          \<and> (sp_held_writes spare = None \<or> sp_held_writes spare = Some (rt_held_writes e)))"

definition shrinks :: "'v texture_versions \<Rightarrow> 'v texture_versions \<Rightarrow> bool" where
  "shrinks tv tv' \<longleftrightarrow>
     tv_next_epoch tv' = tv_next_epoch tv \<and> set (tv_retiring tv') \<subseteq> set (tv_retiring tv)
     \<and> (\<forall>tid state'. tv_textures tv' tid = Some state' \<longrightarrow>
          (\<exists>state. tv_textures tv tid = Some state \<and> st_epoch state' = st_epoch state \<and> st_shape state' = st_shape state
             \<and> st_history state' = st_history state \<and> (\<forall>spare\<in>set (st_spares state'). spare_from tv tid state spare)))"

lemma shrinksD:
  "shrinks tv tv' \<Longrightarrow> tv_textures tv' tid = Some state' \<Longrightarrow>
     \<exists>state. tv_textures tv tid = Some state \<and> st_epoch state' = st_epoch state \<and> st_shape state' = st_shape state
       \<and> st_history state' = st_history state \<and> (\<forall>spare\<in>set (st_spares state'). spare_from tv tid state spare)"
  unfolding shrinks_def by blast

lemma shrinks_frame: "tv_textures tv' = tv_textures tv \<Longrightarrow> set (tv_retiring tv') \<subseteq> set (tv_retiring tv) \<Longrightarrow>
    tv_next_epoch tv' = tv_next_epoch tv \<Longrightarrow> shrinks tv tv'"
  by (auto simp: shrinks_def spare_from_def)

lemma shrinks_refl: "shrinks tv tv"
  by (rule shrinks_frame) auto

lemma spare_from_mono:
  assumes "spare_from tv2 tid s2 spare" "set (tv_retiring tv2) \<subseteq> set (tv_retiring tv1)" "st_epoch s2 = st_epoch s1"
    and "\<forall>spare\<in>set (st_spares s2). spare_from tv1 tid s1 spare"
  shows "spare_from tv1 tid s1 spare"
proof (cases "spare \<in> set (st_spares s2)")
  case False
  then obtain e where "e \<in> set (tv_retiring tv2)" "rt_id e = tid \<and> rt_epoch e = st_epoch s2 \<and> sp_views spare = rt_views e
      \<and> (sp_held_writes spare = None \<or> sp_held_writes spare = Some (rt_held_writes e))"
    using assms(1) unfolding spare_from_def by blast
  then show ?thesis using assms(2,3) unfolding spare_from_def by auto
qed (use assms(4) in blast)

lemma shrinks_trans:
  assumes "shrinks tv1 tv2" "shrinks tv2 tv3"
  shows "shrinks tv1 tv3"
  unfolding shrinks_def
proof (intro conjI allI impI)
  show "tv_next_epoch tv3 = tv_next_epoch tv1" "set (tv_retiring tv3) \<subseteq> set (tv_retiring tv1)"
    using assms by (auto simp: shrinks_def)
  fix tid s3 assume "tv_textures tv3 tid = Some s3"
  then obtain s2 where s2: "tv_textures tv2 tid = Some s2" "st_epoch s3 = st_epoch s2" "st_shape s3 = st_shape s2"
    "st_history s3 = st_history s2" "\<forall>spare\<in>set (st_spares s3). spare_from tv2 tid s2 spare"
    using shrinksD [OF assms(2)] by blast
  then obtain s1 where s1: "tv_textures tv1 tid = Some s1" "st_epoch s2 = st_epoch s1" "st_shape s2 = st_shape s1"
    "st_history s2 = st_history s1" "\<forall>spare\<in>set (st_spares s2). spare_from tv1 tid s1 spare"
    using shrinksD [OF assms(1)] by blast
  have "set (tv_retiring tv2) \<subseteq> set (tv_retiring tv1)" using assms(1) by (simp add: shrinks_def)
  then have "spare_from tv1 tid s1 spare" if "spare_from tv2 tid s2 spare" for spare
    using that s1(2,5) spare_from_mono by blast
  then have "\<forall>spare\<in>set (st_spares s3). spare_from tv1 tid s1 spare" using s2(5) by blast
  with s1(1-4) s2(2-4) show "\<exists>state. tv_textures tv1 tid = Some state \<and> st_epoch s3 = st_epoch state \<and> st_shape s3 = st_shape state
      \<and> st_history s3 = st_history state \<and> (\<forall>spare\<in>set (st_spares s3). spare_from tv1 tid state spare)" by simp
qed

lemma shrinks_spares:
  assumes "tv_textures tv tid = Some state" "set ss \<subseteq> set (st_spares state)"
    and "tv_textures tv' = (tv_textures tv)(tid \<mapsto> state\<lparr>st_spares := ss\<rparr>)" "tv_retiring tv' = tv_retiring tv \<or> tv_retiring tv' = []"
    "tv_next_epoch tv' = tv_next_epoch tv"
  shows "shrinks tv tv'"
  using assms by (auto simp: shrinks_def spare_from_def)

lemma shrinks_fold: "(\<And>tv x. shrinks tv (f tv x)) \<Longrightarrow> shrinks tv (foldl f tv xs)"
  by (induction xs arbitrary: tv) (auto intro: shrinks_refl shrinks_trans)

lemma shrinks_doom: "shrinks tv (doom v n tv)"
  by (rule shrinks_frame) (auto simp: doom_def)

lemma shrinks_doom_oldest: "shrinks tv (doom_oldest tid n tv)"
proof (cases "tv_textures tv tid")
  case (Some state)
  then show ?thesis
    by (rule shrinks_spares [of _ _ _ "drop n (st_spares state)"]) (auto simp: doom_oldest_def Some Let_def dest: in_set_dropD)
qed (simp add: doom_oldest_def shrinks_refl)

lemma shrinks_note_allocated: "shrinks tv (note_allocated order counted allocated tv)"
proof -
  have start: "shrinks tv (tv\<lparr>tv_relieve_bytes := r, tv_pressed := p\<rparr>)" for r p by (rule shrinks_frame) auto
  moreover have "shrinks tv1 (foldl (\<lambda>tv tid. doom_oldest tid (c tid) tv) tv1 counted)" for tv1 :: "'a texture_versions" and c
    by (rule shrinks_fold) (rule shrinks_doom_oldest)
  ultimately have "shrinks tv (foldl (\<lambda>tv tid. doom_oldest tid (c tid) tv) (tv\<lparr>tv_relieve_bytes := r, tv_pressed := p\<rparr>) counted)" for r p c
    by (rule shrinks_trans)
  then show ?thesis using start unfolding note_allocated_def Let_def by auto
qed

lemma shrinks_trim_texture: "shrinks tv (trim_texture now tv tid)"
  by (auto simp: trim_texture_def intro: shrinks_doom_oldest shrinks_frame split: option.split)

lemma shrinks_trim_entry: "shrinks tv (trim_entry now e tv)"
  by (auto simp: trim_entry_def shrinks_refl intro: shrinks_frame split: prod.split option.split)
    (auto simp: shrinks_def spare_from_def)

lemma trim_idle_rel:
  assumes "trim_idle now tv = Some tv'" and "\<And>tv. R tv tv" "\<And>a b c. R a b \<Longrightarrow> R b c \<Longrightarrow> R a c"
    and "\<And>tv r. R tv (tv\<lparr>tv_idle := r\<rparr>)" "\<And>tv now e. R tv (trim_entry now e tv)"
  shows "R tv tv'"
proof (rule trim_idle.raw_induct [OF _ assms(1)])
  fix f now' tv1 tv2
  assume IH: "\<And>now tv tv'. f now tv = Some tv' \<Longrightarrow> R tv tv'"
    and body: "(case tv_idle tv1 of [] \<Rightarrow> Some tv1 | entry # rest \<Rightarrow> if \<not> state_aged now' (fst entry) then Some tv1
      else f now' (trim_entry now' entry (tv1\<lparr>tv_idle := rest\<rparr>))) = Some tv2"
  show "R tv1 tv2"
  proof (cases "tv_idle tv1")
    case (Cons entry rest)
    have "R tv1 (trim_entry now' entry (tv1\<lparr>tv_idle := rest\<rparr>))" by (rule assms(3) [OF assms(4,5)])
    with body IH assms(2,3) show ?thesis by (auto simp: Cons split: if_splits)
  qed (use body assms(2) in simp)
qed

lemma shrinks_trim:
  assumes "trim order now tv = Some tv'"
  shows "shrinks tv tv'"
proof (rule shrinks_trans)
  show "shrinks tv (foldl (trim_texture now) tv order)" by (rule shrinks_fold) (rule shrinks_trim_texture)
  show "shrinks (foldl (trim_texture now) tv order) tv'"
  proof (rule trim_idle_rel [OF assms [unfolded trim_def]])
    show "shrinks t (t\<lparr>tv_idle := r\<rparr>)" for t :: "'a texture_versions" and r by (rule shrinks_frame) auto
  qed (rule shrinks_refl shrinks_trim_entry | erule (1) shrinks_trans)+
qed

lemma shrinks_park:
  assumes r: "tv_retiring tv = entry # rest"
  shows "shrinks tv (park entry failed now (tv\<lparr>tv_retiring := rest\<rparr>))"
proof -
  have pop: "shrinks tv (tv\<lparr>tv_retiring := rest\<rparr>)" by (rule shrinks_frame) (auto simp: r)
  show ?thesis
  proof (cases "tv_textures tv (rt_id entry)")
    case None
    then show ?thesis using shrinks_trans [OF pop shrinks_doom] by (simp add: park_def)
  next
    case (Some state)
    let ?parked = "\<lambda>spare p w. tv\<lparr>tv_retiring := rest, tv_parked_bytes := p, tv_with_spares := w,
      tv_textures := (tv_textures tv)(rt_id entry \<mapsto> state\<lparr>st_spares := st_spares state @ [spare]\<rparr>)\<rparr>"
    have "shrinks tv (?parked spare p w)"
      if "st_epoch state = rt_epoch entry" "sp_views spare = rt_views entry"
        "sp_held_writes spare = None \<or> sp_held_writes spare = Some (rt_held_writes entry)" for spare p w
      using that r Some by (auto simp: shrinks_def spare_from_def)
    then show ?thesis using Some shrinks_trans [OF pop shrinks_doom] by (auto simp: park_def Let_def)
  qed
qed

lemma shrinks_park_retired: "shrinks tv (park_retired settled failed now tv)"
proof (induction settled failed now tv rule: park_retired.induct)
  case (1 settled failed now tv)
  show ?case
  proof (cases "pop_retired settled tv")
    case None
    then show ?thesis by (simp add: park_retired.simps [of settled] shrinks_refl)
  next
    case (Some p)
    then obtain entry r where r: "tv_retiring tv = entry # r" and p: "pop_retired settled tv = Some (entry, tv\<lparr>tv_retiring := r\<rparr>)"
      by (auto simp: pop_retired_def split: list.splits if_splits)
    with shrinks_trans [OF shrinks_park [OF r] 1(1) [OF p refl]] show ?thesis by (simp add: park_retired.simps [of settled])
  qed
qed

lemma shrinks_take_doomed: "shrinks tv (snd (take_doomed tv))"
  by (rule shrinks_frame) (auto simp: take_doomed_def Let_def)

lemma shrinks_reclaim:
  assumes "reclaim_texture_versions order counted order' allocated settled failed now tv = Some (out, tv')"
  shows "shrinks tv tv'"
proof -
  obtain tv1 where "trim order' now (park_retired settled failed now (note_allocated order counted allocated tv)) = Some tv1"
    "tv' = snd (take_doomed tv1)" using assms by (auto simp: reclaim_texture_versions_def)
  then show ?thesis
    using shrinks_trans shrinks_note_allocated shrinks_park_retired shrinks_trim shrinks_take_doomed by metis
qed

lemma shrinks_forget: "shrinks tv (forget_texture tid tv)" "tv_textures (forget_texture tid tv) = (tv_textures tv)(tid := None)"
  by (cases "tv_textures tv tid"; auto simp: forget_texture_def shrinks_refl fold_doom shrinks_def spare_from_def)+

lemma shrinks_drain:
  assumes "finite (dom (tv_textures tv))"
  shows "shrinks tv (snd (drain_versions order tv))"
proof -
  let ?tv0 = "tv\<lparr>tv_retiring := [], tv_doomed := [], tv_doomed_bytes := 0, tv_doomed_since_take := 0,
    tv_doomed_arrivals := replicate DESTROY_SPREAD_DRAINS 0, tv_with_spares := {}\<rparr>"
  obtain out tv1 where fold: "foldl drain_texture (map rt_views (tv_retiring tv) @ map fst (tv_doomed tv), ?tv0) order = (out, tv1)"
    by fastforce
  have "drained (set order) ?tv0 tv1" using drain_fold [OF _ fold] assms by simp
  then have t: "tv_textures tv1 tid = (if tid \<in> set order then map_option (st_spares_update (\<lambda>_. [])) (tv_textures tv tid) else tv_textures tv tid)"
    and e: "tv1 = ?tv0\<lparr>tv_textures := tv_textures tv1\<rparr>" for tid
    by (simp_all add: drained_def)
  have "tv_next_epoch tv1 = tv_next_epoch tv" "tv_retiring tv1 = []" by (subst e, simp)+
  then show ?thesis using t by (auto simp: drain_versions_def fold shrinks_def spare_from_def split: if_splits)
qed

section \<open>Contents of versions\<close>

text \<open>
  The contents of every version, as images, beside the encoder's state, and per texture the writes
  its history has heard of since it was tracked. A queued copy takes effect in stream order.
\<close>

type_synonym 'c texel_image = "u32 \<Rightarrow> u32 \<Rightarrow> nat \<Rightarrow> nat \<Rightarrow> 'c"

type_synonym ('v, 'c) version_world = "'v version_encoder \<times> ('v \<Rightarrow> 'c texel_image) \<times> (u64 \<Rightarrow> write_event list)"

definition in_level :: "version_shape \<Rightarrow> u32 \<Rightarrow> u32 \<Rightarrow> nat \<Rightarrow> nat \<Rightarrow> bool" where
  "in_level shape face level x y \<longleftrightarrow> face < shape_slices shape \<and> level < vs_levels shape
     \<and> x < unat (level_extent (vs_width shape) level) \<and> y < unat (level_extent (vs_height shape) level)"

definition exec_copy :: "('v \<Rightarrow> 'c texel_image) \<Rightarrow> bool \<times> 'v \<times> 'v \<times> preserve_copy \<Rightarrow> 'v \<Rightarrow> 'c texel_image" where
  "exec_copy ct copy = (case copy of (_, src, dst, c) \<Rightarrow>
     ct(dst := \<lambda>face level x y. if copies_texel c face level x y then ct src face level x y else ct dst face level x y))"

definition new_copies :: "'v version_encoder \<Rightarrow> 'v version_encoder \<Rightarrow> (bool \<times> 'v \<times> 'v \<times> preserve_copy) list" where
  "new_copies enc enc' = drop (length (ve_copies enc)) (ve_copies enc')"

lemma exec_plan:
  assumes "src \<noteq> dst"
  shows "foldl exec_copy ct (map (\<lambda>c. (ordered, src, dst, c)) plan) = ct(dst := run_copies plan (ct src) (ct dst))"
  using assms
proof (induction plan arbitrary: ct)
  case (Cons c plan)
  then show ?case by (auto simp: exec_copy_def run_copies_def fun_eq_iff)
qed (auto simp: run_copies_def fun_eq_iff)

text \<open>
  A version that held the first \<open>n\<close> writes agrees with the live one wherever no later write touched,
  outside the subresources \<open>ex\<close> whose rewriting is pending.
\<close>

definition agrees ::
  "(u32 \<Rightarrow> u32 \<Rightarrow> bool) \<Rightarrow> version_shape \<Rightarrow> write_event list \<Rightarrow> u64 \<Rightarrow> 'c texel_image \<Rightarrow> 'c texel_image \<Rightarrow> bool"
where
  "agrees ex shape log n old live \<longleftrightarrow> unat n \<le> length log \<and>
     (\<forall>face level x y. in_level shape face level x y \<longrightarrow> \<not> ex face level \<longrightarrow>
        \<not> list_ex (\<lambda>ev. touches ev face level x y) (drop (unat n) log) \<longrightarrow> old face level x y = live face level x y)"

definition state_ok ::
  "(u64 \<Rightarrow> texture_create_desc) \<Rightarrow> (u64 \<Rightarrow> u32 \<Rightarrow> u32 \<Rightarrow> bool) \<Rightarrow> ('v, 'c) version_world \<Rightarrow> u64 \<Rightarrow> 'v version_state \<Rightarrow> bool"
where
  "state_ok desc_of ex w tid state =
     (case w of (enc, ct, log) \<Rightarrow>
        0 < st_epoch state \<and> st_epoch state < tv_next_epoch (ve_versions enc) \<and> st_shape state = shape_of (desc_of tid)
        \<and> (\<forall>h. st_history state = Some h \<longrightarrow>
             \<not> has_flag (vs_flags (st_shape state)) TEX_TYPE_3D \<and> length (log tid) < 2 ^ 64
             \<and> fold history_event (log tid) (Some (history_new (st_shape state))) = Some h)
        \<and> (case ve_cache enc tid of
             None \<Rightarrow> st_spares state = []
               \<and> (\<forall>e\<in>set (tv_retiring (ve_versions enc)). \<not> (rt_id e = tid \<and> rt_epoch e = st_epoch state))
           | Some live \<Rightarrow> st_history state \<noteq> None \<longrightarrow>
               (\<forall>spare\<in>set (st_spares state). \<forall>n. sp_held_writes spare = Some n \<longrightarrow>
                  agrees (ex tid) (st_shape state) (log tid) n (ct (sp_views spare)) (ct live))
               \<and> (\<forall>e\<in>set (tv_retiring (ve_versions enc)). rt_id e = tid \<and> rt_epoch e = st_epoch state \<longrightarrow>
                    agrees (ex tid) (st_shape state) (log tid) (rt_held_writes e) (ct (rt_views e)) (ct live))))"

definition world_ok ::
  "(u64 \<Rightarrow> texture_create_desc) \<Rightarrow> (u64 \<Rightarrow> u32 \<Rightarrow> u32 \<Rightarrow> bool) \<Rightarrow> ('v, 'c) version_world \<Rightarrow> bool"
where
  "world_ok desc_of ex w =
     (case w of (enc, ct, log) \<Rightarrow>
        pool_ok (ve_versions enc) \<and> (\<forall>v. count (pool_views (ve_versions enc)) v \<le> 1)
        \<and> (\<forall>a b v. ve_cache enc a = Some v \<longrightarrow> ve_cache enc b = Some v \<longrightarrow> a = b)
        \<and> (\<forall>a v. ve_cache enc a = Some v \<longrightarrow> v \<notin># pool_views (ve_versions enc))
        \<and> 0 < tv_next_epoch (ve_versions enc)
        \<and> (\<forall>e\<in>set (tv_retiring (ve_versions enc)). rt_epoch e < tv_next_epoch (ve_versions enc))
        \<and> (\<forall>tid state. tv_textures (ve_versions enc) tid = Some state \<longrightarrow> state_ok desc_of ex w tid state))"

lemma state_ok_spare:
  assumes "state_ok desc_of ex (enc, ct, log) tid state" "ve_cache enc tid = Some live" "st_history state \<noteq> None"
    and "spare_from (ve_versions enc) tid state spare" "sp_held_writes spare = Some n"
  shows "agrees (ex tid) (st_shape state) (log tid) n (ct (sp_views spare)) (ct live)"
  using assms by (auto simp: state_ok_def spare_from_def)

text \<open>Housekeeping keeps the invariant.\<close>

lemma shrunk_world_ok:
  assumes w: "world_ok desc_of ex (enc, ct, log)" and sh: "shrinks (ve_versions enc) tv" and ok: "pool_ok tv"
    and views: "pool_views tv \<subseteq># pool_views (ve_versions enc)"
    and cache: "\<And>a v. cache a = Some v \<Longrightarrow> ve_cache enc a = Some v"
      "\<And>a. cache a = None \<Longrightarrow> ve_cache enc a = None \<or> tv_textures tv a = None"
    and enc': "ve_versions enc' = tv" "ve_cache enc' = cache"
  shows "world_ok desc_of ex (enc', ct, log)"
proof -
  have sub: "set (tv_retiring tv) \<subseteq> set (tv_retiring (ve_versions enc))" "tv_next_epoch tv = tv_next_epoch (ve_versions enc)"
    using sh by (auto simp: shrinks_def)
  have st: "state_ok desc_of ex (enc', ct, log) tid state'" if t: "tv_textures tv tid = Some state'" for tid state'
  proof -
    obtain state where s: "tv_textures (ve_versions enc) tid = Some state" "st_epoch state' = st_epoch state"
      "st_shape state' = st_shape state" "st_history state' = st_history state"
      "\<forall>spare\<in>set (st_spares state'). spare_from (ve_versions enc) tid state spare"
      using shrinksD [OF sh t] by blast
    then have old: "state_ok desc_of ex (enc, ct, log) tid state" using w by (simp add: world_ok_def)
    show ?thesis
    proof (cases "cache tid")
      case None
      then have none: "ve_cache enc tid = None" using cache(2) [of tid] t by simp
      then have "st_spares state = []" "\<forall>e\<in>set (tv_retiring (ve_versions enc)). \<not> (rt_id e = tid \<and> rt_epoch e = st_epoch state)"
        using old by (auto simp: state_ok_def)
      moreover from this have "spare \<notin> set (st_spares state')" for spare
        using s(5) unfolding spare_from_def by auto
      then have "st_spares state' = []" by (metis list.set_intros(1) neq_Nil_conv)
      ultimately show ?thesis using old none None s sub by (auto simp: state_ok_def enc')
    next
      case (Some live)
      then have live: "ve_cache enc tid = Some live" by (rule cache(1))
      show ?thesis
        using old live Some s(2-4) sub s(5) state_ok_spare [OF old live]
        by (auto simp: state_ok_def enc')
    qed
  qed
  have "count (pool_views tv) v \<le> 1" for v
    using mset_subset_eq_count [OF views, of v] w by (auto simp: world_ok_def intro: order_trans)
  moreover have "v \<notin># pool_views tv" if "cache a = Some v" for a v
    using cache(1) [OF that] w views by (auto simp: world_ok_def dest: mset_subset_eqD)
  moreover have "a = b" if "cache a = Some v" "cache b = Some v" for a b v
    using cache(1) [OF that(1)] cache(1) [OF that(2)] w by (auto simp: world_ok_def)
  ultimately show ?thesis using w sub st ok by (auto simp: world_ok_def enc')
qed

lemma pool_members:
  assumes "pool_ok tv"
  shows "tv_textures tv tid = Some state \<Longrightarrow> spare \<in> set (st_spares state) \<Longrightarrow> sp_views spare \<in># pool_views tv"
    "e \<in> set (tv_retiring tv) \<Longrightarrow> rt_views e \<in># pool_views tv"
proof -
  have fin: "finite (dom (tv_textures tv))" using assms by (simp add: pool_ok_def)
  show "sp_views spare \<in># pool_views tv" if "tv_textures tv tid = Some state" "spare \<in> set (st_spares state)"
    using sum_map_without [OF fin, of spare_views tid] that by (auto simp: pool_views_def)
  show "rt_views e \<in># pool_views tv" if "e \<in> set (tv_retiring tv)" using that by (auto simp: pool_views_def)
qed

lemma map_history_facts:
  "tv_retiring (map_history f tid tv) = tv_retiring tv" "tv_next_epoch (map_history f tid tv) = tv_next_epoch tv"
  "tv_textures (map_history f tid tv) = (\<lambda>t. if t = tid then map_option (\<lambda>state. state\<lparr>st_history := f (st_history state)\<rparr>) (tv_textures tv t)
     else tv_textures tv t)"
  by (auto simp: map_history_def fun_eq_iff split: option.split)

lemma agrees_later:
  assumes "agrees ex shape log n old live"
    and "\<And>f l x y. in_level shape f l x y \<Longrightarrow> \<not> ex' f l \<Longrightarrow> \<not> list_ex (\<lambda>ev. touches ev f l x y) evs \<Longrightarrow>
       \<not> ex f l \<and> live' f l x y = live f l x y"
  shows "agrees ex' shape (log @ evs) n old live'"
  using assms unfolding agrees_def by (auto simp: list_ex_append)

text \<open>Writes the history hears of keep the invariant; one that covers a pending subresource settles it.\<close>

lemma written_world_ok:
  assumes w: "world_ok desc_of ex (enc, ct, log)"
    and enc': "ve_versions enc' = map_history (fold history_event evs) tid (ve_versions enc)" "ve_cache enc' = ve_cache enc"
    and room: "length (log tid) + length evs < 2 ^ 64"
    and ct': "\<And>v f l x y. ve_cache enc tid \<noteq> Some v \<or> \<not> list_ex (\<lambda>ev. touches ev f l x y) evs \<Longrightarrow> ct' v f l x y = ct v f l x y"
    and ex': "\<And>t f l. ex t f l \<Longrightarrow> \<not> ex' t f l \<Longrightarrow>
       t = tid \<and> (\<forall>x y. in_level (shape_of (desc_of tid)) f l x y \<longrightarrow> list_ex (\<lambda>ev. touches ev f l x y) evs)"
  shows "world_ok desc_of ex' (enc', ct', log(tid := log tid @ evs))"
proof -
  let ?tv = "ve_versions enc"
  have pok: "pool_ok ?tv" and inj: "\<And>a b v. ve_cache enc a = Some v \<Longrightarrow> ve_cache enc b = Some v \<Longrightarrow> a = b"
    and out: "\<And>a v. ve_cache enc a = Some v \<Longrightarrow> v \<notin># pool_views ?tv" using w unfolding world_ok_def by blast+
  have pool_same: "ct' v = ct v" if "v \<in># pool_views ?tv" for v
    using ct' out that by (intro ext) blast
  have live_same: "ct' v = ct v" if "ve_cache enc t = Some v" "t \<noteq> tid" for t v
    using ct' inj that by (intro ext) blast
  have st: "state_ok desc_of ex' (enc', ct', log(tid := log tid @ evs)) t state'"
    if t: "tv_textures (ve_versions enc') t = Some state'" for t state'
  proof -
    define f where "f = (if t = tid then fold history_event evs else (\<lambda>h. h))"
    obtain state where s: "tv_textures ?tv t = Some state" "state' = state\<lparr>st_history := f (st_history state)\<rparr>"
      using t by (auto simp: enc' map_history_facts f_def split: if_splits)
    then have old: "state_ok desc_of ex (enc, ct, log) t state" using w by (simp add: world_ok_def)
    have shape: "st_shape state = shape_of (desc_of t)" using old by (simp add: state_ok_def)
    have hist: "\<exists>h0. st_history state = Some h0" if "st_history state' = Some h" for h
      using that by (cases "st_history state") (auto simp: s(2) f_def history_event_None split: if_splits)
    have later: "agrees (ex' t) (st_shape state) ((log(tid := log tid @ evs)) t) n (ct' v) (ct' live)"
      if "agrees (ex t) (st_shape state) (log t) n (ct v) (ct live)" "v \<in># pool_views ?tv" "ve_cache enc t = Some live" for n v live
    proof (cases "t = tid")
      case True
      have "\<not> ex tid f l \<and> ct' live f l x y = ct live f l x y"
        if "in_level (st_shape state) f l x y" "\<not> ex' tid f l" "\<not> list_ex (\<lambda>ev. touches ev f l x y) evs" for f l x y
        using ex' [of tid f l] ct' [of live f l x y] that shape True by auto
      with agrees_later [OF that(1)] True pool_same [OF that(2)] show ?thesis by auto
    next
      case False
      then have "ct' live = ct live" using live_same [OF that(3)] by simp
      then show ?thesis using agrees_later [OF that(1), of "ex' t" "[]" "ct live"] ex' False pool_same [OF that(2)] by auto
    qed
    show ?thesis
      using old hist later s(2) room pool_members [OF pok] s(1)
      by (auto simp: state_ok_def enc' map_history_facts f_def split: option.splits)
  qed
  have "pool_ok (ve_versions enc')" "pool_views (ve_versions enc') = pool_views ?tv" using map_history_ok [OF pok] by (auto simp: enc')
  with w st show ?thesis by (auto simp: world_ok_def enc' map_history_facts)
qed

section \<open>A rename keeps the contents\<close>

lemma plan_without_history: "plan_subresource None held fp f l = plan_subresource None None fp f l"
  by (cases held) (auto simp: plan_subresource_def)

lemma known_spare_whole:
  assumes bd: "shape_bounded shape" and log: "fold history_event log (Some (history_new shape)) = Some h" "length log < 2 ^ 64"
    and ag: "agrees (\<lambda>_ _. False) shape log n spare live" and il: "in_level shape f l x y"
    and fp: "\<not> (f = uf_slice fp \<and> l = uf_level fp \<and> uf_full_cover fp)"
  shows "run_copies (history_plan (Some h) shape (Some n) fp) live spare f l x y = live f l x y"
proof -
  have n: "unat n \<le> length log" using ag by (simp add: agrees_def)
  have split: "log = take (unat n) log @ drop (unat n) log" by simp
  obtain h0 where h0: "fold history_event (take (unat n) log) (Some (history_new shape)) = Some h0"
  proof (cases "fold history_event (take (unat n) log) (Some (history_new shape))")
    case None
    with log(1) have False by (subst (asm) split, simp only: fold_append comp_def history_event_None) simp
    then show ?thesis ..
  qed
  have rest: "fold history_event (drop (unat n) log) (Some h0) = Some h"
    using log(1) h0 by (subst (asm) split, simp only: fold_append comp_def)
  have w0: "unat (wh_writes (history_new shape)) = 0" by (simp add: history_new_def)
  have "unat (wh_writes h0) = length (take (unat n) log)"
    using history_fold [OF history_new_ok [OF bd] bd h0] log(2) w0 by simp
  then have "wh_writes h0 = n" using n by (simp add: word_unat_eq_iff)
  moreover have "length (take (unat n) log) + length (drop (unat n) log) < 2 ^ 64" using log(2) n by simp
  ultimately show ?thesis
    using known_version_whole [OF bd h0 rest, of f l x y fp spare live] il fp ag
    by (auto simp: in_level_def agrees_def)
qed

abbreviation settled_world :: "(u64 \<Rightarrow> texture_create_desc) \<Rightarrow> ('v, 'c) version_world \<Rightarrow> bool" where
  "settled_world desc_of w \<equiv> world_ok desc_of (\<lambda>_ _ _. False) w"

text \<open>A version of its own: neither live nor in the pool.\<close>

definition unowned :: "'v \<Rightarrow> 'v version_encoder \<Rightarrow> bool" where
  "unowned v enc \<longleftrightarrow> v \<notin># pool_views (ve_versions enc) \<and> (\<forall>a. ve_cache enc a \<noteq> Some v)"

text \<open>The log of a texture starts over when the rename starts tracking it.\<close>

definition rename_log :: "u64 \<Rightarrow> 'v version_encoder \<Rightarrow> (u64 \<Rightarrow> write_event list) \<Rightarrow> u64 \<Rightarrow> write_event list" where
  "rename_log tid enc log = (if tv_textures (ve_versions enc) tid = None then log(tid := []) else log)"

lemma take_tracked_world:
  assumes w: "settled_world desc_of (enc, ct, log)" and st: "tv_textures (ve_versions enc) tid = Some state"
    and take: "take_spare tid (shape_of (desc_of tid)) records seq (ve_versions enc) = (spare, tv)"
  shows "settled_world desc_of (enc\<lparr>ve_versions := tv\<rparr>, ct, log)"
    "tv_textures tv tid = Some (state\<lparr>st_last_rename_seq := seq, st_spares := butlast (st_spares state)\<rparr>)"
    "spare = Some s \<Longrightarrow> unowned (sp_views s) (enc\<lparr>ve_versions := tv\<rparr>) \<and> s \<in> set (st_spares state)"
proof -
  have ok: "pool_ok (ve_versions enc)" and shape: "st_shape state = shape_of (desc_of tid)"
    using w st by (auto simp: world_ok_def state_ok_def)
  have t: "tv_textures tv = (tv_textures (ve_versions enc))(tid \<mapsto> state\<lparr>st_last_rename_seq := seq, st_spares := butlast (st_spares state)\<rparr>)"
    "tv_retiring tv = tv_retiring (ve_versions enc)" "tv_next_epoch tv = tv_next_epoch (ve_versions enc)"
    "spare = (if st_spares state = [] then None else Some (last (st_spares state)))"
    using take st shape by (auto simp: take_spare_def rename_state_def Let_def)
  then show "tv_textures tv tid = Some (state\<lparr>st_last_rename_seq := seq, st_spares := butlast (st_spares state)\<rparr>)" by simp
  have "shrinks (ve_versions enc) tv"
    using t st by (auto simp: shrinks_def spare_from_def dest: in_set_butlastD)
  moreover have views: "pool_ok tv \<and> pool_views (ve_versions enc) = pool_views tv + opt_views spare"
    by (rule take_spare_same [OF ok st shape take])
  ultimately show "settled_world desc_of (enc\<lparr>ve_versions := tv\<rparr>, ct, log)"
    by (intro shrunk_world_ok [OF w, where cache = "ve_cache enc"]) auto
  show "unowned (sp_views s) (enc\<lparr>ve_versions := tv\<rparr>) \<and> s \<in> set (st_spares state)" if s: "spare = Some s"
  proof -
    have add: "pool_views (ve_versions enc) = add_mset (sp_views s) (pool_views tv)" using views s by simp
    have "count (pool_views (ve_versions enc)) (sp_views s) \<le> 1" using w unfolding world_ok_def by blast
    then have "sp_views s \<notin># pool_views tv" by (simp add: add not_in_iff)
    moreover have "ve_cache enc a \<noteq> Some (sp_views s)" for a
      using w unfolding world_ok_def by (auto simp: add)
    ultimately show ?thesis using s t(4) by (auto simp: unowned_def split: if_splits)
  qed
qed

lemma take_new_world:
  assumes w: "settled_world desc_of (enc, ct, log)" and st: "tv_textures (ve_versions enc) tid = None"
    and take: "take_spare tid (shape_of (desc_of tid)) (records_every_write (desc_of tid) usage) seq (ve_versions enc) = (spare, tv)"
    and small: "unat (shape_bytes (shape_of (desc_of tid))) < 2 ^ 63" "unat (tv_next_epoch (ve_versions enc)) + 1 < 2 ^ 64"
  shows "settled_world desc_of (enc\<lparr>ve_versions := tv\<rparr>, ct, log(tid := []))"
    "\<exists>state. tv_textures tv tid = Some state \<and> st_spares state = []" "spare = None"
proof -
  let ?epoch = "tv_next_epoch (ve_versions enc)"
  let ?state = "(state_new (shape_of (desc_of tid)) ?epoch (records_every_write (desc_of tid) usage))\<lparr>st_last_rename_seq := seq, st_spares := []\<rparr>"
  have ok: "pool_ok (ve_versions enc)" using w by (simp add: world_ok_def)
  have t: "tv_textures tv = (tv_textures (ve_versions enc))(tid \<mapsto> ?state)"
    "tv_retiring tv = tv_retiring (ve_versions enc)" "tv_next_epoch tv = ?epoch + 1" and none: "spare = None"
    using take st by (auto simp: take_spare_def rename_state_def start_state_def state_new_def Let_def)
  show "spare = None" by (rule none)
  show "\<exists>state. tv_textures tv tid = Some state \<and> st_spares state = []" by (simp add: t)
  have views: "pool_ok tv \<and> pool_views (ve_versions enc) = pool_views tv"
    using take_spare_new [OF ok small(1) _ take] st none by simp
  have up: "?epoch < ?epoch + 1" "0 < ?epoch + 1" using small(2) by (auto simp: word_less_nat_alt unat_add_no_overflow)
  have ret: "\<forall>e\<in>set (tv_retiring (ve_versions enc)). rt_epoch e < ?epoch" using w by (simp add: world_ok_def)
  have "state_ok desc_of (\<lambda>_ _ _. False) (enc\<lparr>ve_versions := tv\<rparr>, ct, log(tid := [])) t state'"
    if s: "tv_textures tv t = Some state'" for t state'
  proof (cases "t = tid")
    case True
    then have "state' = ?state" using s by (simp add: t)
    moreover have "0 < ?epoch" using w by (simp add: world_ok_def)
    moreover have "\<not> has_flag (vs_flags (shape_of (desc_of tid))) TEX_TYPE_3D" if "records_every_write (desc_of tid) usage"
      using that by (simp add: records_every_write_def shape_of_def)
    ultimately show ?thesis
      using True up ret by (auto simp: state_ok_def state_new_def t split: option.split)
  next
    case False
    then have "state_ok desc_of (\<lambda>_ _ _. False) (enc, ct, log) t state'" using s w by (auto simp: t world_ok_def)
    with False up show ?thesis by (auto simp: state_ok_def t split: option.splits)
  qed
  with w views up ret show "settled_world desc_of (enc\<lparr>ve_versions := tv\<rparr>, ct, log(tid := []))"
    by (auto simp: world_ok_def t)
qed

text \<open>Making a version live that equals the old one outside \<open>pending\<close>, and retiring the old one.\<close>

lemma retired_world:
  assumes w: "settled_world desc_of (enc, ct, log)" and st: "tv_textures (ve_versions enc) tid = Some state"
    and live: "ve_cache enc tid = Some old" and fresh: "unowned d enc" and bd: "shape_bounded (shape_of (desc_of tid))"
    and img: "\<And>f l x y. in_level (shape_of (desc_of tid)) f l x y \<Longrightarrow> \<not> pending f l \<Longrightarrow> img f l x y = ct old f l x y"
    and enc': "ve_versions enc' = retire tid old seq (ve_versions enc)" "ve_cache enc' = (ve_cache enc)(tid \<mapsto> d)"
  shows "world_ok desc_of (\<lambda>t f l. t = tid \<and> pending f l) (enc', ct(d := img), log)"
proof -
  let ?tv = "ve_versions enc" and ?ex = "\<lambda>t f l. t = tid \<and> pending f l"
  have pok: "pool_ok ?tv" and out: "\<And>a v. ve_cache enc a = Some v \<Longrightarrow> v \<notin># pool_views ?tv"
    and inj: "\<And>a b v. ve_cache enc a = Some v \<Longrightarrow> ve_cache enc b = Some v \<Longrightarrow> a = b"
    and one: "\<And>v. count (pool_views ?tv) v \<le> 1" using w unfolding world_ok_def by blast+
  have d: "d \<notin># pool_views ?tv" "\<And>a. ve_cache enc a \<noteq> Some d" using fresh by (auto simp: unowned_def)
  have "d \<noteq> old" using d(2) live by auto
  define entry where "entry = \<lparr>rt_id = tid, rt_views = old, rt_seq = seq, rt_epoch = st_epoch state, rt_birth_seq = st_live_birth_seq state,
    rt_held_writes = (case st_history state of None \<Rightarrow> 0 | Some h \<Rightarrow> wh_writes h), rt_bytes = st_bytes state\<rparr>"
  have t: "tv_textures (ve_versions enc') = (tv_textures ?tv)(tid \<mapsto> state\<lparr>st_live_birth_seq := seq\<rparr>)"
    "tv_retiring (ve_versions enc') = tv_retiring ?tv @ [entry]" "tv_next_epoch (ve_versions enc') = tv_next_epoch ?tv"
    using st by (simp_all add: enc' retire_def entry_def)
  have sok: "state_ok desc_of (\<lambda>_ _ _. False) (enc, ct, log) t s" if "tv_textures ?tv t = Some s" for t s
    using w that by (simp add: world_ok_def)
  have same: "(ct(d := img)) v = ct v" if "v \<in># pool_views ?tv" for v using that d by auto
  have moved: "agrees (?ex tid) (st_shape state) (log tid) n (ct v) img"
    if "agrees (\<lambda>_. \<lambda>_. False) (st_shape state) (log tid) n (ct v) (ct old)" for n v
    using that img sok [OF st] unfolding agrees_def by (auto simp: state_ok_def)
  have entry_ok: "agrees (?ex tid) (st_shape state) (log tid) (rt_held_writes entry) (ct old) img" if known: "st_history state \<noteq> None"
  proof -
    obtain h where h: "st_history state = Some h" using known by blast
    then have f: "fold history_event (log tid) (Some (history_new (st_shape state))) = Some h" "length (log tid) < 2 ^ 64"
      "st_shape state = shape_of (desc_of tid)" using sok [OF st] by (auto simp: state_ok_def)
    have "unat (wh_writes h) = length (log tid)"
      using history_fold [OF history_new_ok [OF bd] bd f(1) [unfolded f(3)]] f(2) by (simp add: history_new_def)
    then show ?thesis using img f(3) by (simp add: agrees_def entry_def h)
  qed
  have states: "state_ok desc_of ?ex (enc', ct(d := img), log) t s'" if s': "tv_textures (ve_versions enc') t = Some s'" for t s'
  proof (cases "t = tid")
    case True
    then have "s' = state\<lparr>st_live_birth_seq := seq\<rparr>" using s' by (simp add: t)
    then show ?thesis
      using True sok [OF st] live moved entry_ok same pool_members [OF pok] st \<open>d \<noteq> old\<close>
      by (auto simp: state_ok_def t enc'(2) entry_def)
  next
    case False
    then have s: "tv_textures ?tv t = Some s'" using s' by (simp add: t)
    have "(ct(d := img)) v = ct v" if "ve_cache enc t = Some v" for v using that d by auto
    then show ?thesis
      using False sok [OF s] same pool_members [OF pok] s
      by (auto simp: state_ok_def t enc'(2) entry_def agrees_def split: option.splits)
  qed
  have pool': "pool_ok (ve_versions enc')" "pool_views (ve_versions enc') = add_mset old (pool_views ?tv)"
    using retire_ok [OF pok] by (auto simp: enc')
  have "count (pool_views (ve_versions enc')) v \<le> 1" for v
    using one [of v] out [OF live] by (auto simp: pool' not_in_iff)
  moreover have "v \<notin># pool_views (ve_versions enc')" if "ve_cache enc' a = Some v" for a v
    using that d out inj [OF live] \<open>d \<noteq> old\<close> by (auto simp: pool' enc'(2) split: if_splits)
  moreover have "a = b" if "ve_cache enc' a = Some v" "ve_cache enc' b = Some v" for a b v
    using that d inj by (auto simp: enc' split: if_splits)
  moreover have "rt_epoch e < tv_next_epoch ?tv" if "e \<in> set (tv_retiring ?tv @ [entry])" for e
    using that w sok [OF st] by (auto simp: world_ok_def state_ok_def entry_def)
  moreover have "0 < tv_next_epoch ?tv" using w by (simp add: world_ok_def)
  ultimately show ?thesis unfolding world_ok_def using pool'(1) states t by auto
qed

lemma take_world:
  assumes w: "settled_world desc_of (enc, ct, log)" and live: "ve_cache enc tid = Some live"
    and take: "take_spare tid (shape_of (desc_of tid)) (records_every_write (desc_of tid) usage) seq (ve_versions enc) = (spare, tv)"
    and small: "unat (shape_bytes (shape_of (desc_of tid))) < 2 ^ 63" "unat (tv_next_epoch (ve_versions enc)) + 1 < 2 ^ 64"
  shows "settled_world desc_of (enc\<lparr>ve_versions := tv\<rparr>, ct, rename_log tid enc log)"
    "\<exists>state. tv_textures tv tid = Some state \<and>
       (\<forall>s n. spare = Some s \<longrightarrow> sp_held_writes s = Some n \<longrightarrow> st_history state \<noteq> None \<longrightarrow>
          agrees (\<lambda>_ _. False) (shape_of (desc_of tid)) (rename_log tid enc log tid) n (ct (sp_views s)) (ct live))"
    "spare = Some s \<Longrightarrow> unowned (sp_views s) (enc\<lparr>ve_versions := tv\<rparr>)"
    "unowned v enc \<Longrightarrow> unowned v (enc\<lparr>ve_versions := tv\<rparr>)"
proof -
  have ok: "pool_ok (ve_versions enc)" using w by (simp add: world_ok_def)
  have "pool_views tv \<subseteq># pool_views (ve_versions enc)" using take_spare_ok [OF ok small(1) take] by simp
  then show "unowned v enc \<Longrightarrow> unowned v (enc\<lparr>ve_versions := tv\<rparr>)" by (auto simp: unowned_def dest: mset_subset_eqD)
  have "settled_world desc_of (enc\<lparr>ve_versions := tv\<rparr>, ct, rename_log tid enc log)
    \<and> (\<exists>state. tv_textures tv tid = Some state \<and>
       (\<forall>s n. spare = Some s \<longrightarrow> sp_held_writes s = Some n \<longrightarrow> st_history state \<noteq> None \<longrightarrow>
          agrees (\<lambda>_ _. False) (shape_of (desc_of tid)) (rename_log tid enc log tid) n (ct (sp_views s)) (ct live)))
    \<and> (\<forall>s. spare = Some s \<longrightarrow> unowned (sp_views s) (enc\<lparr>ve_versions := tv\<rparr>))"
  proof (cases "tv_textures (ve_versions enc) tid")
    case None
    with take_new_world [OF w None take small] show ?thesis by (auto simp: rename_log_def)
  next
    case (Some state)
    have sok: "state_ok desc_of (\<lambda>_ _ _. False) (enc, ct, log) tid state" using w Some by (simp add: world_ok_def)
    note t = take_tracked_world [OF w Some take]
    have "agrees (\<lambda>_ _. False) (shape_of (desc_of tid)) (log tid) n (ct (sp_views s)) (ct live)"
      if "spare = Some s" "sp_held_writes s = Some n" "st_history state \<noteq> None" for s n
      using t(3) [OF that(1)] that sok live by (auto simp: state_ok_def)
    then show ?thesis using t Some by (auto simp: rename_log_def)
  qed
  then show "settled_world desc_of (enc\<lparr>ve_versions := tv\<rparr>, ct, rename_log tid enc log)"
    "\<exists>state. tv_textures tv tid = Some state \<and>
       (\<forall>s n. spare = Some s \<longrightarrow> sp_held_writes s = Some n \<longrightarrow> st_history state \<noteq> None \<longrightarrow>
          agrees (\<lambda>_ _. False) (shape_of (desc_of tid)) (rename_log tid enc log tid) n (ct (sp_views s)) (ct live))"
    "spare = Some s \<Longrightarrow> unowned (sp_views s) (enc\<lparr>ve_versions := tv\<rparr>)" by blast+
qed

text \<open>The subresource a full-cover upload is about to rewrite.\<close>

definition pending_of :: "upload_job \<Rightarrow> u32 \<Rightarrow> u32 \<Rightarrow> bool" where
  "pending_of job face level \<longleftrightarrow> face = uj_slice job \<and> level = uj_level job \<and> full_cover job"

definition may_upload :: "(u64 \<Rightarrow> texture_create_desc) \<Rightarrow> upload_job \<Rightarrow> 'v version_encoder \<Rightarrow> bool" where
  "may_upload desc_of job enc \<longleftrightarrow> uj_desc job = desc_of (uj_id job) \<and> shape_bounded (job_shape job)
     \<and> unat (shape_bytes (job_shape job)) < 2 ^ 63 \<and> unat (tv_next_epoch (ve_versions enc)) + 1 < 2 ^ 64"

lemma chosen_version_whole:
  assumes bd: "shape_bounded (shape_of (desc_of (uj_id job)))"
    and sok: "state_ok desc_of (\<lambda>_ _ _. False) (enc, ct, log) (uj_id job) state" and state: "tv_textures tv (uj_id job) = Some state"
    and held: "\<And>n. held = Some n \<Longrightarrow> st_history state \<noteq> None \<Longrightarrow>
      agrees (\<lambda>_ _. False) (shape_of (desc_of (uj_id job))) (log (uj_id job)) n new live"
    and desc: "uj_desc job = desc_of (uj_id job)"
    and il: "in_level (shape_of (desc_of (uj_id job))) f l x y" and np: "\<not> pending_of job f l"
  shows "run_copies (preserve_plan tv (uj_id job) (job_shape job) held (job_footprint job)) live new f l x y = live f l x y"
proof -
  have fp: "\<not> (f = uf_slice (job_footprint job) \<and> l = uf_level (job_footprint job) \<and> uf_full_cover (job_footprint job))"
    using np by (auto simp: pending_of_def job_footprint_def)
  have plan: "preserve_plan tv (uj_id job) (job_shape job) held (job_footprint job)
      = history_plan (st_history state) (shape_of (desc_of (uj_id job))) held (job_footprint job)"
    by (simp add: preserve_plan_def state desc)
  show ?thesis
  proof (cases "\<exists>h n. st_history state = Some h \<and> held = Some n")
    case True
    then obtain h n where hn: "st_history state = Some h" "held = Some n" by blast
    have f: "fold history_event (log (uj_id job)) (Some (history_new (shape_of (desc_of (uj_id job))))) = Some h"
      "length (log (uj_id job)) < 2 ^ 64" using sok hn(1) by (auto simp: state_ok_def)
    from known_spare_whole [OF bd f held [OF hn(2)] il fp] hn show ?thesis unfolding plan by simp
  next
    case False
    have "history_plan None (shape_of (desc_of (uj_id job))) held (job_footprint job)
      = history_plan None (shape_of (desc_of (uj_id job))) None (job_footprint job)"
      unfolding history_plan_def by (simp only: plan_without_history [of held])
    then show ?thesis
      using unknown_version_whole [OF _ _ fp, of "shape_of (desc_of (uj_id job))"] il False unfolding plan
      by (cases "st_history state"; cases held) (auto simp: in_level_def)
  qed
qed

lemma rename_world:
  assumes w: "settled_world desc_of (enc, ct, log)" and job: "may_upload desc_of job enc"
    and live: "ve_cache enc (uj_id job) = Some old" and created: "\<forall>v. created = Some v \<longrightarrow> unowned v enc"
    and ren: "rename_sampled_texture job created ordered packed old enc = (dest, enc')"
  shows "ve_cache enc' = ve_cache enc \<and> new_copies enc enc' = [] \<and> (dest = None \<or> dest = Some old)
      \<and> settled_world desc_of (enc', ct, rename_log (uj_id job) enc log)
    \<or> (\<exists>d. dest = Some d \<and> ve_cache enc' = (ve_cache enc)(uj_id job \<mapsto> d) \<and> d \<noteq> old
      \<and> world_ok desc_of (\<lambda>t f l. t = uj_id job \<and> pending_of job f l)
          (enc', foldl exec_copy ct (new_copies enc enc'), rename_log (uj_id job) enc log)
      \<and> (\<forall>f l x y. in_level (job_shape job) f l x y \<longrightarrow> \<not> pending_of job f l \<longrightarrow>
           foldl exec_copy ct (new_copies enc enc') d f l x y = ct old f l x y))"
proof -
  let ?tid = "uj_id job" and ?records = "records_every_write (uj_desc job) (uj_usage job)"
  have desc: "uj_desc job = desc_of ?tid" and bd: "shape_bounded (shape_of (desc_of ?tid))"
    and small: "unat (shape_bytes (shape_of (desc_of ?tid))) < 2 ^ 63" "unat (tv_next_epoch (ve_versions enc)) + 1 < 2 ^ 64"
    using job by (auto simp: may_upload_def)
  obtain spare tv where take: "take_spare ?tid (job_shape job) ?records (ve_seq enc) (ve_versions enc) = (spare, tv)" by fastforce
  note tw = take_world [OF w live take [unfolded desc] small]
  obtain state where state: "tv_textures tv ?tid = Some state"
    "\<And>s n. spare = Some s \<Longrightarrow> sp_held_writes s = Some n \<Longrightarrow> st_history state \<noteq> None \<Longrightarrow>
       agrees (\<lambda>_ _. False) (shape_of (desc_of ?tid)) (rename_log ?tid enc log ?tid) n (ct (sp_views s)) (ct old)"
    using tw(2) by blast
  have sok: "state_ok desc_of (\<lambda>_ _ _. False) (enc\<lparr>ve_versions := tv\<rparr>, ct, rename_log ?tid enc log) ?tid state"
    using tw(1) state(1) by (simp add: world_ok_def)
  define choice where "choice = (case spare of Some s \<Rightarrow> Some (sp_views s, sp_held_writes s) | None \<Rightarrow> map_option (\<lambda>v. (v, None)) created)"
  show ?thesis
  proof (cases choice)
    case None
    then have "enc' = enc\<lparr>ve_versions := tv\<rparr>" "dest = None \<or> dest = Some old"
      using ren take by (auto simp: rename_sampled_texture_def choice_def split: if_splits)
    with tw(1) show ?thesis by (simp add: new_copies_def)
  next
    case (Some p)
    then obtain d held where p: "choice = Some (d, held)" by (cases p) auto
    let ?plan = "preserve_plan tv ?tid (job_shape job) held (job_footprint job)"
    have enc': "dest = Some d" "enc' = enc\<lparr>ve_versions := retire ?tid old (ve_seq enc) tv, ve_cache := (ve_cache enc)(?tid \<mapsto> d),
        ve_copies := ve_copies enc @ map (\<lambda>c. (ordered, old, d, c)) ?plan\<rparr>"
      using ren take p live by (auto simp: rename_sampled_texture_def choice_def [symmetric] Let_def)
    have d: "unowned d (enc\<lparr>ve_versions := tv\<rparr>)"
      using p tw(3,4) created by (auto simp: choice_def split: option.splits)
    then have ne: "d \<noteq> old" using live by (auto simp: unowned_def)
    have copies: "foldl exec_copy ct (new_copies enc enc') = ct(d := run_copies ?plan (ct old) (ct d))"
      using exec_plan [of old d ct ordered ?plan] ne by (simp add: new_copies_def enc')
    have whole: "run_copies ?plan (ct old) (ct d) f l x y = ct old f l x y"
      if il: "in_level (shape_of (desc_of ?tid)) f l x y" and np: "\<not> pending_of job f l" for f l x y
    proof (rule chosen_version_whole [OF bd sok state(1) _ desc il np])
      fix n assume "held = Some n" "st_history state \<noteq> None"
      then show "agrees (\<lambda>_ _. False) (shape_of (desc_of ?tid)) (rename_log ?tid enc log ?tid) n (ct d) (ct old)"
        using p state(2) by (auto simp: choice_def split: option.splits)
    qed
    have "world_ok desc_of (\<lambda>t f l. t = ?tid \<and> pending_of job f l)
        (enc', ct(d := run_copies ?plan (ct old) (ct d)), rename_log ?tid enc log)"
      by (rule retired_world [OF tw(1) _ _ d bd, of state old]) (use state(1) live whole in \<open>auto simp: enc'\<close>)
    with whole ne enc' copies show ?thesis by (auto simp: desc)
  qed
qed

section \<open>Uploads\<close>

definition job_event :: "upload_job \<Rightarrow> write_event" where
  "job_event job = WriteRect (uj_slice job) (uj_level job) (job_written job)"

lemma full_cover_touches:
  assumes "pending_of job f l" "in_level (job_shape job) f l x y"
  shows "touches (job_event job) f l x y"
  using assms
  by (auto simp: pending_of_def full_cover_def in_level_def job_event_def job_written_def upload_written_rect_def Let_def
      in_rect_def rect_new_def rect_level_def shape_of_def word_le_nat_alt split: option.splits)

lemma history_event_no_history: "history_event ev None = None"
  by (cases ev) (simp_all add: history_write_def history_mips_def)

lemma map_history_idle:
  assumes "\<And>state. tv_textures tv tid = Some state \<Longrightarrow> st_history state = None"
  shows "map_history (fold history_event evs) tid tv = tv"
proof (cases "tv_textures tv tid")
  case (Some state)
  with assms have "state\<lparr>st_history := None\<rparr> = state" by simp
  then have "(tv_textures tv)(tid \<mapsto> state\<lparr>st_history := None\<rparr>) = tv_textures tv" using Some by auto
  then show ?thesis using Some assms by (simp add: map_history_def history_event_None)
qed (simp add: map_history_def)

lemma note_upload_write_history:
  assumes "\<And>state. 1 < uj_depth job \<Longrightarrow> tv_textures (ve_versions enc) (uj_id job) = Some state \<Longrightarrow> st_history state = None"
  shows "ve_versions (note_upload_write job enc) = map_history (fold history_event [job_event job]) (uj_id job) (ve_versions enc)"
    "ve_cache (note_upload_write job enc) = ve_cache enc" "ve_copies (note_upload_write job enc) = ve_copies enc"
proof -
  show "ve_cache (note_upload_write job enc) = ve_cache enc" "ve_copies (note_upload_write job enc) = ve_copies enc"
    by (simp_all add: note_upload_write_def)
  show "ve_versions (note_upload_write job enc) = map_history (fold history_event [job_event job]) (uj_id job) (ve_versions enc)"
  proof (cases "1 < uj_depth job \<or> \<not> records_writes (ve_versions enc) (uj_id job)")
    case True
    then have "map_history (fold history_event [job_event job]) (uj_id job) (ve_versions enc) = ve_versions enc"
      using assms by (intro map_history_idle) (auto simp: records_writes_def)
    with True show ?thesis by (simp add: note_upload_write_def)
  next
    case False
    have "history_event (job_event job) = history_write (uj_slice job) (uj_level job) (job_written job)"
      by (auto simp: job_event_def)
    with False show ?thesis by (simp add: note_upload_write_def note_write_def)
  qed
qed

lemma created_world:
  assumes w: "settled_world desc_of (enc, ct, log)" and none: "ve_cache enc tid = None" and v: "unowned v enc"
  shows "settled_world desc_of (enc\<lparr>ve_cache := (ve_cache enc)(tid \<mapsto> v)\<rparr>, ct, log)"
proof -
  have "state_ok desc_of (\<lambda>_ _ _. False) (enc\<lparr>ve_cache := (ve_cache enc)(tid \<mapsto> v)\<rparr>, ct, log) t state"
    if "tv_textures (ve_versions enc) t = Some state" for t state
  proof -
    have "state_ok desc_of (\<lambda>_ _ _. False) (enc, ct, log) t state" using w that by (simp add: world_ok_def)
    then show ?thesis using none by (cases "t = tid") (auto simp: state_ok_def split: option.splits)
  qed
  then show ?thesis using w v unfolding world_ok_def by (auto simp: unowned_def)
qed

lemma uploaded_world:
  assumes w: "world_ok desc_of (\<lambda>t f l. t = uj_id job \<and> pending_of job f l) (enc, ct, log)"
    and job: "uj_desc job = desc_of (uj_id job)" and flat: "1 < uj_depth job \<Longrightarrow> has_flag (td_flags (uj_desc job)) TEX_TYPE_3D"
    and room: "length (log (uj_id job)) + 1 < 2 ^ 64"
    and ct': "\<And>v f l x y. ve_cache enc (uj_id job) \<noteq> Some v \<or> \<not> touches (job_event job) f l x y \<Longrightarrow> ct' v f l x y = ct v f l x y"
  shows "settled_world desc_of (note_upload_write job enc, ct', log(uj_id job := log (uj_id job) @ [job_event job]))"
proof -
  have "st_history state = None" if "1 < uj_depth job" "tv_textures (ve_versions enc) (uj_id job) = Some state" for state
  proof (rule ccontr)
    assume "st_history state \<noteq> None"
    moreover have "state_ok desc_of (\<lambda>t f l. t = uj_id job \<and> pending_of job f l) (enc, ct, log) (uj_id job) state"
      using w that(2) by (simp add: world_ok_def)
    ultimately have "\<not> has_flag (vs_flags (shape_of (desc_of (uj_id job)))) TEX_TYPE_3D" by (auto simp: state_ok_def)
    then show False using flat [OF that(1)] by (simp add: job shape_of_def)
  qed
  note n = note_upload_write_history [OF this, simplified]
  show ?thesis
  proof (rule written_world_ok [OF w, of _ "[job_event job]"])
    show "ve_versions (note_upload_write job enc) = map_history (fold history_event [job_event job]) (uj_id job) (ve_versions enc)"
      using n(1) by simp
  qed (use n room ct' full_cover_touches [of job] job in auto)
qed

text \<open>
  An upload step as a whole: the contents follow the queued copies, then the upload writes within
  its rectangle of the destination if the blit path emitted it. A full-cover upload that was
  declined after a rename leaves the subresource it skipped undefined, and is not a step here.
\<close>

definition upload_log :: "u64 \<Rightarrow> 'v version_encoder \<Rightarrow> 'v version_encoder \<Rightarrow> (u64 \<Rightarrow> write_event list) \<Rightarrow> u64 \<Rightarrow> write_event list" where
  "upload_log tid enc enc' log =
     (if tv_textures (ve_versions enc) tid = None \<and> tv_textures (ve_versions enc') tid \<noteq> None then log(tid := []) else log)"

definition upload_effect ::
  "upload_job \<Rightarrow> bool \<Rightarrow> 'v version_encoder \<Rightarrow> 'v version_encoder \<Rightarrow> ('v \<Rightarrow> 'c texel_image) \<Rightarrow> ('v \<Rightarrow> 'c texel_image) \<Rightarrow> bool"
where
  "upload_effect job ok enc enc' ct ct' =
     (let ct1 = foldl exec_copy ct (new_copies enc enc')
      in if ok then \<forall>v f l x y. ve_cache enc' (uj_id job) \<noteq> Some v \<or> \<not> touches (job_event job) f l x y \<longrightarrow> ct' v f l x y = ct1 v f l x y
         else ct' = ct1 \<and> (full_cover job \<longrightarrow> ve_cache enc (uj_id job) = None \<or> ve_cache enc' = ve_cache enc))"

lemma take_spare_tracks: "take_spare tid shape records seq tv = (spare, tv') \<Longrightarrow> tv_textures tv' tid \<noteq> None"
  by (auto simp: take_spare_def Let_def split: prod.splits)

lemma rename_tracks:
  assumes "rename_sampled_texture job created ordered packed old enc = (dest, enc')"
  shows "tv_textures (ve_versions enc') (uj_id job) \<noteq> None"
proof -
  obtain spare tv where take: "take_spare (uj_id job) (job_shape job) (records_every_write (uj_desc job) (uj_usage job))
    (ve_seq enc) (ve_versions enc) = (spare, tv)" by fastforce
  from take_spare_tracks [OF take] assms take show ?thesis
    by (auto simp: rename_sampled_texture_def Let_def retire_def split: option.splits if_splits)
qed

lemma note_upload_write_tracks: "tv_textures (ve_versions (note_upload_write job enc)) tid = None \<longleftrightarrow> tv_textures (ve_versions enc) tid = None"
  by (auto simp: note_upload_write_def note_write_def map_history_facts)

lemma agrees_weaken: "agrees (\<lambda>_ _. False) shape log n a b \<Longrightarrow> agrees e shape log n a b"
  by (simp add: agrees_def)

lemma settled_weaken:
  assumes "settled_world desc_of (enc, ct, log)"
  shows "world_ok desc_of ex (enc, ct, log)"
proof -
  have "state_ok desc_of ex (enc, ct, log) tid state" if "state_ok desc_of (\<lambda>_ _ _. False) (enc, ct, log) tid state" for tid state
    using that by (cases "ve_cache enc tid") (auto simp: state_ok_def intro: agrees_weaken)
  then show ?thesis using assms by (simp add: world_ok_def)
qed

lemma resolved_upload_world:
  assumes w: "settled_world desc_of (enc, ct, log)" and job: "may_upload desc_of job enc"
    and flat: "1 < uj_depth job \<Longrightarrow> has_flag (td_flags (uj_desc job)) TEX_TYPE_3D" and room: "length (log (uj_id job)) + 1 < 2 ^ 64"
    and live: "ve_cache enc (uj_id job) = Some old" and created: "\<forall>v. created = Some v \<longrightarrow> unowned v enc"
    and mid: "(dest, enc1) = (if renames then rename_sampled_texture job created ordered packed old enc else (Some old, enc))"
    and fin: "enc' = (if ok then note_upload_write job enc1 else enc1)" and eff: "upload_effect job ok enc enc' ct ct'"
  shows "settled_world desc_of (enc', ct', let log1 = upload_log (uj_id job) enc enc' log
    in if ok then log1(uj_id job := log1 (uj_id job) @ [job_event job]) else log1)"
proof -
  let ?tid = "uj_id job" and ?ex = "\<lambda>t f l. t = uj_id job \<and> pending_of job f l"
  let ?ct1 = "foldl exec_copy ct (new_copies enc enc')" and ?log1 = "upload_log (uj_id job) enc enc' log"
  have desc: "uj_desc job = desc_of ?tid" using job by (simp add: may_upload_def)
  have same: "new_copies enc enc' = new_copies enc enc1" "ve_cache enc' = ve_cache enc1"
    by (simp_all add: fin new_copies_def note_upload_write_def)
  have "tv_textures (ve_versions enc') ?tid = None \<longleftrightarrow> tv_textures (ve_versions enc1) ?tid = None"
    by (cases ok) (simp_all only: fin note_upload_write_tracks if_True if_False)
  then have log1: "?log1 = upload_log ?tid enc enc1 log" by (simp add: upload_log_def)
  note any = settled_weaken [where ex = ?ex]
  have middle: "world_ok desc_of ?ex (enc1, ?ct1, ?log1)
    \<and> (ve_cache enc1 = ve_cache enc \<or> \<not> full_cover job \<longrightarrow> settled_world desc_of (enc1, ?ct1, ?log1))"
  proof (cases renames)
    case False
    then have "enc1 = enc" using mid by simp
    then have "?log1 = log" by (subst log1) (auto simp: upload_log_def)
    moreover have "?ct1 = ct" using \<open>enc1 = enc\<close> by (subst same) (simp add: new_copies_def)
    ultimately show ?thesis using w any [OF w] \<open>enc1 = enc\<close> by simp
  next
    case True
    then have ren: "rename_sampled_texture job created ordered packed old enc = (dest, enc1)" using mid by simp
    have lg: "?log1 = rename_log ?tid enc log" using rename_tracks [OF ren] by (subst log1) (auto simp: upload_log_def rename_log_def)
    from rename_world [OF w job live created ren]
    consider (kept) "ve_cache enc1 = ve_cache enc" "new_copies enc enc1 = []" "settled_world desc_of (enc1, ct, rename_log ?tid enc log)"
      | (renamed) d where "dest = Some d" "ve_cache enc1 = (ve_cache enc)(?tid \<mapsto> d)" "d \<noteq> old"
        "world_ok desc_of ?ex (enc1, foldl exec_copy ct (new_copies enc enc1), rename_log ?tid enc log)"
      by blast
    then show ?thesis
    proof cases
      case kept
      then show ?thesis using any by (simp add: same lg)
    next
      case d: (renamed d)
      have "?ex = (\<lambda>_ _ _. False)" if "\<not> full_cover job" using that by (auto simp: pending_of_def)
      moreover have "ve_cache enc1 \<noteq> ve_cache enc" using d live by (auto simp: fun_eq_iff)
      ultimately show ?thesis using d(4) by (auto simp: same lg)
    qed
  qed
  show ?thesis
  proof (cases ok)
    case True
    have "length (?log1 ?tid) + 1 < 2 ^ 64" using room by (simp add: upload_log_def)
    moreover have "ct' v f l x y = ?ct1 v f l x y" if "ve_cache enc1 ?tid \<noteq> Some v \<or> \<not> touches (job_event job) f l x y" for v f l x y
      using eff True that by (auto simp: upload_effect_def Let_def same)
    ultimately show ?thesis
      using uploaded_world [OF conjunct1 [OF middle] desc flat] True by (simp add: fin Let_def)
  next
    case False
    then have "ct' = ?ct1" "\<not> full_cover job \<or> ve_cache enc1 = ve_cache enc"
      using eff live by (auto simp: upload_effect_def Let_def same)
    then show ?thesis using middle False by (auto simp: fin)
  qed
qed

lemma emitted_upload_world:
  assumes w: "settled_world desc_of (enc, ct, log)" and job: "may_upload desc_of job enc"
    and flat: "1 < uj_depth job \<Longrightarrow> has_flag (td_flags (uj_desc job)) TEX_TYPE_3D" and room: "length (log (uj_id job)) + 1 < 2 ^ 64"
    and created: "\<forall>v. created = Some v \<longrightarrow> unowned v enc" "\<forall>v. created' = Some v \<longrightarrow> unowned v enc \<and> created \<noteq> Some v"
    and untouched: "ve_cache enc (uj_id job) = None \<Longrightarrow> \<not> sampled"
    and emit: "emit_texture_upload ORDERED sampled blitted packed created created' emitted job enc = (ok, enc')"
    and eff: "upload_effect job ok enc enc' ct ct'"
  shows "settled_world desc_of (enc', ct', let log1 = upload_log (uj_id job) enc enc' log
    in if ok then log1(uj_id job := log1 (uj_id job) @ [job_event job]) else log1)"
proof (cases "get_or_create_texture_view job created enc")
  case (Pair handle enc0)
  show ?thesis
  proof (cases handle)
    case None
    then have "enc' = enc" "\<not> ok"
      using Pair emit by (auto simp: emit_texture_upload_def get_or_create_texture_view_def split: option.splits)
    then show ?thesis using w eff by (auto simp: upload_effect_def new_copies_def upload_log_def)
  next
    case (Some old)
    have enc0: "ve_versions enc0 = ve_versions enc" "ve_copies enc0 = ve_copies enc" "ve_cache enc0 (uj_id job) = Some old"
      "enc0 = enc \<or> ve_cache enc (uj_id job) = None \<and> created = Some old \<and> enc0 = enc\<lparr>ve_cache := (ve_cache enc)(uj_id job \<mapsto> old)\<rparr>"
      using Pair Some by (auto simp: get_or_create_texture_view_def split: option.splits)
    have w0: "settled_world desc_of (enc0, ct, log)" using enc0(4) w created_world [OF w] created(1) by auto
    have job0: "may_upload desc_of job enc0" using job unfolding may_upload_def enc0(1) .
    have created0: "\<forall>v. created' = Some v \<longrightarrow> unowned v enc0" using created(2) enc0(4) by (auto simp: unowned_def split: if_splits)
    define renames where "renames = (\<not> ORDERED \<and> sampled \<and> \<not> ((ORDERED \<or> sampled \<and> blitted) \<and> \<not> packed))"
    obtain dest enc1 where mid: "(dest, enc1) = (if renames then rename_sampled_texture job created' (ORDERED \<or> sampled \<and> blitted) packed old enc0
        else (Some old, enc0))" by (metis surj_pair)
    have fin: "enc' = (if ok then note_upload_write job enc1 else enc1)"
      using emit Pair Some mid by (auto simp: emit_texture_upload_def Let_def renames_def split: if_splits prod.splits)
    have "ve_cache enc' = ve_cache enc0" if "ve_cache enc (uj_id job) = None"
      using untouched [OF that] mid fin by (simp add: renames_def note_upload_write_def)
    then have "upload_effect job ok enc0 enc' ct ct'"
      using eff enc0(2-4) by (auto simp: upload_effect_def Let_def new_copies_def)
    from resolved_upload_world [OF w0 job0 flat room enc0(3) created0 mid fin this]
    show ?thesis by (simp add: upload_log_def enc0(1))
  qed
qed

lemma reissue_is_upload: "reissue_texture_upload emitted job enc = emit_texture_upload False False False packed None None emitted job enc"
  by (auto simp: reissue_texture_upload_def emit_texture_upload_def get_or_create_texture_view_def split: option.split)

section \<open>The encoder and its versions as a state machine\<close>

text \<open>
  Every operation of the encoder on its texture versions, with the effect of the GPU commands on
  the contents. Writes outside a texture's level, failing allocations, declined uploads, any
  pressure, retirement and abort counters and any order of the hash tables are included. The
  descriptor of a texture does not change (\<open>desc_of\<close>), a volume upload goes to a volume, a texture the
  cache lacks is not one the frame sampled, an upload that renamed a texture to cover a level whole is
  not declined after that (the rename counts on it), and the 64-bit counters do not wrap.
\<close>

inductive version_step ::
  "(u64 \<Rightarrow> texture_create_desc) \<Rightarrow> ('v, 'c) version_world \<Rightarrow> ('v, 'c) version_world \<Rightarrow> bool"
for desc_of
where
  vs_upload:
    "may_upload desc_of job enc \<Longrightarrow> (1 < uj_depth job \<Longrightarrow> has_flag (td_flags (uj_desc job)) TEX_TYPE_3D) \<Longrightarrow>
     length (log (uj_id job)) + 1 < 2 ^ 64 \<Longrightarrow> (ve_cache enc (uj_id job) = None \<Longrightarrow> \<not> sampled) \<Longrightarrow>
     \<forall>v. created = Some v \<longrightarrow> unowned v enc \<Longrightarrow> \<forall>v. created' = Some v \<longrightarrow> unowned v enc \<and> created \<noteq> Some v \<Longrightarrow>
     emit_texture_upload ORDERED sampled blitted packed created created' emitted job enc = (ok, enc') \<Longrightarrow>
     upload_effect job ok enc enc' ct ct' \<Longrightarrow>
     version_step desc_of (enc, ct, log) (enc', ct', let log1 = upload_log (uj_id job) enc enc' log
       in if ok then log1(uj_id job := log1 (uj_id job) @ [job_event job]) else log1)"
| vs_reissue:
    "may_upload desc_of job enc \<Longrightarrow> (1 < uj_depth job \<Longrightarrow> has_flag (td_flags (uj_desc job)) TEX_TYPE_3D) \<Longrightarrow>
     length (log (uj_id job)) + 1 < 2 ^ 64 \<Longrightarrow>
     reissue_texture_upload emitted job enc = (ok, enc') \<Longrightarrow> upload_effect job ok enc enc' ct ct' \<Longrightarrow>
     version_step desc_of (enc, ct, log) (enc', ct', let log1 = upload_log (uj_id job) enc enc' log
       in if ok then log1(uj_id job := log1 (uj_id job) @ [job_event job]) else log1)"
| vs_blit:
    "evs = WriteRect face level rect # (if regenerates then [RegenerateMips] else []) \<Longrightarrow> length (log tid) + 2 < 2 ^ 64 \<Longrightarrow>
     (\<And>v f l x y. ve_cache enc tid \<noteq> Some v \<or> \<not> list_ex (\<lambda>ev. touches ev f l x y) evs \<Longrightarrow> ct' v f l x y = ct v f l x y) \<Longrightarrow>
     version_step desc_of (enc, ct, log)
       (note_texture_blit_write tid face level rect regenerates enc, ct', log(tid := log tid @ evs))"
| vs_mips:
    "ve_cache enc tid \<noteq> None \<Longrightarrow> length (log tid) + 1 < 2 ^ 64 \<Longrightarrow>
     (\<And>v f l x y. ve_cache enc tid \<noteq> Some v \<or> \<not> touches RegenerateMips f l x y \<Longrightarrow> ct' v f l x y = ct v f l x y) \<Longrightarrow>
     version_step desc_of (enc, ct, log) (run_generate_mipmaps tid enc, ct', log(tid := log tid @ [RegenerateMips]))"
| vs_reclaim:
    "reclaim_texture_versions order counted order' allocated settled failed (ve_seq enc) (ve_versions enc) = Some (out, tv) \<Longrightarrow>
     version_step desc_of (enc, ct, log) (enc\<lparr>ve_versions := tv\<rparr>, ct, log)"
| vs_destroy: "version_step desc_of (enc, ct, log) (destroy_cached_texture tid enc, ct, log)"
| vs_reset: "set order = tv_with_spares (ve_versions enc) \<Longrightarrow>
     version_step desc_of (enc, ct, log) (retire_texture_versions order enc, ct, log)"
| vs_frame: "version_step desc_of (enc, ct, log) (enc\<lparr>ve_seq := seq, ve_copies := []\<rparr>, ct, log)"

definition version_init :: "('v, 'c) version_world \<Rightarrow> bool" where
  "version_init w \<longleftrightarrow> (\<exists>working_set enc ct log. w = (enc, ct, log) \<and> ve_cache enc = Map.empty
     \<and> ve_versions enc = versions_new (from_working_set working_set))"

lemma map_history_twice: "map_history f tid (map_history g tid tv) = map_history (f \<circ> g) tid tv"
  by (simp add: map_history_def split: option.split)

lemma version_step_settled:
  assumes "settled_world desc_of w" "version_step desc_of w w'"
  shows "settled_world desc_of w'"
  using assms(2,1)
proof cases
  case (vs_upload job enc log sampled created created' ORDERED blitted packed emitted ok enc' ct ct')
  show ?thesis unfolding vs_upload(2)
    by (rule emitted_upload_world [OF assms(1) [unfolded vs_upload(1)] vs_upload(3-5,7,8,6,9,10)])
next
  case (vs_reissue job enc log emitted ok enc' ct ct')
  show ?thesis unfolding vs_reissue(2)
    by (rule emitted_upload_world [OF assms(1) [unfolded vs_reissue(1)] vs_reissue(3-5) _ _ _
          vs_reissue(6) [unfolded reissue_is_upload [where packed = False]] vs_reissue(7)]) simp_all
next
  case (vs_blit evs face level rect regenerates log tid enc ct' ct)
  have "fold history_event evs = (if regenerates then history_mips else (\<lambda>h. h)) \<circ> history_write face level rect"
    unfolding vs_blit(3) by (auto simp: fun_eq_iff)
  then have v: "ve_versions (note_texture_blit_write tid face level rect regenerates enc)
      = map_history (fold history_event evs) tid (ve_versions enc)"
    by (auto simp: note_texture_blit_write_def note_write_def note_mip_regeneration_def map_history_twice comp_def)
  have "length (log tid) + length evs < 2 ^ 64" using vs_blit(3,4) by simp
  from written_world_ok [OF assms(1) [unfolded vs_blit(1)] v _ this vs_blit(5)] show ?thesis
    unfolding vs_blit(2) by (simp add: note_texture_blit_write_def)
next
  case (vs_mips enc tid log ct' ct)
  then have v: "ve_versions (run_generate_mipmaps tid enc) = map_history (fold history_event [RegenerateMips]) tid (ve_versions enc)"
    by (auto simp: run_generate_mipmaps_def note_mip_regeneration_def fun_eq_iff intro!: arg_cong [of _ _ "\<lambda>f. map_history f tid _"])
  have "ve_cache (run_generate_mipmaps tid enc) = ve_cache enc" by (simp add: run_generate_mipmaps_def split: option.split)
  with written_world_ok [OF assms(1) [unfolded vs_mips(1)] v, where ct' = ct'] vs_mips show ?thesis by simp
next
  case (vs_reclaim order counted order' allocated settled failed enc out tv ct log)
  have ok: "pool_ok (ve_versions enc)" using assms(1) vs_reclaim(1) by (simp add: world_ok_def)
  from shrunk_world_ok [OF assms(1) [unfolded vs_reclaim(1)] shrinks_reclaim [OF vs_reclaim(3)], where cache = "ve_cache enc"]
    reclaim_ok [OF ok vs_reclaim(3)] vs_reclaim(2) show ?thesis by simp
next
  case (vs_destroy enc ct log tid)
  have ok: "pool_ok (ve_versions enc)" using assms(1) vs_destroy(1) by (simp add: world_ok_def)
  show ?thesis unfolding vs_destroy(2)
    by (rule shrunk_world_ok [OF assms(1) [unfolded vs_destroy(1)] shrinks_forget(1) [of _ tid], where cache = "(ve_cache enc)(tid := None)"])
      (use forget_texture_ok [OF ok, of tid] in \<open>auto simp: destroy_cached_texture_def shrinks_forget(2) split: if_splits\<close>)
next
  case (vs_reset order enc ct log)
  obtain out tv where d: "drain_versions order (ve_versions enc) = (out, tv)" by fastforce
  have ok: "pool_ok (ve_versions enc)" using assms(1) vs_reset(1) by (simp add: world_ok_def)
  then have fin: "finite (dom (tv_textures (ve_versions enc)))" by (simp add: pool_ok_def)
  from shrunk_world_ok [OF assms(1) [unfolded vs_reset(1)] shrinks_drain [OF fin, of order], where cache = "ve_cache enc"
      and enc' = "retire_texture_versions order enc"] drain_versions_ok [OF ok vs_reset(3) d]
  show ?thesis unfolding vs_reset(2) by (simp add: retire_texture_versions_def d)
next
  case (vs_frame enc ct log seq)
  from shrunk_world_ok [OF assms(1) [unfolded vs_frame(1)] shrinks_refl, where cache = "ve_cache enc"
      and enc' = "enc\<lparr>ve_seq := seq, ve_copies := []\<rparr>"] assms(1) show ?thesis
    unfolding vs_frame(1,2) by (simp add: world_ok_def)
qed

interpretation version_world: step_invariant version_init "version_step desc_of" "settled_world desc_of" for desc_of
proof
  fix w :: "('a, 'b) version_world" assume "version_init w"
  then obtain ws enc ct log where w: "w = (enc, ct, log)" "ve_cache enc = Map.empty" "ve_versions enc = versions_new (from_working_set ws)"
    by (auto simp: version_init_def)
  have "tv_textures (ve_versions enc) = Map.empty" "tv_retiring (ve_versions enc) = []" "tv_next_epoch (ve_versions enc) = 1"
    by (simp_all add: w versions_new_def)
  moreover have "pool_ok (ve_versions enc)" "pool_views (ve_versions enc) = {#}" using w versions_new_ok by simp_all
  ultimately show "settled_world desc_of w" unfolding world_ok_def by (simp add: w(1,2))
qed (rule version_step_settled)

section \<open>A renamed version is the live texture\<close>

text \<open>
  The texels of a subresource that an upload writes, read off its rectangle; of a volume, which is
  seen from above, the columns it writes to their full depth.
\<close>

definition upload_covers :: "upload_job \<Rightarrow> u32 \<Rightarrow> u32 \<Rightarrow> nat \<Rightarrow> nat \<Rightarrow> bool" where
  "upload_covers job face level x y \<longleftrightarrow> face = uj_slice job \<and> level = uj_level job
     \<and> unat (uj_x job) \<le> x \<and> x < unat (uj_x job) + unat (uj_w job)
     \<and> unat (uj_y job) \<le> y \<and> y < unat (uj_y job) + unat (uj_h job)
     \<and> (has_flag (td_flags (uj_desc job)) TEX_TYPE_3D \<longrightarrow> level_extent (td_depth (uj_desc job)) level \<le> uj_depth job)"

lemma pending_covers:
  assumes "in_level (job_shape job) f l x y" "pending_of job f l"
  shows "upload_covers job f l x y"
  using assms by (auto simp: in_level_def pending_of_def full_cover_def upload_covers_def shape_of_def word_le_nat_alt)


definition demo_desc :: texture_create_desc where
  "demo_desc = \<lparr>td_tex_id = 7, td_width = 4, td_height = 4, td_depth = 1, td_levels = 1, td_pixel_format = PfBgra8Unorm,
     td_storage_mode = PrivateMode, td_flags = 0, td_swizzle_r = SwRed, td_swizzle_g = SwGreen, td_swizzle_b = SwBlue,
     td_swizzle_a = SwAlpha, td_usage_flags = 0\<rparr>"

definition demo_job :: upload_job where
  "demo_job = \<lparr>uj_id = 7, uj_desc = demo_desc, uj_usage = 0, uj_slice = 0, uj_level = 0, uj_x = 0, uj_y = 0, uj_w = 2, uj_h = 2,
     uj_depth = 1, uj_compressed = None\<rparr>"

definition demo_encoder :: "(u64 \<rightharpoonup> nat) \<Rightarrow> nat version_encoder" where
  "demo_encoder cache = \<lparr>ve_versions = versions_new (from_working_set 0), ve_cache = cache, ve_seq = 1, ve_copies = [], ve_retained = []\<rparr>"

lemma demo_may_upload: "may_upload (\<lambda>_. demo_desc) demo_job (demo_encoder cache)"
  by (simp add: may_upload_def demo_job_def demo_encoder_def versions_new_def demo_desc_def shape_of_def shape_bounded_def
      shape_bytes_def level_bytes_def shape_slices_def has_flag_def level_extent_def pixel_block_def block_layout_def div_ceil_def)

lemma demo_unowned: "(\<forall>a. cache a \<noteq> Some v) \<Longrightarrow> unowned v (demo_encoder cache)"
  by (simp add: unowned_def demo_encoder_def versions_new_ok)

lemma demo_upload_reaches:
  "\<exists>log. reach version_init (version_step (\<lambda>_. demo_desc)) (demo_encoder [7 \<mapsto> 1], \<lambda>v _ _ _ _. v, log)"
proof -
  have "reach version_init (version_step (\<lambda>_. demo_desc)) (demo_encoder Map.empty, \<lambda>v _ _ _ _. v, \<lambda>_. [])"
    by (rule reach_init) (auto simp: version_init_def demo_encoder_def)
  moreover have "version_step (\<lambda>_. demo_desc) (demo_encoder Map.empty, \<lambda>v _ _ _ _. v, \<lambda>_. [])
      (demo_encoder [7 \<mapsto> 1], \<lambda>v _ _ _ _. v, let log1 = upload_log (uj_id demo_job) (demo_encoder Map.empty) (demo_encoder [7 \<mapsto> 1]) (\<lambda>_. [])
       in if True then log1(uj_id demo_job := log1 (uj_id demo_job) @ [job_event demo_job]) else log1)"
    by (rule vs_upload [where sampled = False and created = "Some 1" and created' = None and ORDERED = False and blitted = False
          and packed = False and emitted = True])
      (use demo_may_upload demo_unowned in \<open>simp_all add: demo_encoder_def demo_job_def emit_texture_upload_def
        get_or_create_texture_view_def note_upload_write_def records_writes_def versions_new_def upload_effect_def new_copies_def\<close>)
  ultimately show ?thesis by (blast intro: reach_step)
qed


end
