(* ===== verification/Pass_Types.thy ===== *)
theory Pass_Types
  imports Mtl_Types
begin

text \<open>
  The recorded frame of \<^verbatim>\<open>src/windows/core/src/passes.rs\<close>: the render commands and blits of
  \<^verbatim>\<open>src/unix/shared/src/commands.rs\<close>, the passes they are recorded into, and the questions the pass
  rules ask of them. A texture handle is its 64-bit value, and 0 is no texture. Render target 0 of
  a pass, ten fields of \<^verbatim>\<open>Pass\<close>, is a record of the same shape as render targets 1 to 3; the bits of
  the two flag sets are boolean fields. Vector recycling and trace lines are left out.
\<close>

section \<open>Commands\<close>

datatype command_type =
    SetRenderPipelineState | SetViewport | SetVertexBytes | DrawPrimitives | SetDepthStencilState | SetCullMode
  | SetFragmentTexture | SetFragmentSamplerState | SetVertexBytesAt | SetFragmentBytesAt | SetScissorRect | SetVertexBuffer
  | DrawIndexedPrimitives | SetVisibilityResultMode | SetBlendColor | SetDepthBias | DrawIndexedPrimitivesUp
  | SetStencilReference | SetFragmentNullTexture | SetVertexTexture | SetVertexSamplerState | SetVertexNullTexture
  | SetFragmentBuffer | PushDebugGroup | PopDebugGroup | SetTriangleFillMode

fun ct_code :: "command_type \<Rightarrow> u32" where
  "ct_code SetRenderPipelineState = 1" | "ct_code SetViewport = 2" | "ct_code SetVertexBytes = 3" | "ct_code DrawPrimitives = 4"
| "ct_code SetDepthStencilState = 5" | "ct_code SetCullMode = 6" | "ct_code SetFragmentTexture = 7"
| "ct_code SetFragmentSamplerState = 8" | "ct_code SetVertexBytesAt = 9" | "ct_code SetFragmentBytesAt = 10"
| "ct_code SetScissorRect = 11" | "ct_code SetVertexBuffer = 12" | "ct_code DrawIndexedPrimitives = 13"
| "ct_code SetVisibilityResultMode = 14" | "ct_code SetBlendColor = 15" | "ct_code SetDepthBias = 16"
| "ct_code DrawIndexedPrimitivesUp = 17" | "ct_code SetStencilReference = 19" | "ct_code SetFragmentNullTexture = 20"
| "ct_code SetVertexTexture = 21" | "ct_code SetVertexSamplerState = 22" | "ct_code SetVertexNullTexture = 23"
| "ct_code SetFragmentBuffer = 24" | "ct_code PushDebugGroup = 25" | "ct_code PopDebugGroup = 26"
| "ct_code SetTriangleFillMode = 27"

record command =
  cm_cmd :: u32
  cm_a :: u32
  cm_b :: u64
  cm_c :: u64
  cm_d :: u64

definition is_draw :: "command \<Rightarrow> bool" where
  "is_draw c \<longleftrightarrow> cm_cmd c = ct_code DrawPrimitives \<or> cm_cmd c = ct_code DrawIndexedPrimitives
     \<or> cm_cmd c = ct_code DrawIndexedPrimitivesUp"

definition command_sampled_texture :: "command \<Rightarrow> u64 option" where
  "command_sampled_texture c =
     (let is_texture_bind = (cm_cmd c = ct_code SetFragmentTexture \<or> cm_cmd c = ct_code SetVertexTexture)
      in if \<not> is_texture_bind \<or> cm_b c = 0 then None else Some (cm_b c))"

section \<open>Blits\<close>

datatype blit_type =
    CopyBufferToTexture | CopyTextureToTexture | CopyBufferToBuffer | NotifyBufferDidModifyRange | GenerateMipmaps
  | CopyBufferToDepth | CopyBufferToStencil | TransferDepth

definition blit_from_repr :: "u32 \<Rightarrow> blit_type option" where
  "blit_from_repr n =
     (if n = 1 then Some CopyBufferToTexture else if n = 2 then Some CopyTextureToTexture
      else if n = 3 then Some CopyBufferToBuffer else if n = 4 then Some NotifyBufferDidModifyRange
      else if n = 5 then Some GenerateMipmaps else if n = 6 then Some CopyBufferToDepth
      else if n = 7 then Some CopyBufferToStencil else if n = 8 then Some TransferDepth else None)"

record blit_command =
  bc_cmd :: u32
  bc_mip_level :: u32
  bc_src_handle :: u64
  bc_dst_handle :: u64
  bc_src_offset :: u64
  bc_bytes_per_row :: u64
  bc_origin_x :: u32
  bc_origin_y :: u32
  bc_region_w :: u32
  bc_region_h :: u32
  bc_dst_offset :: u64
  bc_byte_size :: u64
  bc_depth :: u32
  bc_bytes_per_image :: u32
  bc_dst_mip_level :: u32
  bc_dst_slice :: u32
  bc_src_slice :: u32

definition blit_written_texture :: "blit_command \<Rightarrow> u64 option" where
  "blit_written_texture b =
     (let writes_texture = (case blit_from_repr (bc_cmd b) of
            Some CopyBufferToBuffer \<Rightarrow> False | Some NotifyBufferDidModifyRange \<Rightarrow> False | _ \<Rightarrow> True)
      in if \<not> writes_texture \<or> bc_dst_handle b = 0 then None else Some (bc_dst_handle b))"

definition blit_read_texture :: "blit_command \<Rightarrow> u64 option" where
  "blit_read_texture b =
     (let handle = (case blit_from_repr (bc_cmd b) of
            Some CopyTextureToTexture \<Rightarrow> bc_src_handle b | Some TransferDepth \<Rightarrow> bc_src_handle b
          | Some GenerateMipmaps \<Rightarrow> bc_dst_handle b | _ \<Rightarrow> 0)
      in if handle = 0 then None else Some handle)"

definition blit_list_writes :: "blit_command list \<Rightarrow> u64 \<Rightarrow> bool" where
  "blit_list_writes blits target_handle =
     (if target_handle = 0 then False else list_ex (\<lambda>b. blit_written_texture b = Some target_handle) blits)"

section \<open>Passes\<close>

datatype color_load = CLoad | CClear u32 u32 u32 u32 | CDontCare
datatype depth_load = DLoad | DClear u32 | DDontCare
datatype stencil_load = SLoad | SClear u32 | SDontCare
datatype store_action = Store | DontStore

definition is_cclear :: "color_load \<Rightarrow> bool" where "is_cclear l = (case l of CClear _ _ _ _ \<Rightarrow> True | _ \<Rightarrow> False)"
definition is_dclear :: "depth_load \<Rightarrow> bool" where "is_dclear l = (case l of DClear _ \<Rightarrow> True | _ \<Rightarrow> False)"
definition is_sclear :: "stencil_load \<Rightarrow> bool" where "is_sclear l = (case l of SClear _ \<Rightarrow> True | _ \<Rightarrow> False)"

record color_attachment =
  ca_texture :: u64
  ca_srgb_texture :: u64
  ca_msaa_texture :: u64
  ca_msaa_srgb_texture :: u64
  ca_resolve_texture :: u64
  ca_subresource :: u32
  ca_size :: "u32 \<times> u32"
  ca_format :: pixel_format
  ca_load :: color_load
  ca_store :: store_action

definition ca_none :: color_attachment where
  "ca_none = \<lparr>ca_texture = 0, ca_srgb_texture = 0, ca_msaa_texture = 0, ca_msaa_srgb_texture = 0, ca_resolve_texture = 0,
     ca_subresource = 0, ca_size = (0, 0), ca_format = PfBgra8Unorm, ca_load = CDontCare, ca_store = DontStore\<rparr>"

definition ca_is_bound :: "color_attachment \<Rightarrow> bool" where
  "ca_is_bound a \<longleftrightarrow> ca_texture a \<noteq> 0"

definition ca_slice :: "color_attachment \<Rightarrow> u32" where
  "ca_slice a = ca_subresource a AND 0xffff"

definition ca_level :: "color_attachment \<Rightarrow> u32" where
  "ca_level a = drop_bit 16 (ca_subresource a)"

definition clear_is_stored :: "bool \<Rightarrow> store_action \<Rightarrow> bool" where
  "clear_is_stored clears store \<longleftrightarrow> clears \<and> store = Store"

definition ca_written_without_draws :: "color_attachment \<Rightarrow> bool" where
  "ca_written_without_draws a \<longleftrightarrow> clear_is_stored (is_cclear (ca_load a)) (ca_store a) \<or> ca_resolve_texture a \<noteq> 0"

definition ca_resolve_view :: "color_attachment \<Rightarrow> u64" where
  "ca_resolve_view a = (if ca_srgb_texture a = 0 then ca_texture a else ca_srgb_texture a)"

record pass =
  pp_color :: color_attachment
  pp_depth_texture :: u64
  pp_depth_level :: u32
  pp_depth_size :: "u32 \<times> u32"
  pp_depth_load :: depth_load
  pp_stencil_load :: stencil_load
  pp_depth_store :: store_action
  pp_stencil_store :: store_action
  pp_commands :: "command list"
  pp_leading_blits :: "blit_command list"
  pp_has_counting_visibility :: bool
  pp_visibility_buffer :: u32
  pp_sampleable :: bool
  pp_has_stencil :: bool
  pp_used :: bool
  pp_stencil_written :: bool
  pp_writes_observed :: bool
  pp_first_draw_covers :: bool
  pp_color_clear_quad_ranges :: "(nat \<times> nat) list"
  pp_extra_color :: "color_attachment list"

definition has_draw :: "pass \<Rightarrow> bool" where
  "has_draw p \<longleftrightarrow> list_ex is_draw (pp_commands p)"

definition drop_color_attachment :: "pass \<Rightarrow> pass" where
  "drop_color_attachment p =
     p\<lparr>pp_color := (pp_color p)\<lparr>ca_texture := 0, ca_srgb_texture := 0, ca_msaa_texture := 0, ca_msaa_srgb_texture := 0,
        ca_resolve_texture := 0, ca_subresource := 0, ca_load := CDontCare, ca_store := DontStore\<rparr>\<rparr>"

definition extent_covers :: "u32 \<times> u32 \<Rightarrow> u32 \<times> u32 \<Rightarrow> bool" where
  "extent_covers outer inner \<longleftrightarrow> fst inner \<le> fst outer \<and> snd inner \<le> snd outer"

definition color_extent_covers_depth :: "pass \<Rightarrow> bool" where
  "color_extent_covers_depth p \<longleftrightarrow>
     pp_depth_texture p = 0
     \<or> (ca_texture (pp_color p) = 0 \<or> extent_covers (ca_size (pp_color p)) (pp_depth_size p))
       \<and> list_all (\<lambda>a. extent_covers (ca_size a) (pp_depth_size p)) (filter ca_is_bound (pp_extra_color p))"

definition clears_depth_past_its_area :: "pass \<Rightarrow> bool" where
  "clears_depth_past_its_area p \<longleftrightarrow>
     (is_dclear (pp_depth_load p) \<or> is_sclear (pp_stencil_load p)) \<and> \<not> color_extent_covers_depth p"

definition repeats_depth_clear_of :: "pass \<Rightarrow> pass \<Rightarrow> bool" where
  "repeats_depth_clear_of p prev \<longleftrightarrow>
     ca_texture (pp_color prev) = 0 \<and> list_all (\<lambda>a. \<not> ca_is_bound a) (pp_extra_color prev) \<and> \<not> has_draw prev
     \<and> pp_depth_texture prev = pp_depth_texture p \<and> pp_depth_level prev = pp_depth_level p \<and> pp_depth_size prev = pp_depth_size p
     \<and> (\<not> is_dclear (pp_depth_load p) \<or> pp_depth_load prev = pp_depth_load p)
     \<and> (\<not> is_sclear (pp_stencil_load p) \<or> pp_stencil_load prev = pp_stencil_load p)"

definition color_written_without_draws :: "pass \<Rightarrow> bool" where
  "color_written_without_draws p \<longleftrightarrow> ca_texture (pp_color p) \<noteq> 0 \<and> ca_written_without_draws (pp_color p)"

definition depth_written_without_draws :: "pass \<Rightarrow> bool" where
  "depth_written_without_draws p \<longleftrightarrow> pp_depth_texture p \<noteq> 0
     \<and> (clear_is_stored (is_dclear (pp_depth_load p)) (pp_depth_store p)
        \<or> pp_has_stencil p \<and> clear_is_stored (is_sclear (pp_stencil_load p)) (pp_stencil_store p))"

definition bound_color_attachments :: "pass \<Rightarrow> (nat \<times> color_attachment) list" where
  "bound_color_attachments p = filter (\<lambda>(_, a). ca_is_bound a) (enumerate 0 (pp_color p # pp_extra_color p))"

section \<open>The part of the pass state the rules read\<close>

datatype backbuffer_contents = Undefined | Preserved

record pass_state =
  ps_passes :: "pass list"
  ps_texture_view_to_base :: "u64 \<rightharpoonup> u64"
  ps_frame_sampled_textures :: "u64 set"
  ps_seen_sampled_textures :: "u64 set"
  ps_stencil_written_textures :: "u64 set"
  ps_upload_pass_end :: nat
  ps_backbuffer_texture :: u64
  ps_backbuffer_contents :: backbuffer_contents

section \<open>What a pass touches\<close>

definition commands_sample_texture :: "(u64 \<rightharpoonup> u64) \<Rightarrow> pass \<Rightarrow> u64 \<Rightarrow> bool" where
  "commands_sample_texture views p target =
     list_ex (\<lambda>c. case command_sampled_texture c of
                    None \<Rightarrow> False
                  | Some texture \<Rightarrow> texture = target \<or> views texture = Some target) (pp_commands p)"

definition pass_samples_texture :: "(u64 \<rightharpoonup> u64) \<Rightarrow> u64 set \<Rightarrow> pass \<Rightarrow> u64 \<Rightarrow> bool" where
  "pass_samples_texture views frame_sampled p target =
     (if target = 0 then False
      else if target \<notin> frame_sampled then False
      else commands_sample_texture views p target)"

definition pass_reads_texture :: "(u64 \<rightharpoonup> u64) \<Rightarrow> u64 set \<Rightarrow> pass \<Rightarrow> u64 \<Rightarrow> bool" where
  "pass_reads_texture views frame_sampled p target =
     (if target = 0 then False
      else if pass_samples_texture views frame_sampled p target then True
      else list_ex (\<lambda>b. case blit_read_texture b of
                          None \<Rightarrow> False
                        | Some texture \<Rightarrow> texture = target \<or> views texture = Some target) (pp_leading_blits p))"

definition pass_attaches_texture :: "pass \<Rightarrow> u64 \<Rightarrow> bool" where
  "pass_attaches_texture p texture \<longleftrightarrow> texture \<noteq> 0
     \<and> (ca_texture (pp_color p) = texture \<or> pp_depth_texture p = texture
        \<or> list_ex (\<lambda>a. ca_texture a = texture) (pp_extra_color p))"

definition pass_attaches_color :: "pass \<Rightarrow> u64 \<Rightarrow> u32 \<Rightarrow> bool" where
  "pass_attaches_color p texture subresource =
     (if texture = 0 then False
      else (ca_texture (pp_color p) = texture \<and> ca_subresource (pp_color p) = subresource)
        \<or> list_ex (\<lambda>a. ca_texture a = texture \<and> ca_subresource a = subresource) (pp_extra_color p))"

definition pass_resolves_into :: "(u64 \<rightharpoonup> u64) \<Rightarrow> pass \<Rightarrow> u64 \<Rightarrow> bool" where
  "pass_resolves_into views p target =
     (if target = 0 then False
      else list_ex (\<lambda>view. view \<noteq> 0 \<and> (view = target \<or> views view = Some target))
             (ca_resolve_texture (pp_color p) # map ca_resolve_texture (pp_extra_color p)))"

definition handle_names_texture :: "(u64 \<rightharpoonup> u64) \<Rightarrow> u64 \<Rightarrow> u64 \<Rightarrow> bool" where
  "handle_names_texture views raw target =
     (if raw = 0 \<or> target = 0 then False else raw = target \<or> views raw = Some target)"

end
