(* ===== verification/Pass_Rules.thy ===== *)
theory Pass_Rules
  imports Pass_Types
begin

text \<open>
  The rules that rewrite the recorded passes of a submission before it reaches the GPU
  (\<^verbatim>\<open>src/windows/core/src/passes.rs\<close>), in the order \<^verbatim>\<open>apply_pass_rules\<close> of \<^verbatim>\<open>src/unix/unix/src/encoder.rs\<close>
  runs them. The compile-time gates are all on. A loop from the last pass to the first is a
  recursion that handles the rest of the list first; the index of a later pass is then the length
  of the list from that pass on.
\<close>

section \<open>Rule I: a cleared target that is overwritten before a read\<close>

record cleared_target =
  ct_texture :: u64
  ct_slice :: u32
  ct_level :: u32
  ct_size :: "u32 \<times> u32"
  ct_depth :: bool

datatype blit_effect = BlitReads | BlitOverwrites | BlitNeither

definition blit_effect_on :: "(u64 \<rightharpoonup> u64) \<Rightarrow> blit_command \<Rightarrow> cleared_target \<Rightarrow> blit_effect" where
  "blit_effect_on views b target =
     (case blit_from_repr (bc_cmd b) of
        Some CopyTextureToTexture \<Rightarrow>
          if handle_names_texture views (bc_src_handle b) (ct_texture target) then BlitReads
          else if handle_names_texture views (bc_dst_handle b) (ct_texture target)
                  \<and> bc_dst_mip_level b = ct_level target \<and> bc_dst_slice b = ct_slice target \<and> bc_dst_offset b = 0
                  \<and> bc_depth b \<le> 1 \<and> (bc_region_w b, bc_region_h b) = ct_size target
          then BlitOverwrites else BlitNeither
      | Some TransferDepth \<Rightarrow>
          if handle_names_texture views (bc_src_handle b) (ct_texture target) then BlitReads
          else if ct_depth target \<and> ct_slice target = 0 \<and> handle_names_texture views (bc_dst_handle b) (ct_texture target)
                  \<and> bc_dst_mip_level b = ct_level target
          then BlitOverwrites else BlitNeither
      | Some GenerateMipmaps \<Rightarrow>
          if handle_names_texture views (bc_dst_handle b) (ct_texture target) then BlitReads else BlitNeither
      | Some _ \<Rightarrow> BlitNeither
      | None \<Rightarrow>
          if bc_src_handle b = ct_texture target \<or> bc_dst_handle b = ct_texture target then BlitReads else BlitNeither)"

definition dead_clear_candidate :: "pass \<Rightarrow> cleared_target list option" where
  "dead_clear_candidate p =
     (if pp_leading_blits p \<noteq> [] \<or> pp_has_counting_visibility p \<or> has_draw p
         \<or> ca_resolve_texture (pp_color p) \<noteq> 0 \<or> ca_msaa_texture (pp_color p) \<noteq> 0
         \<or> list_ex (\<lambda>a. ca_resolve_texture a \<noteq> 0 \<or> ca_msaa_texture a \<noteq> 0) (pp_extra_color p)
         \<or> pp_depth_texture p \<noteq> 0 \<and> is_sclear (pp_stencil_load p)
      then None
      else
        (let color = (if ca_texture (pp_color p) \<noteq> 0 \<and> is_cclear (ca_load (pp_color p)) then [pp_color p] else []);
             extra = filter (\<lambda>a. ca_is_bound a \<and> is_cclear (ca_load a)) (pp_extra_color p);
             targets = map (\<lambda>a. \<lparr>ct_texture = ca_texture a, ct_slice = ca_slice a, ct_level = ca_level a, ct_size = ca_size a,
                                 ct_depth = False\<rparr>) (color @ extra)
               @ (if pp_depth_texture p \<noteq> 0 \<and> is_dclear (pp_depth_load p)
                  then [\<lparr>ct_texture = pp_depth_texture p, ct_slice = 0, ct_level = pp_depth_level p, ct_size = pp_depth_size p,
                         ct_depth = True\<rparr>] else [])
         in if targets = [] then None else Some targets))"

fun blits_decide :: "(u64 \<rightharpoonup> u64) \<Rightarrow> cleared_target \<Rightarrow> blit_command list \<Rightarrow> bool option" where
  "blits_decide views target [] = None"
| "blits_decide views target (b # bs) =
     (case blit_effect_on views b target of
        BlitReads \<Rightarrow> Some False | BlitOverwrites \<Rightarrow> Some True | BlitNeither \<Rightarrow> blits_decide views target bs)"

fun scan_overwritten :: "(u64 \<rightharpoonup> u64) \<Rightarrow> u64 set \<Rightarrow> cleared_target \<Rightarrow> pass list \<Rightarrow> bool" where
  "scan_overwritten views sampled target [] = False"
| "scan_overwritten views sampled target (cand # rest) =
     (case blits_decide views target (pp_leading_blits cand) of
        Some overwritten \<Rightarrow> overwritten
      | None \<Rightarrow>
          if pass_samples_texture views sampled cand (ct_texture target) \<or> pass_attaches_texture cand (ct_texture target)
             \<or> pass_resolves_into views cand (ct_texture target)
          then False
          else scan_overwritten views sampled target rest)"

definition overwritten_before_read :: "(u64 \<rightharpoonup> u64) \<Rightarrow> u64 set \<Rightarrow> pass list \<Rightarrow> cleared_target \<Rightarrow> bool" where
  "overwritten_before_read views sampled rest target =
     (if fst (ct_size target) = 0 \<or> snd (ct_size target) = 0 then False else scan_overwritten views sampled target rest)"

fun drop_overwritten_clears :: "(u64 \<rightharpoonup> u64) \<Rightarrow> u64 set \<Rightarrow> pass list \<Rightarrow> pass list" where
  "drop_overwritten_clears views sampled [] = []"
| "drop_overwritten_clears views sampled (p # rest) =
     (let rest' = drop_overwritten_clears views sampled rest
      in case dead_clear_candidate p of
           None \<Rightarrow> p # rest'
         | Some targets \<Rightarrow> if list_all (overwritten_before_read views sampled rest') targets then rest' else p # rest')"

definition drop_overwritten_clear_only_passes :: "pass_state \<Rightarrow> pass_state" where
  "drop_overwritten_clear_only_passes st =
     st\<lparr>ps_passes := drop_overwritten_clears (ps_texture_view_to_base st) (ps_frame_sampled_textures st) (ps_passes st)\<rparr>"

section \<open>Rule E: a clear moved into the load of a later pass\<close>

record clear_merge =
  cg_color :: u64
  cg_color_srgb :: u64
  cg_color_subresource :: u32
  cg_extra :: "(u64 \<times> u32) list"
  cg_depth :: u64
  cg_depth_level :: u32
  cg_needs_color :: bool
  cg_needs_depth :: bool
  cg_needs_stencil :: bool

definition clear_merge_of :: "pass \<Rightarrow> clear_merge" where
  "clear_merge_of p =
     (let has_work = (pp_leading_blits p \<noteq> [] \<or> has_draw p)
      in \<lparr>cg_color = ca_texture (pp_color p), cg_color_srgb = ca_srgb_texture (pp_color p),
          cg_color_subresource = ca_subresource (pp_color p),
          cg_extra = map (\<lambda>a. (ca_texture a, ca_subresource a)) (pp_extra_color p),
          cg_depth = pp_depth_texture p, cg_depth_level = pp_depth_level p,
          cg_needs_color = (\<not> has_work \<and> (is_cclear (ca_load (pp_color p))
             \<or> list_ex (\<lambda>a. ca_is_bound a \<and> is_cclear (ca_load a)) (pp_extra_color p))),
          cg_needs_depth = (\<not> has_work \<and> is_dclear (pp_depth_load p)),
          cg_needs_stencil = (\<not> has_work \<and> pp_depth_texture p \<noteq> 0 \<and> is_sclear (pp_stencil_load p))\<rparr>)"

definition attaches_target_depth :: "clear_merge \<Rightarrow> pass \<Rightarrow> bool" where
  "attaches_target_depth want cand \<longleftrightarrow> pp_depth_texture cand = cg_depth want \<and> pp_depth_level cand = cg_depth_level want"

definition same_set :: "clear_merge \<Rightarrow> pass \<Rightarrow> bool" where
  "same_set want cand \<longleftrightarrow> map (\<lambda>a. (ca_texture a, ca_subresource a)) (pp_extra_color cand) = cg_extra want"

text \<open>The conditions under which the search gives up at a pass before asking whether it is the target.\<close>

definition merge_barred :: "(u64 \<rightharpoonup> u64) \<Rightarrow> u64 set \<Rightarrow> clear_merge \<Rightarrow> pass \<Rightarrow> bool" where
  "merge_barred views sampled want cand \<longleftrightarrow>
     cg_needs_color want \<and> pass_reads_texture views sampled cand (cg_color want)
     \<or> cg_needs_color want \<and> list_ex (\<lambda>(tex, _). tex \<noteq> 0 \<and> pass_reads_texture views sampled cand tex) (cg_extra want)
     \<or> cg_needs_color want \<and> (blit_list_writes (pp_leading_blits cand) (cg_color want)
          \<or> list_ex (\<lambda>(tex, _). blit_list_writes (pp_leading_blits cand) tex) (cg_extra want))
     \<or> (cg_needs_depth want \<or> cg_needs_stencil want) \<and> blit_list_writes (pp_leading_blits cand) (cg_depth want)
     \<or> cg_needs_color want \<and> (pass_resolves_into views cand (cg_color want)
          \<or> list_ex (\<lambda>(tex, _). pass_resolves_into views cand tex) (cg_extra want))
     \<or> cg_needs_color want \<and> \<not> same_set want cand
         \<and> list_ex (\<lambda>(tex, _). tex \<noteq> 0 \<and> (ca_texture (pp_color cand) = tex
              \<or> list_ex (\<lambda>a. ca_texture a = tex) (pp_extra_color cand))) (cg_extra want)
     \<or> cg_needs_color want \<and> same_set want cand
         \<and> list_ex (\<lambda>a. ca_is_bound a \<and> ca_load a \<noteq> CLoad) (pp_extra_color cand)
     \<or> (cg_needs_depth want \<or> cg_needs_stencil want) \<and> pass_reads_texture views sampled cand (cg_depth want)
     \<or> cg_needs_color want \<and> ca_texture (pp_color cand) = cg_color want
         \<and> ca_subresource (pp_color cand) = cg_color_subresource want \<and> is_cclear (ca_load (pp_color cand))
     \<or> cg_needs_depth want \<and> attaches_target_depth want cand \<and> is_dclear (pp_depth_load cand)
     \<or> cg_needs_stencil want \<and> attaches_target_depth want cand \<and> is_sclear (pp_stencil_load cand)
     \<or> (cg_needs_depth want \<or> cg_needs_stencil want) \<and> attaches_target_depth want cand \<and> \<not> color_extent_covers_depth cand"

definition merge_matches :: "clear_merge \<Rightarrow> pass \<Rightarrow> bool" where
  "merge_matches want cand \<longleftrightarrow>
     (\<not> cg_needs_color want \<or> same_set want cand \<and> ca_texture (pp_color cand) = cg_color want
        \<and> ca_srgb_texture (pp_color cand) = cg_color_srgb want
        \<and> ca_subresource (pp_color cand) = cg_color_subresource want \<and> ca_load (pp_color cand) = CLoad)
     \<and> (\<not> cg_needs_depth want \<or> attaches_target_depth want cand \<and> pp_depth_load cand = DLoad)
     \<and> (\<not> cg_needs_stencil want \<or> attaches_target_depth want cand \<and> pp_stencil_load cand = SLoad)"

definition merge_consumed :: "clear_merge \<Rightarrow> pass \<Rightarrow> bool" where
  "merge_consumed want cand \<longleftrightarrow>
     cg_needs_color want \<and> list_ex (\<lambda>(tex, sub). pass_attaches_color cand tex sub)
       ((cg_color want, cg_color_subresource want) # cg_extra want)
     \<or> cg_needs_depth want \<and> attaches_target_depth want cand \<and> pp_depth_load cand = DLoad
     \<or> cg_needs_stencil want \<and> attaches_target_depth want cand \<and> pp_stencil_load cand = SLoad"

fun find_clear_merge_target :: "(u64 \<rightharpoonup> u64) \<Rightarrow> u64 set \<Rightarrow> clear_merge \<Rightarrow> pass list \<Rightarrow> nat option" where
  "find_clear_merge_target views sampled want [] = None"
| "find_clear_merge_target views sampled want (cand # rest) =
     (if merge_barred views sampled want cand then None
      else if merge_matches want cand then Some 0
      else if merge_consumed want cand then None
      else map_option Suc (find_clear_merge_target views sampled want rest))"

text \<open>The load actions of the dropped pass \<open>p\<close>, taken over by the target.\<close>

definition take_clears :: "clear_merge \<Rightarrow> pass \<Rightarrow> pass \<Rightarrow> pass" where
  "take_clears want p target =
     (let t1 = (if cg_needs_color want
                then target\<lparr>pp_color := (pp_color target)\<lparr>ca_load := ca_load (pp_color p)\<rparr>,
                            pp_extra_color := map2 (\<lambda>a mine. if ca_is_bound a then a\<lparr>ca_load := ca_load mine\<rparr> else a)
                              (pp_extra_color target) (pp_extra_color p)\<rparr>
                else target);
          t2 = (if cg_needs_depth want then t1\<lparr>pp_depth_load := pp_depth_load p\<rparr> else t1)
      in if cg_needs_stencil want then t2\<lparr>pp_stencil_load := pp_stencil_load p\<rparr> else t2)"

function coalesce_clears :: "(u64 \<rightharpoonup> u64) \<Rightarrow> u64 set \<Rightarrow> pass list \<Rightarrow> pass list" where
  "coalesce_clears views sampled [] = []"
| "coalesce_clears views sampled (p # rest) =
     (let want = clear_merge_of p
      in if \<not> cg_needs_color want \<and> \<not> cg_needs_depth want \<and> \<not> cg_needs_stencil want
         then p # coalesce_clears views sampled rest
         else case find_clear_merge_target views sampled want rest of
                Some t \<Rightarrow> coalesce_clears views sampled (rest[t := take_clears want p (rest ! t)])
              | None \<Rightarrow> p # coalesce_clears views sampled rest)"
  by pat_completeness auto
termination by (relation "measure (\<lambda>(_, _, ps). length ps)") auto

definition coalesce_clear_only_passes :: "pass_state \<Rightarrow> pass_state" where
  "coalesce_clear_only_passes st =
     st\<lparr>ps_passes := coalesce_clears (ps_texture_view_to_base st) (ps_frame_sampled_textures st) (ps_passes st)\<rparr>"

section \<open>Rule A, corrected: a discarded load of a sampled texture\<close>

definition load_if_sampled :: "u64 set \<Rightarrow> pass \<Rightarrow> pass" where
  "load_if_sampled seen p =
     (let color = (\<lambda>a. if ca_load a = CDontCare \<and> ca_texture a \<in> seen then a\<lparr>ca_load := CLoad\<rparr> else a)
      in p\<lparr>pp_color := color (pp_color p),
           pp_extra_color := map (\<lambda>a. if ca_is_bound a then color a else a) (pp_extra_color p),
           pp_depth_load := (if pp_depth_load p = DDontCare \<and> pp_depth_texture p \<in> seen then DLoad else pp_depth_load p),
           pp_stencil_load := (if pp_stencil_load p = SDontCare \<and> pp_depth_texture p \<in> seen then SLoad else pp_stencil_load p)\<rparr>)"

definition finalize_load_actions :: "pass_state \<Rightarrow> pass_state" where
  "finalize_load_actions st = st\<lparr>ps_passes := map (load_if_sampled (ps_seen_sampled_textures st)) (ps_passes st)\<rparr>"

section \<open>Rules B and C: stores nothing later reads\<close>

definition depth_touched_between :: "pass_state \<Rightarrow> pass list \<Rightarrow> u64 \<Rightarrow> bool" where
  "depth_touched_between st between texture =
     list_ex (\<lambda>p. pass_reads_texture (ps_texture_view_to_base st) (ps_frame_sampled_textures st) p texture
                  \<or> blit_list_writes (pp_leading_blits p) texture
                  \<or> pass_resolves_into (ps_texture_view_to_base st) p texture) between"

text \<open>The passes after \<open>first\<close> up to and with the pass \<open>next\<close> names by the length of the list from it on.\<close>

definition passes_through :: "pass list \<Rightarrow> nat \<Rightarrow> pass list" where
  "passes_through rest next = take (length rest - next + 1) rest"

definition discard_depth_stores :: "pass \<Rightarrow> pass" where
  "discard_depth_stores p = p\<lparr>pp_depth_store := DontStore, pp_stencil_store := DontStore\<rparr>"

fun discard_last_stores :: "pass_state \<Rightarrow> pass list \<Rightarrow> pass list \<times> (u64 \<rightharpoonup> nat option)" where
  "discard_last_stores st [] = ([], Map.empty)"
| "discard_last_stores st (p # rest) =
     (case discard_last_stores st rest of
        (rest', unused_tail) \<Rightarrow>
          let texture = pp_depth_texture p
          in if texture = 0 then (p # rest', unused_tail)
             else
               let reason = (case unused_tail texture of
                      None \<Rightarrow> True
                    | Some (Some next) \<Rightarrow> \<not> depth_touched_between st (passes_through rest' next) texture
                    | Some None \<Rightarrow> False);
                   discarded = (reason \<and> \<not> pp_sampleable p \<and> texture \<notin> ps_seen_sampled_textures st);
                   p' = (if discarded then discard_depth_stores p else p);
                   unused = (discarded \<and> \<not> pp_used p)
               in (p' # rest', unused_tail(texture \<mapsto> (if unused then Some (length rest' + 1) else None))))"

fun discard_slots :: "u64 set \<Rightarrow> (nat \<times> color_attachment) list \<Rightarrow> (u64 \<times> u32 \<rightharpoonup> color_load) \<Rightarrow> nat set \<times> (u64 \<times> u32 \<rightharpoonup> color_load)"
where
  "discard_slots seen [] next_use = ({}, next_use)"
| "discard_slots seen ((slot, a) # as) next_use =
     (let key = (ca_texture a, ca_subresource a);
          discards = (case next_use key of Some load \<Rightarrow> is_cclear load \<and> ca_texture a \<notin> seen | None \<Rightarrow> False)
      in case discard_slots seen as (next_use(key \<mapsto> ca_load a)) of
           (slots, next_use') \<Rightarrow> (if discards then insert slot slots else slots, next_use'))"

definition set_color_stores :: "nat set \<Rightarrow> pass \<Rightarrow> pass" where
  "set_color_stores slots p =
     (let mark = (\<lambda>(i, a). if i \<in> slots then a\<lparr>ca_store := DontStore\<rparr> else a)
      in p\<lparr>pp_color := mark (0, pp_color p), pp_extra_color := map mark (enumerate 1 (pp_extra_color p))\<rparr>)"

fun discard_color_stores :: "u64 set \<Rightarrow> pass list \<Rightarrow> pass list \<times> (u64 \<times> u32 \<rightharpoonup> color_load)" where
  "discard_color_stores seen [] = ([], Map.empty)"
| "discard_color_stores seen (p # rest) =
     (case discard_color_stores seen rest of
        (rest', next_use) \<Rightarrow>
          (case discard_slots seen (bound_color_attachments p) next_use of
             (slots, next_use') \<Rightarrow> (set_color_stores slots p # rest', next_use')))"

fun discard_stores_before_clears :: "pass_state \<Rightarrow> pass list \<Rightarrow> pass list \<times> (u64 \<times> u32 \<rightharpoonup> nat)" where
  "discard_stores_before_clears st [] = ([], Map.empty)"
| "discard_stores_before_clears st (p # rest) =
     (case discard_stores_before_clears st rest of
        (rest', next_use) \<Rightarrow>
          let texture = pp_depth_texture p; key = (texture, pp_depth_level p)
          in if texture = 0 then (p # rest', next_use)
             else
               let p' = (case next_use key of
                      None \<Rightarrow> p
                    | Some next \<Rightarrow>
                        let q = rest' ! (length rest' - next)
                        in if \<not> pp_sampleable p \<and> texture \<notin> ps_seen_sampled_textures st
                              \<and> \<not> depth_touched_between st (passes_through rest' next) texture \<and> color_extent_covers_depth q
                           then let p1 = (if is_dclear (pp_depth_load q) then p\<lparr>pp_depth_store := DontStore\<rparr> else p)
                                in if is_sclear (pp_stencil_load q) \<and> pp_has_stencil p1
                                   then p1\<lparr>pp_stencil_store := DontStore\<rparr> else p1
                           else p)
               in (p' # rest', next_use(key \<mapsto> length rest' + 1)))"

definition note_stencil_writes :: "pass list \<Rightarrow> u64 set \<Rightarrow> u64 set" where
  "note_stencil_writes ps written =
     written \<union> pp_depth_texture ` {p \<in> set ps. pp_depth_texture p \<noteq> 0 \<and> (pp_stencil_written p \<or> is_sclear (pp_stencil_load p))}"

definition discard_stencil :: "u64 set \<Rightarrow> pass \<Rightarrow> pass" where
  "discard_stencil written p =
     (if pp_depth_texture p = 0 \<or> \<not> pp_has_stencil p \<or> pp_depth_texture p \<in> written then p
      else p\<lparr>pp_stencil_load := (if pp_stencil_load p = SLoad then SDontCare else pp_stencil_load p), pp_stencil_store := DontStore\<rparr>)"

definition discard_unwritten_stencil :: "pass_state \<Rightarrow> pass_state" where
  "discard_unwritten_stencil st =
     (let written = note_stencil_writes (ps_passes st) (ps_stencil_written_textures st)
      in st\<lparr>ps_stencil_written_textures := written, ps_passes := map (discard_stencil written) (ps_passes st)\<rparr>)"

definition discard_unused_loads :: "pass \<Rightarrow> pass" where
  "discard_unused_loads p =
     (if pp_depth_texture p = 0 \<or> pp_used p then p
      else
        let p1 = (if pp_depth_store p = DontStore \<and> pp_depth_load p = DLoad then p\<lparr>pp_depth_load := DDontCare\<rparr> else p)
        in if pp_has_stencil p1 \<and> pp_stencil_store p1 = DontStore \<and> pp_stencil_load p1 = SLoad
           then p1\<lparr>pp_stencil_load := SDontCare\<rparr> else p1)"

definition resolve_attachment :: "bool \<Rightarrow> u64 \<Rightarrow> (u64 \<times> u32) set \<Rightarrow> color_attachment \<Rightarrow> color_attachment \<times> (u64 \<times> u32) set" where
  "resolve_attachment discard backbuffer resolved a =
     (let key = (ca_texture a, ca_subresource a)
      in if ca_msaa_texture a \<noteq> 0 \<and> key \<notin> resolved
         then (let a' = a\<lparr>ca_resolve_texture := ca_resolve_view a\<rparr>
               in if discard \<and> ca_texture a = backbuffer then a'\<lparr>ca_store := DontStore\<rparr> else a',
               insert key resolved)
         else (a, resolved))"

fun resolve_attachments :: "bool \<Rightarrow> u64 \<Rightarrow> (u64 \<times> u32) set \<Rightarrow> color_attachment list \<Rightarrow> color_attachment list \<times> (u64 \<times> u32) set"
where
  "resolve_attachments discard backbuffer resolved [] = ([], resolved)"
| "resolve_attachments discard backbuffer resolved (a # as) =
     (case resolve_attachment discard backbuffer resolved a of
        (a', r1) \<Rightarrow> (case resolve_attachments discard backbuffer r1 as of (as', r2) \<Rightarrow> (a' # as', r2)))"

fun assign_resolves :: "bool \<Rightarrow> u64 \<Rightarrow> pass list \<Rightarrow> pass list \<times> (u64 \<times> u32) set" where
  "assign_resolves discard backbuffer [] = ([], {})"
| "assign_resolves discard backbuffer (p # rest) =
     (case assign_resolves discard backbuffer rest of
        (rest', resolved) \<Rightarrow>
          (case resolve_attachment discard backbuffer resolved (pp_color p) of
             (color, r1) \<Rightarrow>
               (case resolve_attachments discard backbuffer r1 (pp_extra_color p) of
                  (extra, r2) \<Rightarrow> (p\<lparr>pp_color := color, pp_extra_color := extra\<rparr> # rest', r2))))"

definition assign_multisample_resolves :: "bool \<Rightarrow> pass_state \<Rightarrow> pass_state" where
  "assign_multisample_resolves presenting st =
     (let discard = (presenting \<and> ps_backbuffer_contents st = Undefined \<and> ps_backbuffer_texture st \<noteq> 0)
      in st\<lparr>ps_passes := fst (assign_resolves discard (ps_backbuffer_texture st) (ps_passes st))\<rparr>)"

definition finalize_store_actions :: "bool \<Rightarrow> pass_state \<Rightarrow> pass_state" where
  "finalize_store_actions frame_continues st =
     (let st1 = (if frame_continues then st else st\<lparr>ps_passes := fst (discard_last_stores st (ps_passes st))\<rparr>);
          st2 = st1\<lparr>ps_passes := fst (discard_color_stores (ps_seen_sampled_textures st1) (ps_passes st1))\<rparr>;
          st3 = st2\<lparr>ps_passes := fst (discard_stores_before_clears st2 (ps_passes st2))\<rparr>;
          st4 = discard_unwritten_stencil st3;
          st5 = st4\<lparr>ps_passes := map discard_unused_loads (ps_passes st4)\<rparr>
      in assign_multisample_resolves (\<not> frame_continues) st5)"

section \<open>Rules G, H and F: attachments and passes without effect\<close>

definition strip_dead_color :: "pass \<Rightarrow> pass" where
  "strip_dead_color p =
     (if has_draw p \<or> pp_leading_blits p \<noteq> [] then p
      else
        let p1 = p\<lparr>pp_extra_color := map (\<lambda>a. if ca_is_bound a \<and> \<not> ca_written_without_draws a then ca_none else a)
                     (pp_extra_color p)\<rparr>
        in if ca_texture (pp_color p1) \<noteq> 0 \<and> \<not> color_written_without_draws p1 \<and> pp_depth_texture p1 \<noteq> 0
           then drop_color_attachment p1 else p1)"

definition strip_dead_color_in_clear_only_passes :: "pass_state \<Rightarrow> pass_state" where
  "strip_dead_color_in_clear_only_passes st = st\<lparr>ps_passes := map strip_dead_color (ps_passes st)\<rparr>"

definition in_clear_quad :: "(nat \<times> nat) list \<Rightarrow> nat \<Rightarrow> bool" where
  "in_clear_quad ranges idx = list_ex (\<lambda>(s, e). s \<le> idx \<and> idx < e) ranges"

definition drain_ranges :: "(nat \<times> nat) list \<Rightarrow> command list \<Rightarrow> command list" where
  "drain_ranges ranges cs = foldr (\<lambda>(start, end) cs. take start cs @ drop end cs) ranges cs"

definition no_color_pipelines :: "(u64 \<rightharpoonup> u64) \<Rightarrow> (nat \<times> nat) list \<Rightarrow> command list \<Rightarrow> command list" where
  "no_color_pipelines alt ranges cs =
     map (\<lambda>(idx, c). if in_clear_quad ranges idx then c
                     else if cm_cmd c = ct_code SetRenderPipelineState
                     then (case alt (cm_b c) of Some no_color \<Rightarrow> c\<lparr>cm_b := no_color\<rparr> | None \<Rightarrow> c)
                     else c) (enumerate 0 cs)"

definition strip_color_from_draws :: "(u64 \<rightharpoonup> u64) \<Rightarrow> pass \<Rightarrow> pass" where
  "strip_color_from_draws alt p =
     (let ranges = pp_color_clear_quad_ranges p; indexed = enumerate 0 (pp_commands p)
      in if pp_writes_observed p \<or> ca_texture (pp_color p) = 0 \<or> pp_depth_texture p = 0 \<or> \<not> color_extent_covers_depth p
            \<or> color_written_without_draws p \<or> list_ex ca_written_without_draws (pp_extra_color p) then p
         else if \<not> list_ex (\<lambda>(idx, c). \<not> in_clear_quad ranges idx \<and> is_draw c) indexed then p
         else if \<not> list_all (\<lambda>(idx, c). cm_cmd c \<noteq> ct_code SetRenderPipelineState \<or> in_clear_quad ranges idx
                                       \<or> alt (cm_b c) \<noteq> None) indexed then p
         else if ranges \<noteq> [] \<and> list_ex (\<lambda>(_, a). ca_store a = Store) (bound_color_attachments p) then p
         else
           (drop_color_attachment p)
             \<lparr>pp_commands := drain_ranges ranges (no_color_pipelines alt ranges (pp_commands p)),
              pp_color_clear_quad_ranges := [], pp_extra_color := replicate 3 ca_none\<rparr>)"

definition strip_color_from_no_color_draw_passes :: "(u64 \<rightharpoonup> u64) \<Rightarrow> pass_state \<Rightarrow> pass_state" where
  "strip_color_from_no_color_draw_passes alt st = st\<lparr>ps_passes := map (strip_color_from_draws alt) (ps_passes st)\<rparr>"

definition keeps_pass :: "pass \<Rightarrow> bool" where
  "keeps_pass p \<longleftrightarrow> has_draw p \<or> pp_leading_blits p \<noteq> [] \<or> color_written_without_draws p
     \<or> list_ex (\<lambda>a. ca_is_bound a \<and> ca_written_without_draws a) (pp_extra_color p) \<or> depth_written_without_draws p"

definition cull_dead_clear_only_passes :: "pass_state \<Rightarrow> pass_state" where
  "cull_dead_clear_only_passes st = st\<lparr>ps_passes := filter keeps_pass (ps_passes st)\<rparr>"

section \<open>Rule J: adjacent passes on the same attachments\<close>

definition JOIN_STATES :: "command_type list" where
  "JOIN_STATES = [SetRenderPipelineState, SetViewport, SetDepthStencilState, SetCullMode, SetScissorRect, SetTriangleFillMode,
     SetDepthBias, SetStencilReference, SetBlendColor, SetVisibilityResultMode]"

definition fresh_command :: "command_type \<Rightarrow> command" where
  "fresh_command kind = \<lparr>cm_cmd = ct_code kind, cm_a = 0, cm_b = 0, cm_c = 0, cm_d = 0\<rparr>"

definition sets_fresh_value :: "command \<Rightarrow> bool" where
  "sets_fresh_value c =
     (if cm_cmd c = ct_code SetVisibilityResultMode then cm_a c = 0
      else c \<in> {fresh_command SetTriangleFillMode, fresh_command SetDepthBias, fresh_command SetStencilReference,
                fresh_command SetBlendColor})"

text \<open>
  A visibility offset is a \<^verbatim>\<open>u32\<close> on the wire, so the conversion the source expects to succeed keeps it.
\<close>

definition fresh_state_command :: "command \<Rightarrow> command option" where
  "fresh_state_command c =
     (if cm_cmd c = ct_code SetTriangleFillMode then Some (fresh_command SetTriangleFillMode)
      else if cm_cmd c = ct_code SetDepthBias then Some (fresh_command SetDepthBias)
      else if cm_cmd c = ct_code SetStencilReference then Some (fresh_command SetStencilReference)
      else if cm_cmd c = ct_code SetBlendColor then Some (fresh_command SetBlendColor)
      else if cm_cmd c = ct_code SetVisibilityResultMode
      then Some \<lparr>cm_cmd = ct_code SetVisibilityResultMode, cm_a = 0, cm_b = cm_b c, cm_c = 0, cm_d = 0\<rparr>
      else None)"

definition attachment_matches :: "color_attachment \<Rightarrow> color_attachment \<Rightarrow> bool" where
  "attachment_matches x y \<longleftrightarrow> ca_texture x = ca_texture y
     \<and> (ca_texture x = 0 \<or> ca_srgb_texture x = ca_srgb_texture y \<and> ca_msaa_texture x = ca_msaa_texture y
          \<and> ca_msaa_srgb_texture x = ca_msaa_srgb_texture y \<and> ca_subresource x = ca_subresource y
          \<and> ca_size x = ca_size y \<and> ca_format x = ca_format y)"

definition attachments_match :: "pass \<Rightarrow> pass \<Rightarrow> bool" where
  "attachments_match a b \<longleftrightarrow>
     attachment_matches (pp_color a) (pp_color b)
     \<and> list_all (\<lambda>(x, y). attachment_matches x y) (zip (pp_extra_color a) (pp_extra_color b))
     \<and> pp_depth_texture a = pp_depth_texture b
     \<and> (pp_depth_texture a = 0 \<or> pp_depth_level a = pp_depth_level b \<and> pp_depth_size a = pp_depth_size b
          \<and> pp_sampleable a = pp_sampleable b \<and> pp_has_stencil a = pp_has_stencil b)
     \<and> (ca_texture (pp_color a) \<noteq> 0 \<or> pp_depth_texture a \<noteq> 0 \<or> list_ex ca_is_bound (pp_extra_color a))"

definition color_carries_over :: "pass \<Rightarrow> pass \<Rightarrow> bool" where
  "color_carries_over prev next \<longleftrightarrow>
     (ca_texture (pp_color prev) = 0 \<or> ca_store (pp_color prev) = Store \<and> ca_resolve_texture (pp_color prev) = 0
        \<and> ca_load (pp_color next) = CLoad)
     \<and> list_all (\<lambda>(mine, theirs). \<not> ca_is_bound mine \<or> ca_store mine = Store \<and> ca_resolve_texture mine = 0
          \<and> ca_load theirs = CLoad) (zip (pp_extra_color prev) (pp_extra_color next))"

definition depth_carries_over :: "pass \<Rightarrow> pass \<Rightarrow> bool" where
  "depth_carries_over prev next \<longleftrightarrow>
     pp_depth_texture prev = 0
     \<or> (pp_depth_load next = DDontCare \<or> pp_depth_load next = DLoad \<and> pp_depth_store prev = Store)
       \<and> (\<not> pp_has_stencil prev
          \<or> pp_stencil_load next = SDontCare \<or> pp_stencil_load next = SLoad \<and> pp_stencil_store prev = Store)"

definition set_before_draw :: "command list \<Rightarrow> command_type \<Rightarrow> bool" where
  "set_before_draw cs kind = list_ex (\<lambda>c. cm_cmd c = ct_code kind) (takeWhile (\<lambda>c. \<not> is_draw c) cs)"

definition last_set :: "command list \<Rightarrow> command_type \<Rightarrow> command option" where
  "last_set cs kind = find (\<lambda>c. cm_cmd c = ct_code kind) (rev cs)"

fun join_commands :: "command list \<Rightarrow> command list option" where
  "join_commands [] = Some []"
| "join_commands (cmd # ls) =
     (if sets_fresh_value cmd then join_commands ls
      else case fresh_state_command cmd of None \<Rightarrow> None | Some c \<Rightarrow> map_option (Cons c) (join_commands ls))"

definition merge_join :: "(u64 \<rightharpoonup> u64) \<Rightarrow> u64 set \<Rightarrow> pass \<Rightarrow> pass \<Rightarrow> command list option" where
  "merge_join views sampled prev next =
     (if \<not> attachments_match prev next \<or> pp_visibility_buffer prev \<noteq> pp_visibility_buffer next \<or> pp_leading_blits next \<noteq> []
         \<or> \<not> color_carries_over prev next \<or> \<not> depth_carries_over prev next then None
      else if list_ex (pass_samples_texture views sampled next)
                (ca_texture (pp_color prev) # pp_depth_texture prev # map ca_texture (pp_extra_color prev)) then None
      else if \<not> has_draw next then Some []
      else join_commands (List.map_filter (\<lambda>kind. if set_before_draw (pp_commands next) kind then None
                                            else last_set (pp_commands prev) kind) JOIN_STATES))"

definition absorb :: "pass \<Rightarrow> pass \<Rightarrow> command list \<Rightarrow> pass" where
  "absorb prev next join =
     (let offset = length (pp_commands prev) + length join
      in prev\<lparr>pp_commands := pp_commands prev @ join @ pp_commands next,
              pp_color_clear_quad_ranges := pp_color_clear_quad_ranges prev
                @ map (\<lambda>(start, end). (start + offset, end + offset)) (pp_color_clear_quad_ranges next),
              pp_color := (pp_color prev)\<lparr>ca_store := ca_store (pp_color next), ca_resolve_texture := ca_resolve_texture (pp_color next)\<rparr>,
              pp_extra_color := map2 (\<lambda>mine theirs. mine\<lparr>ca_store := ca_store theirs, ca_resolve_texture := ca_resolve_texture theirs\<rparr>)
                (pp_extra_color prev) (pp_extra_color next),
              pp_depth_store := pp_depth_store next, pp_stencil_store := pp_stencil_store next,
              pp_used := pp_used prev \<or> pp_used next, pp_stencil_written := pp_stencil_written prev \<or> pp_stencil_written next,
              pp_has_counting_visibility := pp_has_counting_visibility prev \<or> pp_has_counting_visibility next,
              pp_writes_observed := pp_writes_observed prev \<or> pp_writes_observed next\<rparr>)"

fun merge_adjacent :: "(u64 \<rightharpoonup> u64) \<Rightarrow> u64 set \<Rightarrow> pass \<Rightarrow> pass list \<Rightarrow> pass list" where
  "merge_adjacent views sampled prev [] = [prev]"
| "merge_adjacent views sampled prev (next # rest) =
     (case merge_join views sampled prev next of
        None \<Rightarrow> prev # merge_adjacent views sampled next rest
      | Some join \<Rightarrow> merge_adjacent views sampled (absorb prev next join) rest)"

definition merge_adjacent_identical_passes :: "pass_state \<Rightarrow> pass_state" where
  "merge_adjacent_identical_passes st =
     (case drop (ps_upload_pass_end st) (ps_passes st) of
        first # rest \<Rightarrow>
          st\<lparr>ps_passes := take (ps_upload_pass_end st) (ps_passes st)
               @ merge_adjacent (ps_texture_view_to_base st) (ps_frame_sampled_textures st) first rest\<rparr>
      | [] \<Rightarrow> st)"

section \<open>Rule K: a load under a draw that covers\<close>

definition discard_covered_load :: "pass \<Rightarrow> pass" where
  "discard_covered_load p =
     (if pp_first_draw_covers p \<and> ca_texture (pp_color p) \<noteq> 0 \<and> ca_load (pp_color p) = CLoad
      then p\<lparr>pp_color := (pp_color p)\<lparr>ca_load := CDontCare\<rparr>\<rparr> else p)"

definition discard_covered_color_loads :: "pass_state \<Rightarrow> pass_state" where
  "discard_covered_color_loads st = st\<lparr>ps_passes := map discard_covered_load (ps_passes st)\<rparr>"

section \<open>The rules in order\<close>

definition apply_pass_rules :: "(u64 \<rightharpoonup> u64) \<Rightarrow> bool \<Rightarrow> pass_state \<Rightarrow> pass_state" where
  "apply_pass_rules alt frame_continues st =
     (let st1 = drop_overwritten_clear_only_passes st;
          st2 = coalesce_clear_only_passes st1;
          st3 = finalize_load_actions st2;
          st4 = finalize_store_actions frame_continues st3;
          st5 = strip_dead_color_in_clear_only_passes st4;
          st6 = strip_color_from_no_color_draw_passes alt st5;
          st7 = cull_dead_clear_only_passes st6;
          st8 = merge_adjacent_identical_passes st7
      in discard_covered_color_loads st8)"

end
