(* ===== verification/Pass_Exec.thy ===== *)
theory Pass_Exec
  imports Pass_Rules
begin

text \<open>
  What a list of passes does to memory. Contents are ordered by definedness: \<open>bot\<close> is undefined,
  and \<open>x \<le> y\<close> says that \<open>y\<close> agrees with \<open>x\<close> wherever \<open>x\<close> is defined, so a rewrite is correct when it
  makes no location less defined than the recorded passes make it. A \<^verbatim>\<open>DontCare\<close> load starts from
  \<open>bot\<close> and a \<^verbatim>\<open>DontCare\<close> store leaves \<open>bot\<close>. What Metal computes is a parameter, \<open>gpu\<close>, with the laws
  \<open>gpu_ok\<close>: draws and blits are monotone, a draw reads the state and the textures it is bound to and
  the planes of its own pixel, and a blit reads and writes the textures it names.
\<close>

section \<open>Memory\<close>

datatype loc = ColorAt u64 u32 | SamplesAt u64 u32 | DepthAt u64 u32 | StencilAt u64 u32

fun loc_texture :: "loc \<Rightarrow> u64" where
  "loc_texture (ColorAt t _) = t"
| "loc_texture (SamplesAt t _) = t"
| "loc_texture (DepthAt t _) = t"
| "loc_texture (StencilAt t _) = t"

text \<open>The texture a sampler or a blit reads a location through; the samples of a target are read by its passes only.\<close>

fun read_through :: "loc \<Rightarrow> u64 option" where
  "read_through (SamplesAt _ _) = None"
| "read_through l = Some (loc_texture l)"

lemma read_throughD: "read_through l = Some t \<Longrightarrow> t = loc_texture l"
  by (cases l) simp_all

type_synonym 'c memory = "loc \<Rightarrow> 'c"

datatype slot = ColorSlot nat | DepthSlot | StencilSlot

type_synonym 'c tile = "slot \<Rightarrow> 'c"

text \<open>The planes the value of a slot after a draw is computed from.\<close>

definition slot_deps :: "slot \<Rightarrow> slot set" where
  "slot_deps s = (case s of ColorSlot k \<Rightarrow> {ColorSlot k, DepthSlot, StencilSlot} | _ \<Rightarrow> {DepthSlot, StencilSlot})"

section \<open>Encoder state\<close>

type_synonym state_key = "u32 \<times> u32"

definition join_keys :: "state_key set" where
  "join_keys = (\<lambda>kind. (ct_code kind, 0)) ` set JOIN_STATES"

text \<open>The slots of the encoder a command sets: a state, or an entry of an argument table.\<close>

definition keys_of :: "command \<Rightarrow> state_key set" where
  "keys_of c =
     (if cm_cmd c \<in> ct_code ` set JOIN_STATES then {(cm_cmd c, 0)}
      else if cm_cmd c = ct_code SetFragmentNullTexture
      then {(ct_code SetFragmentTexture, cm_a c), (ct_code SetFragmentSamplerState, cm_a c)}
      else if cm_cmd c = ct_code SetVertexNullTexture
      then {(ct_code SetVertexTexture, cm_a c), (ct_code SetVertexSamplerState, cm_a c)}
      else if cm_cmd c \<in> {ct_code SetVertexBytes, ct_code SetVertexBytesAt} then {(ct_code SetVertexBuffer, cm_a c)}
      else if cm_cmd c = ct_code SetFragmentBuffer then {(ct_code SetFragmentBytesAt, cm_a c)}
      else {(cm_cmd c, cm_a c)})"

type_synonym encoder_state = "state_key \<rightharpoonup> command"

definition set_state :: "command \<Rightarrow> encoder_state \<Rightarrow> encoder_state" where
  "set_state c es = (\<lambda>k. if k \<in> keys_of c then Some c else es k)"

text \<open>A state set to the value a fresh encoder has is a fresh state.\<close>

definition norm_state :: "encoder_state \<Rightarrow> encoder_state" where
  "norm_state es k = (case es k of None \<Rightarrow> None | Some c \<Rightarrow> if sets_fresh_value c then None else Some c)"

definition pipeline_key :: state_key where
  "pipeline_key = (ct_code SetRenderPipelineState, 0)"

section \<open>The GPU\<close>

datatype clear_value = ClearColor bool u32 u32 u32 u32 | ClearDepth u32 | ClearStencil u32

text \<open>What a render pass is set up with: its render area and the location behind each slot.\<close>

type_synonym pass_frame = "(u32 \<times> u32) option \<times> (slot \<Rightarrow> loc option)"

text \<open>
  \<open>g_clear l v\<close> is the location cleared to \<open>v\<close>, and \<open>g_part area v x\<close> the contents \<open>x\<close> after a clear that
  reaches only a smaller render area. \<open>g_uses\<close> answers which argument slots a draw reads under a
  pipeline, \<open>g_draw\<close> is the effect of a draw on the planes of the pass, \<open>g_resolve\<close> a multisample
  resolve through a linear or an sRGB view, and \<open>g_extent t level\<close> the size of a level.
\<close>

record 'c gpu =
  g_clear :: "loc \<Rightarrow> clear_value \<Rightarrow> 'c"
  g_part :: "(u32 \<times> u32) option \<Rightarrow> clear_value \<Rightarrow> 'c \<Rightarrow> 'c"
  g_uses :: "command option \<Rightarrow> command \<Rightarrow> state_key set"
  g_draw :: "pass_frame \<Rightarrow> encoder_state \<Rightarrow> command \<Rightarrow> 'c memory \<Rightarrow> 'c tile \<Rightarrow> 'c tile"
  g_blit :: "blit_command \<Rightarrow> 'c memory \<Rightarrow> 'c memory"
  g_resolve :: "bool \<Rightarrow> 'c \<Rightarrow> 'c"
  g_extent :: "u64 \<Rightarrow> u32 \<Rightarrow> u32 \<times> u32"

definition sub_of :: "u32 \<Rightarrow> u32 \<Rightarrow> u32" where
  "sub_of face level = face OR push_bit 16 level"

text \<open>The storage a handle names, and the textures a blit reads and writes.\<close>

definition base_of :: "(u64 \<rightharpoonup> u64) \<Rightarrow> u64 \<Rightarrow> u64" where
  "base_of views t = (case views t of Some b \<Rightarrow> b | None \<Rightarrow> t)"

definition blit_reads :: "(u64 \<rightharpoonup> u64) \<Rightarrow> blit_command \<Rightarrow> u64 option" where
  "blit_reads views b = map_option (base_of views) (blit_read_texture b)"

definition blit_writes :: "(u64 \<rightharpoonup> u64) \<Rightarrow> blit_command \<Rightarrow> u64 option" where
  "blit_writes views b = map_option (base_of views) (blit_written_texture b)"

text \<open>The locations a blit replaces whole, whatever they held.\<close>

definition blit_replaces :: "'c gpu \<Rightarrow> (u64 \<rightharpoonup> u64) \<Rightarrow> blit_command \<Rightarrow> loc \<Rightarrow> bool" where
  "blit_replaces g views b l \<longleftrightarrow>
     (let t = base_of views (bc_dst_handle b)
      in bc_dst_handle b \<noteq> 0
         \<and> (blit_from_repr (bc_cmd b) = Some CopyTextureToTexture \<and> bc_dst_offset b = 0 \<and> bc_depth b \<le> 1
              \<and> (bc_region_w b, bc_region_h b) = g_extent g t (bc_dst_mip_level b)
              \<and> (l = ColorAt t (sub_of (bc_dst_slice b) (bc_dst_mip_level b)) \<or> bc_dst_slice b = 0 \<and> l = DepthAt t (bc_dst_mip_level b))
            \<or> blit_from_repr (bc_cmd b) = Some TransferDepth \<and> l = DepthAt t (bc_dst_mip_level b)))"

definition blit_writes_stencil :: "blit_command \<Rightarrow> bool" where
  "blit_writes_stencil b \<longleftrightarrow>
     blit_from_repr (bc_cmd b) \<in> {Some CopyBufferToStencil, Some TransferDepth, Some CopyTextureToTexture}"

definition agree_on :: "u64 option \<Rightarrow> ('c::order) memory \<Rightarrow> 'c memory \<Rightarrow> bool" where
  "agree_on texture m m' \<longleftrightarrow> (\<forall>l. texture \<noteq> None \<and> texture = read_through l \<longrightarrow> m l \<le> m' l)"

definition draw_law :: "('c::order_bot) gpu \<Rightarrow> bool" where
  "draw_law g \<longleftrightarrow> (\<forall>fr fr' v c m m' t t' s. fst fr = fst fr' \<longrightarrow> (\<forall>s'\<in>slot_deps s. snd fr s' = snd fr' s') \<longrightarrow> m \<le> m' \<longrightarrow>
     (\<forall>s'\<in>slot_deps s. t s' \<le> t' s') \<longrightarrow> g_draw g fr v c m t s \<le> g_draw g fr' v c m' t' s)"

definition blit_law :: "('c::order_bot) gpu \<Rightarrow> (u64 \<rightharpoonup> u64) \<Rightarrow> bool" where
  "blit_law g views \<longleftrightarrow> (\<forall>b m m' l. agree_on (blit_reads views b) m m' \<longrightarrow> m l \<le> m' l \<or> blit_replaces g views b l \<longrightarrow>
     g_blit g b m l \<le> g_blit g b m' l)"

definition blit_writes_law :: "('c::order_bot) gpu \<Rightarrow> (u64 \<rightharpoonup> u64) \<Rightarrow> bool" where
  "blit_writes_law g views \<longleftrightarrow> (\<forall>b m l. blit_writes views b \<noteq> Some (loc_texture l) \<or> (\<exists>t sub. l = SamplesAt t sub)
     \<or> (\<exists>t level. l = StencilAt t level) \<and> \<not> blit_writes_stencil b \<longrightarrow> g_blit g b m l = m l)"

definition clear_law :: "('c::order_bot) gpu \<Rightarrow> bool" where
  "clear_law g \<longleftrightarrow> (\<forall>area v x y. x \<le> y \<longrightarrow> g_part g area v x \<le> g_part g area v y)
     \<and> (\<forall>area v l. g_part g area v (g_clear g l v) \<le> g_clear g l v)"

definition resolve_law :: "('c::order_bot) gpu \<Rightarrow> bool" where
  "resolve_law g \<longleftrightarrow> (\<forall>srgb x y. x \<le> y \<longrightarrow> g_resolve g srgb x \<le> g_resolve g srgb y)"

definition gpu_ok :: "('c::order_bot) gpu \<Rightarrow> (u64 \<rightharpoonup> u64) \<Rightarrow> bool" where
  "gpu_ok g views \<longleftrightarrow> draw_law g \<and> blit_law g views \<and> blit_writes_law g views \<and> clear_law g \<and> resolve_law g"

section \<open>The planes of a pass\<close>

datatype plane_load = KeepLoad | ClearLoad clear_value | NoLoad

record plane =
  pl_slot :: slot
  pl_loc :: loc
  pl_load :: plane_load
  pl_whole :: bool
  pl_store :: store_action
  pl_resolve :: "(loc \<times> bool) option"

definition color_plane :: "nat \<times> color_attachment \<Rightarrow> plane" where
  "color_plane = (\<lambda>(i, a).
     \<lparr>pl_slot = ColorSlot i,
      pl_loc = (if ca_msaa_texture a \<noteq> 0 then SamplesAt else ColorAt) (ca_texture a) (ca_subresource a),
      pl_load = (case ca_load a of CLoad \<Rightarrow> KeepLoad | CClear r g b al \<Rightarrow> ClearLoad (ClearColor (ca_srgb_texture a \<noteq> 0) r g b al)
                 | CDontCare \<Rightarrow> NoLoad),
      pl_whole = True, pl_store = ca_store a,
      pl_resolve = (if ca_resolve_texture a \<noteq> 0 then Some (ColorAt (ca_texture a) (ca_subresource a), ca_srgb_texture a \<noteq> 0)
                    else None)\<rparr>)"

definition depth_plane :: "pass \<Rightarrow> plane" where
  "depth_plane p =
     \<lparr>pl_slot = DepthSlot, pl_loc = DepthAt (pp_depth_texture p) (pp_depth_level p),
      pl_load = (case pp_depth_load p of DLoad \<Rightarrow> KeepLoad | DClear v \<Rightarrow> ClearLoad (ClearDepth v) | DDontCare \<Rightarrow> NoLoad),
      pl_whole = color_extent_covers_depth p, pl_store = pp_depth_store p, pl_resolve = None\<rparr>"

definition stencil_plane :: "pass \<Rightarrow> plane" where
  "stencil_plane p =
     \<lparr>pl_slot = StencilSlot, pl_loc = StencilAt (pp_depth_texture p) (pp_depth_level p),
      pl_load = (case pp_stencil_load p of SLoad \<Rightarrow> KeepLoad | SClear v \<Rightarrow> ClearLoad (ClearStencil v) | SDontCare \<Rightarrow> NoLoad),
      pl_whole = color_extent_covers_depth p, pl_store = pp_stencil_store p, pl_resolve = None\<rparr>"

definition depth_planes :: "pass \<Rightarrow> plane list" where
  "depth_planes p =
     (if pp_depth_texture p = 0 then []
      else depth_plane p # (if pp_has_stencil p then [stencil_plane p] else []))"

definition planes :: "pass \<Rightarrow> plane list" where
  "planes p = map color_plane (bound_color_attachments p) @ depth_planes p"

text \<open>The render area: the smallest extent among the attachments, on each axis.\<close>

definition area_of :: "pass \<Rightarrow> (u32 \<times> u32) option" where
  "area_of p =
     (let sizes = map (\<lambda>(_, a). ca_size a) (bound_color_attachments p)
                  @ (if pp_depth_texture p = 0 then [] else [pp_depth_size p])
      in if sizes = [] then None else Some (Min (fst ` set sizes), Min (snd ` set sizes)))"

definition frame_of :: "pass \<Rightarrow> pass_frame" where
  "frame_of p = (area_of p, \<lambda>s. map_option pl_loc (find (\<lambda>pl. pl_slot pl = s) (planes p)))"

section \<open>Running a pass\<close>

text \<open>The part of the state a draw reads, and the textures it samples through it.\<close>

definition visible_state :: "'c gpu \<Rightarrow> encoder_state \<Rightarrow> command \<Rightarrow> encoder_state" where
  "visible_state g es c = norm_state es |` (join_keys \<union> g_uses g (norm_state es pipeline_key) c)"

definition sampled_by :: "(u64 \<rightharpoonup> u64) \<Rightarrow> encoder_state \<Rightarrow> u64 set" where
  "sampled_by views v = {t. \<exists>k c tex. v k = Some c \<and> command_sampled_texture c = Some tex \<and> (t = tex \<or> views tex = Some t)}"

definition mask_memory :: "u64 set \<Rightarrow> ('c::order_bot) memory \<Rightarrow> 'c memory" where
  "mask_memory T m = (\<lambda>l. if read_through l \<in> Some ` T then m l else bot)"

definition draw_step :: "('c::order_bot) gpu \<Rightarrow> (u64 \<rightharpoonup> u64) \<Rightarrow> pass_frame \<Rightarrow> encoder_state \<Rightarrow> command \<Rightarrow> 'c memory \<Rightarrow> 'c tile \<Rightarrow> 'c tile"
where
  "draw_step g views fr es c m t =
     (let v = visible_state g es c in g_draw g fr v c (mask_memory (sampled_by views v) m) t)"

fun run :: "('c::order_bot) gpu \<Rightarrow> (u64 \<rightharpoonup> u64) \<Rightarrow> pass_frame \<Rightarrow> encoder_state \<Rightarrow> command list \<Rightarrow> 'c memory \<Rightarrow> 'c tile \<Rightarrow> 'c tile"
where
  "run g views fr es [] m t = t"
| "run g views fr es (c # cs) m t =
     (if is_draw c then run g views fr es cs m (draw_step g views fr es c m t)
      else run g views fr (set_state c es) cs m t)"

definition plane_init :: "('c::order_bot) gpu \<Rightarrow> (u32 \<times> u32) option \<Rightarrow> plane \<Rightarrow> 'c memory \<Rightarrow> 'c" where
  "plane_init g area pl m =
     (case pl_load pl of
        KeepLoad \<Rightarrow> m (pl_loc pl)
      | ClearLoad v \<Rightarrow> if pl_whole pl then g_clear g (pl_loc pl) v else g_part g area v (m (pl_loc pl))
      | NoLoad \<Rightarrow> bot)"

definition load_tile :: "('c::order_bot) gpu \<Rightarrow> (u32 \<times> u32) option \<Rightarrow> plane list \<Rightarrow> 'c memory \<Rightarrow> 'c tile" where
  "load_tile g area pls m s = (case find (\<lambda>pl. pl_slot pl = s) pls of None \<Rightarrow> bot | Some pl \<Rightarrow> plane_init g area pl m)"

definition store_tile :: "('c::order_bot) gpu \<Rightarrow> plane list \<Rightarrow> 'c tile \<Rightarrow> 'c memory \<Rightarrow> 'c memory" where
  "store_tile g pls t m l =
     (case find (\<lambda>pl. pl_loc pl = l) pls of
        Some pl \<Rightarrow> if pl_store pl = Store then t (pl_slot pl) else bot
      | None \<Rightarrow>
          (case find (\<lambda>pl. map_option fst (pl_resolve pl) = Some l) pls of
             Some pl \<Rightarrow> g_resolve g (snd (the (pl_resolve pl))) (t (pl_slot pl))
           | None \<Rightarrow> m l))"

definition exec_pass :: "('c::order_bot) gpu \<Rightarrow> (u64 \<rightharpoonup> u64) \<Rightarrow> pass \<Rightarrow> 'c memory \<Rightarrow> 'c memory" where
  "exec_pass g views p m =
     (let m1 = fold (g_blit g) (pp_leading_blits p) m;
          t = run g views (frame_of p) Map.empty (pp_commands p) m1 (load_tile g (area_of p) (planes p) m1)
      in store_tile g (planes p) t m1)"

definition exec_passes :: "('c::order_bot) gpu \<Rightarrow> (u64 \<rightharpoonup> u64) \<Rightarrow> pass list \<Rightarrow> 'c memory \<Rightarrow> 'c memory" where
  "exec_passes g views ps m = fold (exec_pass g views) ps m"

lemma exec_passes_simps [simp]:
  "exec_passes g views [] m = m"
  "exec_passes g views (p # ps) m = exec_passes g views ps (exec_pass g views p m)"
  "exec_passes g views (ps @ qs) m = exec_passes g views qs (exec_passes g views ps m)"
  by (simp_all add: exec_passes_def)

section \<open>Laws\<close>

lemma gpu_draw:
  "gpu_ok g views \<Longrightarrow> fst fr = fst fr' \<Longrightarrow> \<forall>s'\<in>slot_deps s. snd fr s' = snd fr' s' \<Longrightarrow> m \<le> m' \<Longrightarrow> \<forall>s'\<in>slot_deps s. t s' \<le> t' s' \<Longrightarrow>
   g_draw g fr v c m t s \<le> g_draw g fr' v c m' t' s"
  by (cases fr; cases fr') (simp add: gpu_ok_def draw_law_def)

lemma gpu_blit:
  "gpu_ok g views \<Longrightarrow> agree_on (blit_reads views b) m m' \<Longrightarrow> m l \<le> m' l \<or> blit_replaces g views b l \<Longrightarrow> g_blit g b m l \<le> g_blit g b m' l"
  by (auto simp: gpu_ok_def blit_law_def)

lemma gpu_blit_elsewhere:
  "gpu_ok g views \<Longrightarrow> blit_writes views b \<noteq> Some (loc_texture l) \<Longrightarrow> g_blit g b m l = m l"
  "gpu_ok g views \<Longrightarrow> g_blit g b m (SamplesAt t sub) = m (SamplesAt t sub)"
  "gpu_ok g views \<Longrightarrow> \<not> blit_writes_stencil b \<Longrightarrow> g_blit g b m (StencilAt t level) = m (StencilAt t level)"
  by (auto simp: gpu_ok_def blit_writes_law_def)

lemma gpu_resolve_mono: "gpu_ok g views \<Longrightarrow> x \<le> y \<Longrightarrow> g_resolve g srgb x \<le> g_resolve g srgb y"
  by (simp add: gpu_ok_def resolve_law_def)

lemma gpu_part_mono: "gpu_ok g views \<Longrightarrow> x \<le> y \<Longrightarrow> g_part g area v x \<le> g_part g area v y"
  by (simp add: gpu_ok_def clear_law_def)

lemma gpu_part_clear: "gpu_ok g views \<Longrightarrow> x \<le> g_clear g l v \<Longrightarrow> g_part g area v x \<le> g_clear g l v"
  by (rule order_trans [OF gpu_part_mono]) (auto simp: gpu_ok_def clear_law_def)

lemma draw_step_mono:
  assumes "gpu_ok g views" "fst fr = fst fr'" "\<forall>s'\<in>slot_deps s. snd fr s' = snd fr' s'" "\<forall>s'\<in>slot_deps s. t s' \<le> t' s'"
    and "\<And>l t. read_through l = Some t \<Longrightarrow> t \<in> sampled_by views (visible_state g es c) \<Longrightarrow> m l \<le> m' l"
  shows "draw_step g views fr es c m t s \<le> draw_step g views fr' es c m' t' s"
  unfolding draw_step_def Let_def using assms by (intro gpu_draw) (auto simp: mask_memory_def le_fun_def)

section \<open>Memories that differ where nothing looks\<close>

definition outside :: "loc set \<Rightarrow> ('c::order) memory \<Rightarrow> 'c memory \<Rightarrow> bool" where
  "outside D m m' \<longleftrightarrow> (\<forall>l. l \<notin> D \<longrightarrow> m l \<le> m' l)"

lemma outsideI [intro]: "(\<And>l. l \<notin> D \<Longrightarrow> m l \<le> m' l) \<Longrightarrow> outside D m m'"
  by (simp add: outside_def)

lemma outsideD: "outside D m m' \<Longrightarrow> l \<notin> D \<Longrightarrow> m l \<le> m' l"
  by (simp add: outside_def)

lemma outside_empty [simp]: "outside {} m m' \<longleftrightarrow> m \<le> m'"
  by (simp add: outside_def le_fun_def)

lemma outside_mono: "outside D m m' \<Longrightarrow> D \<subseteq> D' \<Longrightarrow> outside D' m m'"
  by (auto simp: outside_def)

lemma outside_trans: "outside D m m' \<Longrightarrow> outside D' m' m'' \<Longrightarrow> outside (D \<union> D') m m''"
  by (auto simp: outside_def intro: order_trans)

text \<open>The blits and the sampler binds of a pass leave the textures of a set of locations alone.\<close>

definition blit_spares :: "(u64 \<rightharpoonup> u64) \<Rightarrow> loc set \<Rightarrow> blit_command \<Rightarrow> bool" where
  "blit_spares views D b \<longleftrightarrow> (\<forall>l\<in>D. read_through l = None \<or> blit_reads views b \<noteq> read_through l)"

definition bind_spares :: "(u64 \<rightharpoonup> u64) \<Rightarrow> loc set \<Rightarrow> command \<Rightarrow> bool" where
  "bind_spares views D c \<longleftrightarrow>
     (\<forall>l\<in>D. \<forall>tex. command_sampled_texture c = Some tex \<longrightarrow> read_through l \<noteq> Some tex \<and> (read_through l = None \<or> views tex \<noteq> read_through l))"

definition reads_spare :: "(u64 \<rightharpoonup> u64) \<Rightarrow> loc set \<Rightarrow> pass \<Rightarrow> bool" where
  "reads_spare views D p \<longleftrightarrow> (\<forall>b\<in>set (pp_leading_blits p). blit_spares views D b) \<and> (\<forall>c\<in>set (pp_commands p). bind_spares views D c)"

lemma spares_empty [simp]: "blit_spares views {} b" "bind_spares views {} c" "reads_spare views {} p"
  by (simp_all add: blit_spares_def bind_spares_def reads_spare_def)

lemma blit_outside:
  assumes "gpu_ok g views" "blit_spares views D b" "outside D m m'"
  shows "outside D (g_blit g b m) (g_blit g b m')"
proof
  fix l assume "l \<notin> D"
  moreover have "agree_on (blit_reads views b) m m'"
    unfolding agree_on_def using assms(2,3) by (metis blit_spares_def outsideD)
  ultimately show "g_blit g b m l \<le> g_blit g b m' l" using assms by (intro gpu_blit) (auto simp: outside_def)
qed

lemma blits_outside:
  assumes "gpu_ok g views" "\<forall>b\<in>set bs. blit_spares views D b" "outside D m m'"
  shows "outside D (fold (g_blit g) bs m) (fold (g_blit g) bs m')"
  using assms(2,3)
proof (induction bs arbitrary: m m')
  case (Cons b bs)
  then show ?case using blit_outside [OF assms(1), of D b] by simp
qed simp

lemma set_state_spares:
  "bind_spares views D c \<Longrightarrow> \<forall>k c. es k = Some c \<longrightarrow> bind_spares views D c \<Longrightarrow>
   \<forall>k c'. set_state c es k = Some c' \<longrightarrow> bind_spares views D c'"
  by (simp add: set_state_def)

lemma visible_spares:
  assumes "\<forall>k c. es k = Some c \<longrightarrow> bind_spares views D c" "l \<in> D" "read_through l = Some t"
  shows "t \<notin> sampled_by views (visible_state g es c)"
proof
  assume "t \<in> sampled_by views (visible_state g es c)"
  then obtain k c' tex where c': "visible_state g es c k = Some c'" "command_sampled_texture c' = Some tex"
    "t = tex \<or> views tex = Some t" by (auto simp: sampled_by_def)
  have "es k = Some c'" using c'(1) by (auto simp: visible_state_def norm_state_def restrict_map_def split: if_splits option.splits)
  then have "bind_spares views D c'" using assms(1) by blast
  with assms(2,3) c'(2,3) show False by (auto simp: bind_spares_def)
qed

text \<open>The slots of a set that contains what its slots are computed from.\<close>

definition dep_closed :: "slot set \<Rightarrow> bool" where
  "dep_closed S \<longleftrightarrow> (\<forall>s\<in>S. slot_deps s \<subseteq> S)"

lemma dep_closed_UNIV [simp]: "dep_closed UNIV"
  by (simp add: dep_closed_def)

lemma dep_closed_depth [simp]: "dep_closed {DepthSlot, StencilSlot}"
  by (simp add: dep_closed_def slot_deps_def)

lemma run_outside:
  assumes g: "gpu_ok g views" and S: "dep_closed S" "fst fr = fst fr'" "\<forall>s\<in>S. snd fr s = snd fr' s"
    and cs: "\<forall>c\<in>set cs. bind_spares views D c" and es: "\<forall>k c. es k = Some c \<longrightarrow> bind_spares views D c"
    and m: "outside D m m'" and t: "\<forall>s\<in>S. t s \<le> t' s" and s: "s \<in> S"
  shows "run g views fr es cs m t s \<le> run g views fr' es cs m' t' s"
  using cs es t
proof (induction cs arbitrary: es t t')
  case Nil
  then show ?case using s by simp
next
  case (Cons c cs)
  have spare: "bind_spares views D c" "\<forall>c\<in>set cs. bind_spares views D c" using Cons.prems(1) by auto
  show ?case
  proof (cases "is_draw c")
    case True
    have "draw_step g views fr es c m t s' \<le> draw_step g views fr' es c m' t' s'" if "s' \<in> S" for s'
    proof (rule draw_step_mono [OF g S(2)])
      have "slot_deps s' \<subseteq> S" using S(1) that by (simp add: dep_closed_def)
      then show "\<forall>s''\<in>slot_deps s'. snd fr s'' = snd fr' s''" "\<forall>s''\<in>slot_deps s'. t s'' \<le> t' s''"
        using S(3) Cons.prems(3) by auto
      show "m l \<le> m' l" if "read_through l = Some x" "x \<in> sampled_by views (visible_state g es c)" for l x
        using that visible_spares [OF Cons.prems(2)] outsideD [OF m] by blast
    qed
    then show ?thesis using Cons.IH [OF spare(2) Cons.prems(2)] True by simp
  next
    case False
    then show ?thesis using Cons.IH [OF spare(2) set_state_spares [OF spare(1) Cons.prems(2)] Cons.prems(3)] by simp
  qed
qed

lemma run_no_draw:
  assumes "\<not> list_ex is_draw cs"
  shows "run g views fr es cs m t = t"
  using assms by (induction cs arbitrary: es) auto

end
