(* ===== verification/Pass_Sim.thy ===== *)
theory Pass_Sim
  imports Pass_Exec
begin

text \<open>
  The simulation step all rules share: two passes that run the same work on the same attachments,
  with loads and stores that may differ, on memories that agree outside a set of dead locations.
\<close>

lemma find_rel:
  assumes "list_all2 R xs ys" "\<And>x y. R x y \<Longrightarrow> P x = Q y"
  shows "rel_option R (find P xs) (find Q ys)"
  using assms(1) by (induction rule: list_all2_induct) (auto simp: assms(2))

definition same_plane :: "plane \<Rightarrow> plane \<Rightarrow> bool" where
  "same_plane pl pl' \<longleftrightarrow> pl_slot pl' = pl_slot pl \<and> pl_loc pl' = pl_loc pl \<and> pl_whole pl' = pl_whole pl \<and> pl_resolve pl' = pl_resolve pl"

definition written_locs :: "plane list \<Rightarrow> loc set" where
  "written_locs pls = pl_loc ` set pls \<union> {l. \<exists>pl\<in>set pls. map_option fst (pl_resolve pl) = Some l}"

lemma load_tile_le:
  assumes "list_all2 R pls pls'" "\<And>pl pl'. R pl pl' \<Longrightarrow> same_plane pl pl'"
    and "\<And>pl pl'. R pl pl' \<Longrightarrow> pl_slot pl = s \<Longrightarrow> plane_init g area pl m \<le> plane_init g area pl' m'"
  shows "load_tile g area pls m s \<le> load_tile g area pls' m' s"
proof -
  have "rel_option R (find (\<lambda>pl. pl_slot pl = s) pls) (find (\<lambda>pl. pl_slot pl = s) pls')"
    by (rule find_rel [OF assms(1)]) (use assms(2) in \<open>auto simp: same_plane_def\<close>)
  then show ?thesis
  proof cases
    case (Some pl pl')
    then have "pl_slot pl = s" by (simp add: find_Some_iff) blast
    with Some assms(3) [of pl pl'] show ?thesis by (simp add: load_tile_def)
  qed (simp add: load_tile_def)
qed

lemma store_tile_le:
  assumes g: "gpu_ok g views" and R: "list_all2 R pls pls'" "\<And>pl pl'. R pl pl' \<Longrightarrow> same_plane pl pl'"
    and store: "\<And>pl pl'. R pl pl' \<Longrightarrow> pl_loc pl \<notin> D' \<Longrightarrow> pl_store pl = Store \<Longrightarrow> pl_store pl' = Store"
    and t: "\<And>pl. pl \<in> set pls \<Longrightarrow> pl_store pl = Store \<and> pl_loc pl \<notin> D' \<or> pl_resolve pl \<noteq> None \<Longrightarrow> t (pl_slot pl) \<le> t' (pl_slot pl)"
    and m: "outside D m m'" and D: "D - D' \<subseteq> written_locs pls"
  shows "outside D' (store_tile g pls t m) (store_tile g pls' t' m')"
proof
  fix l assume l: "l \<notin> D'"
  have "rel_option R (find (\<lambda>pl. pl_loc pl = l) pls) (find (\<lambda>pl. pl_loc pl = l) pls')"
    by (rule find_rel [OF R(1)]) (use R(2) in \<open>auto simp: same_plane_def\<close>)
  then show "store_tile g pls t m l \<le> store_tile g pls' t' m' l"
  proof cases
    case (Some pl pl')
    then have "pl_loc pl = l" "pl \<in> set pls" by (auto simp: find_Some_iff)
    with Some store [OF Some(3)] R(2) [OF Some(3)] l t [of pl] show ?thesis by (auto simp: store_tile_def same_plane_def)
  next
    case None
    have "rel_option R (find (\<lambda>pl. map_option fst (pl_resolve pl) = Some l) pls) (find (\<lambda>pl. map_option fst (pl_resolve pl) = Some l) pls')"
      by (rule find_rel [OF R(1)]) (use R(2) in \<open>auto simp: same_plane_def\<close>)
    then show ?thesis
    proof cases
      case Some': (Some pl pl')
      then have "pl \<in> set pls" "pl_resolve pl \<noteq> None" by (auto simp: find_Some_iff)
      with Some' show ?thesis
        using None R(2) [OF Some'(3)] gpu_resolve_mono [OF g] t by (auto simp: store_tile_def same_plane_def)
    next
      case None': None
      with None have "l \<notin> written_locs pls" by (auto simp: written_locs_def find_None_iff)
      then have "m l \<le> m' l" using m D l by (auto simp: outside_def)
      with None None' show ?thesis by (simp add: store_tile_def)
    qed
  qed
qed

lemma frame_of_same:
  assumes "list_all2 R (planes p) (planes p')" "\<And>pl pl'. R pl pl' \<Longrightarrow> same_plane pl pl'" "area_of p' = area_of p"
  shows "frame_of p' = frame_of p"
proof -
  have "map_option pl_loc (find (\<lambda>pl. pl_slot pl = s) (planes p')) = map_option pl_loc (find (\<lambda>pl. pl_slot pl = s) (planes p))" for s
  proof -
    have "rel_option R (find (\<lambda>pl. pl_slot pl = s) (planes p)) (find (\<lambda>pl. pl_slot pl = s) (planes p'))"
      by (rule find_rel [OF assms(1)]) (use assms(2) in \<open>auto simp: same_plane_def\<close>)
    then show ?thesis using assms(2) by (auto simp: same_plane_def elim!: option.rel_cases)
  qed
  then show ?thesis by (simp add: frame_of_def assms(3))
qed

lemma exec_pass_sim:
  assumes g: "gpu_ok g views" and spare: "reads_spare views D p" and m: "outside D m m'"
    and work: "pp_leading_blits p' = pp_leading_blits p" "pp_commands p' = pp_commands p" "area_of p' = area_of p"
    and R: "list_all2 R (planes p) (planes p')" "\<And>pl pl'. R pl pl' \<Longrightarrow> same_plane pl pl'"
    and init: "\<And>pl pl' m1 m1'. R pl pl' \<Longrightarrow> outside D m1 m1' \<Longrightarrow> m1 = fold (g_blit g) (pp_leading_blits p) m \<Longrightarrow>
      m1' = fold (g_blit g) (pp_leading_blits p) m' \<Longrightarrow> plane_init g (area_of p) pl m1 \<le> plane_init g (area_of p) pl' m1'"
    and store: "\<And>pl pl'. R pl pl' \<Longrightarrow> pl_loc pl \<notin> D' \<Longrightarrow> pl_store pl = Store \<Longrightarrow> pl_store pl' = Store"
    and D: "D - D' \<subseteq> written_locs (planes p)"
  shows "outside D' (exec_pass g views p m) (exec_pass g views p' m')"
proof -
  let ?m1 = "fold (g_blit g) (pp_leading_blits p) m" and ?m1' = "fold (g_blit g) (pp_leading_blits p) m'"
  let ?t = "load_tile g (area_of p) (planes p) ?m1" and ?t' = "load_tile g (area_of p) (planes p') ?m1'"
  have m1: "outside D ?m1 ?m1'" by (rule blits_outside [OF g _ m]) (use spare in \<open>simp add: reads_spare_def\<close>)
  have t: "\<forall>s\<in>UNIV. ?t s \<le> ?t' s"
    by (auto intro!: load_tile_le [OF R(1)] R(2) init m1)
  let ?r = "run g views (frame_of p) Map.empty (pp_commands p) ?m1 ?t" and ?r' = "run g views (frame_of p) Map.empty (pp_commands p) ?m1' ?t'"
  have r: "?r s \<le> ?r' s" for s
    by (rule run_outside [OF g dep_closed_UNIV _ _ _ _ m1 t]) (use spare in \<open>auto simp: reads_spare_def\<close>)
  have "outside D' (store_tile g (planes p) ?r ?m1) (store_tile g (planes p') ?r' ?m1')"
    by (rule store_tile_le [OF g R(1) _ _ _ m1 D]) (auto intro: R(2) store r)
  then show ?thesis by (simp add: exec_pass_def Let_def work frame_of_same [OF R work(3)])
qed

lemma plane_init_keep:
  assumes "gpu_ok g views" "outside D m m'" "pl_loc pl \<notin> D \<or> pl_load pl = NoLoad \<or> (\<exists>v. pl_load pl = ClearLoad v) \<and> pl_whole pl"
  shows "plane_init g area pl m \<le> plane_init g area pl m'"
  using assms gpu_part_mono [OF assms(1)] by (auto simp: plane_init_def outside_def split: plane_load.split)

lemma exec_pass_outside:
  assumes g: "gpu_ok g views" and spare: "reads_spare views D p" and m: "outside D m m'"
    and init: "\<And>pl. pl \<in> set (planes p) \<Longrightarrow> pl_loc pl \<in> D \<Longrightarrow> pl_load pl = NoLoad \<or> (\<exists>v. pl_load pl = ClearLoad v) \<and> pl_whole pl"
    and D: "D - D' \<subseteq> written_locs (planes p)"
  shows "outside D' (exec_pass g views p m) (exec_pass g views p m')"
proof (rule exec_pass_sim [OF g spare m refl refl refl, where R = "\<lambda>pl pl'. pl' = pl \<and> pl \<in> set (planes p)"])
  show "list_all2 (\<lambda>pl pl'. pl' = pl \<and> pl \<in> set (planes p)) (planes p) (planes p)" by (simp add: list.rel_refl_strong)
  show "plane_init g (area_of p) pl m1 \<le> plane_init g (area_of p) pl' m1'"
    if "pl' = pl \<and> pl \<in> set (planes p)" "outside D m1 m1'" for pl pl' m1 m1'
    using that init plane_init_keep [OF g] by metis
qed (use D in \<open>auto simp: same_plane_def\<close>)

lemma exec_pass_mono:
  assumes "gpu_ok g views" "m \<le> m'"
  shows "exec_pass g views p m \<le> exec_pass g views p m'"
  using exec_pass_outside [of g views "{}" p m m' "{}"] assms by simp

lemma exec_passes_mono:
  assumes "gpu_ok g views" "m \<le> m'"
  shows "exec_passes g views ps m \<le> exec_passes g views ps m'"
  using assms(2) by (induction ps arbitrary: m m') (auto intro: exec_pass_mono [OF assms(1)])

text \<open>A rule that rewrites each pass on its own.\<close>

lemma exec_map_le:
  assumes g: "gpu_ok g views" and "\<And>p m. p \<in> set ps \<Longrightarrow> exec_pass g views p m \<le> exec_pass g views (f p) m"
  shows "exec_passes g views ps m \<le> exec_passes g views (map f ps) m"
  using assms(2)
proof (induction ps arbitrary: m)
  case (Cons p ps)
  have "exec_passes g views ps (exec_pass g views p m) \<le> exec_passes g views (map f ps) (exec_pass g views p m)" using Cons by simp
  also have "\<dots> \<le> exec_passes g views (map f ps) (exec_pass g views (f p) m)"
    by (rule exec_passes_mono [OF g]) (use Cons.prems in simp)
  finally show ?case by simp
qed simp

section \<open>Passes whose attachments correspond\<close>

abbreviation colors :: "pass \<Rightarrow> color_attachment list" where
  "colors p \<equiv> pp_color p # pp_extra_color p"

lemma enumerate_filter_rel:
  assumes "list_all2 Q xs ys" "\<And>a b. Q a b \<Longrightarrow> ca_texture b = ca_texture a"
  shows "list_all2 (\<lambda>(i, a) (j, b). i = j \<and> Q a b \<and> ca_is_bound a)
    (filter (\<lambda>(_, a). ca_is_bound a) (enumerate n xs)) (filter (\<lambda>(_, a). ca_is_bound a) (enumerate n ys))"
  using assms(1) by (induction arbitrary: n rule: list_all2_induct) (auto simp: ca_is_bound_def assms(2))

lemma bound_colors_rel:
  assumes "list_all2 Q (colors p) (colors p')" "\<And>a b. Q a b \<Longrightarrow> ca_texture b = ca_texture a"
  shows "list_all2 (\<lambda>(i, a) (j, b). i = j \<and> Q a b \<and> ca_is_bound a) (bound_color_attachments p) (bound_color_attachments p')"
  unfolding bound_color_attachments_def by (rule enumerate_filter_rel [OF assms])

lemma planes_rel:
  assumes Q: "list_all2 Q (colors p) (colors p')" "\<And>a b. Q a b \<Longrightarrow> ca_texture b = ca_texture a"
    and color: "\<And>i a b. Q a b \<Longrightarrow> ca_is_bound a \<Longrightarrow> R (color_plane (i, a)) (color_plane (i, b))"
    and depth: "pp_depth_texture p' = pp_depth_texture p" "pp_depth_texture p \<noteq> 0 \<Longrightarrow> pp_has_stencil p' = pp_has_stencil p"
      "pp_depth_texture p \<noteq> 0 \<Longrightarrow> R (depth_plane p) (depth_plane p')"
      "pp_depth_texture p \<noteq> 0 \<Longrightarrow> pp_has_stencil p \<Longrightarrow> R (stencil_plane p) (stencil_plane p')"
  shows "list_all2 R (planes p) (planes p')"
proof -
  have "list_all2 R (map color_plane (bound_color_attachments p)) (map color_plane (bound_color_attachments p'))"
    unfolding list.rel_map by (rule list_all2_mono [OF bound_colors_rel [OF Q]]) (auto dest: color)
  moreover have "list_all2 R (depth_planes p) (depth_planes p')" using depth by (simp add: depth_planes_def)
  ultimately show ?thesis unfolding planes_def by (rule list_all2_appendI)
qed

lemma area_same:
  assumes Q: "list_all2 Q (colors p) (colors p')" "\<And>a b. Q a b \<Longrightarrow> ca_texture b = ca_texture a \<and> ca_size b = ca_size a"
    and depth: "pp_depth_texture p' = pp_depth_texture p" "pp_depth_size p' = pp_depth_size p"
  shows "area_of p' = area_of p"
proof -
  have "list_all2 (\<lambda>(i, a) (j, b). i = j \<and> Q a b \<and> ca_is_bound a) (bound_color_attachments p) (bound_color_attachments p')"
    by (rule bound_colors_rel [OF Q(1)]) (use Q(2) in blast)
  then have "map (\<lambda>(_, a). ca_size a) (bound_color_attachments p') = map (\<lambda>(_, a). ca_size a) (bound_color_attachments p)"
    by (induction rule: list_all2_induct) (auto simp: Q(2))
  then show ?thesis by (simp add: area_of_def depth)
qed

lemma covers_same:
  assumes Q: "list_all2 Q (colors p) (colors p')" "\<And>a b. Q a b \<Longrightarrow> ca_texture b = ca_texture a \<and> ca_size b = ca_size a"
    and depth: "pp_depth_texture p' = pp_depth_texture p" "pp_depth_size p' = pp_depth_size p"
  shows "color_extent_covers_depth p' = color_extent_covers_depth p"
proof -
  have "list_all2 Q (pp_extra_color p) (pp_extra_color p')" using Q(1) by simp
  then have "list_all (\<lambda>a. extent_covers (ca_size a) x) (filter ca_is_bound (pp_extra_color p'))
      = list_all (\<lambda>a. extent_covers (ca_size a) x) (filter ca_is_bound (pp_extra_color p))" for x
    by (induction rule: list_all2_induct) (auto simp: Q(2) ca_is_bound_def)
  then show ?thesis using Q by (auto simp: color_extent_covers_depth_def depth)
qed

text \<open>The attachments of two passes agree but for their loads and stores.\<close>

definition same_attachment :: "color_attachment \<Rightarrow> color_attachment \<Rightarrow> bool" where
  "same_attachment a b \<longleftrightarrow> b = a\<lparr>ca_load := ca_load b, ca_store := ca_store b\<rparr>"

lemma same_attachmentD:
  assumes "same_attachment a b"
  shows "ca_texture b = ca_texture a" "ca_size b = ca_size a" "ca_subresource b = ca_subresource a"
    "ca_msaa_texture b = ca_msaa_texture a" "ca_srgb_texture b = ca_srgb_texture a" "ca_resolve_texture b = ca_resolve_texture a"
  using assms by (cases a; cases b; simp add: same_attachment_def)+

lemma same_attachment_refl [simp]: "same_attachment a a"
  by (cases a) (simp add: same_attachment_def)

definition same_work :: "pass \<Rightarrow> pass \<Rightarrow> bool" where
  "same_work p p' \<longleftrightarrow> list_all2 same_attachment (colors p) (colors p')
     \<and> p' = p\<lparr>pp_color := pp_color p', pp_extra_color := pp_extra_color p', pp_depth_load := pp_depth_load p',
              pp_stencil_load := pp_stencil_load p', pp_depth_store := pp_depth_store p', pp_stencil_store := pp_stencil_store p'\<rparr>"

lemma same_work_fields:
  assumes "same_work p p'"
  shows "pp_leading_blits p' = pp_leading_blits p" "pp_commands p' = pp_commands p" "pp_depth_texture p' = pp_depth_texture p"
    "pp_depth_level p' = pp_depth_level p" "pp_depth_size p' = pp_depth_size p" "pp_has_stencil p' = pp_has_stencil p"
    "pp_used p' = pp_used p" "pp_stencil_written p' = pp_stencil_written p" "pp_sampleable p' = pp_sampleable p"
    "pp_writes_observed p' = pp_writes_observed p" "pp_first_draw_covers p' = pp_first_draw_covers p"
    "pp_color_clear_quad_ranges p' = pp_color_clear_quad_ranges p"
  using assms unfolding same_work_def by (cases p; cases p'; simp)+

lemma same_work_area:
  assumes "same_work p p'"
  shows "area_of p' = area_of p" "color_extent_covers_depth p' = color_extent_covers_depth p"
proof -
  have "list_all2 same_attachment (colors p) (colors p')" using assms by (simp add: same_work_def)
  then show "area_of p' = area_of p" "color_extent_covers_depth p' = color_extent_covers_depth p"
    by (rule area_same covers_same; simp add: same_attachmentD same_work_fields [OF assms])+
qed

lemma same_attachment_plane:
  "same_attachment a b \<Longrightarrow> same_plane (color_plane (i, a)) (color_plane (i, b))"
  by (auto simp: same_plane_def color_plane_def dest: same_attachmentD)

lemma same_work_planes:
  assumes w: "same_work p p'"
    and color: "\<And>i a b. same_attachment a b \<Longrightarrow> ca_is_bound a \<Longrightarrow> (a, b) \<in> set (zip (colors p) (colors p')) \<Longrightarrow>
      R (color_plane (i, a)) (color_plane (i, b))"
    and depth: "pp_depth_texture p \<noteq> 0 \<Longrightarrow> R (depth_plane p) (depth_plane p')"
      "pp_depth_texture p \<noteq> 0 \<Longrightarrow> pp_has_stencil p \<Longrightarrow> R (stencil_plane p) (stencil_plane p')"
  shows "list_all2 (\<lambda>pl pl'. same_plane pl pl' \<and> R pl pl') (planes p) (planes p')"
proof (rule planes_rel [where Q = "\<lambda>a b. same_attachment a b \<and> (a, b) \<in> set (zip (colors p) (colors p'))"])
  have "list_all2 same_attachment (colors p) (colors p')" using w by (simp add: same_work_def)
  then show "list_all2 (\<lambda>a b. same_attachment a b \<and> (a, b) \<in> set (zip (colors p) (colors p'))) (colors p) (colors p')"
    by (auto simp: list_all2_iff)
  have plane: "same_plane (depth_plane p) (depth_plane p')" "same_plane (stencil_plane p) (stencil_plane p')"
    by (simp_all add: same_plane_def depth_plane_def stencil_plane_def same_work_fields [OF w] same_work_area [OF w])
  show "same_plane (depth_plane p) (depth_plane p') \<and> R (depth_plane p) (depth_plane p')" if "pp_depth_texture p \<noteq> 0"
    using depth(1) that plane by blast
  show "same_plane (stencil_plane p) (stencil_plane p') \<and> R (stencil_plane p) (stencil_plane p')"
    if "pp_depth_texture p \<noteq> 0" "pp_has_stencil p" using depth(2) that plane by blast
  show "same_plane (color_plane (i, a)) (color_plane (i, b)) \<and> R (color_plane (i, a)) (color_plane (i, b))"
    if "same_attachment a b \<and> (a, b) \<in> set (zip (colors p) (colors p'))" "ca_is_bound a" for i a b
    using that color same_attachment_plane by blast
qed (simp_all add: same_attachmentD same_work_fields [OF w])

end
