(* ===== verification/Pass_Stores.thy ===== *)
theory Pass_Stores
  imports Pass_Sim
begin

text \<open>
  The load and store rules keep every location that is still read: the corrected loads of Rule A, the
  stores discarded at the end of a frame (Rule B) and before a clear (Rule C), the stencil planes
  nothing writes, and the loads of passes that never use their depth attachment.
\<close>

section \<open>Two passes that differ in loads and stores\<close>

definition plane_ok :: "('c::order_bot) gpu \<Rightarrow> (u32 \<times> u32) option \<Rightarrow> loc set \<Rightarrow> loc set \<Rightarrow> plane \<Rightarrow> plane \<Rightarrow> bool" where
  "plane_ok g area D D' pl pl' \<longleftrightarrow>
     (\<forall>m m'. outside D m m' \<longrightarrow> plane_init g area pl m \<le> plane_init g area pl' m')
     \<and> (pl_loc pl \<notin> D' \<longrightarrow> pl_store pl = Store \<longrightarrow> pl_store pl' = Store)"

lemma plane_okI:
  assumes "gpu_ok g views" "same_plane pl pl'" "pl_load pl' = pl_load pl \<or> pl_load pl = NoLoad"
    and "pl_loc pl \<in> D \<Longrightarrow> pl_load pl = NoLoad \<or> (\<exists>v. pl_load pl = ClearLoad v) \<and> pl_whole pl"
    and "pl_loc pl \<notin> D' \<Longrightarrow> pl_store pl = Store \<Longrightarrow> pl_store pl' = Store"
  shows "plane_ok g area D D' pl pl'"
  using assms gpu_part_mono [OF assms(1)]
  by (cases "pl_loc pl \<in> D") (auto simp: plane_ok_def plane_init_def same_plane_def outside_def split: plane_load.split)

lemma plane_ok_refl: "gpu_ok g views \<Longrightarrow> plane_ok g area {} D' pl pl"
  by (rule plane_okI) (auto simp: same_plane_def)

lemma exec_same_work:
  assumes g: "gpu_ok g views" and spare: "reads_spare views D p" and m: "outside D m m'" and w: "same_work p p'"
    and color: "\<And>i a b. same_attachment a b \<Longrightarrow> ca_is_bound a \<Longrightarrow> (a, b) \<in> set (zip (colors p) (colors p')) \<Longrightarrow>
      plane_ok g (area_of p) D D' (color_plane (i, a)) (color_plane (i, b))"
    and depth: "pp_depth_texture p \<noteq> 0 \<Longrightarrow> plane_ok g (area_of p) D D' (depth_plane p) (depth_plane p')"
      "pp_depth_texture p \<noteq> 0 \<Longrightarrow> pp_has_stencil p \<Longrightarrow> plane_ok g (area_of p) D D' (stencil_plane p) (stencil_plane p')"
    and D: "D - D' \<subseteq> written_locs (planes p)"
  shows "outside D' (exec_pass g views p m) (exec_pass g views p' m')"
proof (rule exec_pass_sim [OF g spare m same_work_fields(1,2) [OF w] same_work_area(1) [OF w] same_work_planes [OF w color depth]])
  show "D - D' \<subseteq> written_locs (planes p)" by (rule D)
qed (auto simp: plane_ok_def)

section \<open>Rule A\<close>

lemma load_if_sampled_work: "same_work p (load_if_sampled seen p)"
  by (auto simp: same_work_def load_if_sampled_def Let_def same_attachment_def list.rel_map intro!: list.rel_refl)

lemma load_if_sampled_le:
  assumes g: "gpu_ok g views"
  shows "exec_pass g views p m \<le> exec_pass g views (load_if_sampled seen p) m"
proof -
  let ?p = "load_if_sampled seen p"
  have "outside {} (exec_pass g views p m) (exec_pass g views ?p m)"
  proof (rule exec_same_work [OF g _ _ load_if_sampled_work, where D = "{}"])
    fix i a b assume ab: "same_attachment a b" "ca_is_bound a" "(a, b) \<in> set (zip (colors p) (colors ?p))"
    then have "b = a \<or> ca_load a = CDontCare \<and> b = a\<lparr>ca_load := CLoad\<rparr>"
      by (auto simp: load_if_sampled_def Let_def zip_map2 split: if_splits simp: set_zip)
    then show "plane_ok g (area_of p) {} {} (color_plane (i, a)) (color_plane (i, b))"
      using same_attachment_plane [OF ab(1)] by (intro plane_okI [OF g]) (auto simp: color_plane_def)
  qed (auto intro!: plane_okI [OF g] simp: same_plane_def depth_plane_def stencil_plane_def load_if_sampled_def Let_def
        same_work_area [OF load_if_sampled_work, unfolded load_if_sampled_def Let_def])
  then show ?thesis by simp
qed

section \<open>Passes that do not use their depth attachment\<close>

fun all_draws :: "(nat \<Rightarrow> encoder_state \<Rightarrow> command \<Rightarrow> bool) \<Rightarrow> nat \<Rightarrow> encoder_state \<Rightarrow> command list \<Rightarrow> bool" where
  "all_draws P n es [] \<longleftrightarrow> True"
| "all_draws P n es (c # cs) \<longleftrightarrow>
     (if is_draw c then P n es c \<and> all_draws P (Suc n) es cs else all_draws P (Suc n) (set_state c es) cs)"

text \<open>The draw neither reads nor writes the depth and stencil planes.\<close>

definition draw_unused :: "('c::order_bot) gpu \<Rightarrow> (u64 \<rightharpoonup> u64) \<Rightarrow> pass_frame \<Rightarrow> encoder_state \<Rightarrow> command \<Rightarrow> bool" where
  "draw_unused g views fr es c \<longleftrightarrow>
     (\<forall>m t x y. draw_step g views fr es c m (t(DepthSlot := x, StencilSlot := y)) = (draw_step g views fr es c m t)(DepthSlot := x, StencilSlot := y))"

definition depth_unused :: "('c::order_bot) gpu \<Rightarrow> (u64 \<rightharpoonup> u64) \<Rightarrow> pass \<Rightarrow> bool" where
  "depth_unused g views p \<longleftrightarrow> all_draws (\<lambda>_. draw_unused g views (frame_of p)) 0 Map.empty (pp_commands p)"

lemma run_unused:
  assumes "all_draws (\<lambda>_. draw_unused g views fr) n es cs"
  shows "run g views fr es cs m (t(DepthSlot := x, StencilSlot := y)) = (run g views fr es cs m t)(DepthSlot := x, StencilSlot := y)"
  using assms by (induction cs arbitrary: n es t) (auto simp: draw_unused_def)

lemma run_unused_keeps:
  assumes "all_draws (\<lambda>_. draw_unused g views fr) n es cs"
  shows "run g views fr es cs m t DepthSlot = t DepthSlot" "run g views fr es cs m t StencilSlot = t StencilSlot"
  using run_unused [OF assms, of m t "t DepthSlot" "t StencilSlot"] by (simp_all add: fun_upd_idem_iff fun_eq_iff)

lemma planes_slot:
  assumes "pl \<in> set (planes p)"
  shows "(\<exists>k. pl_slot pl = ColorSlot k) \<or> pl_slot pl \<in> {DepthSlot, StencilSlot} \<and> pl_resolve pl = None"
  using assms by (auto simp: planes_def depth_planes_def color_plane_def depth_plane_def stencil_plane_def split: if_splits)

lemma exec_unused_work:
  assumes g: "gpu_ok g views" and unused: "depth_unused g views p"
    and spare: "reads_spare views D p" and m: "outside D m m'" and w: "same_work p p'"
    and color: "\<And>i a b. same_attachment a b \<Longrightarrow> ca_is_bound a \<Longrightarrow> (a, b) \<in> set (zip (colors p) (colors p')) \<Longrightarrow>
      plane_ok g (area_of p) D D' (color_plane (i, a)) (color_plane (i, b))"
    and depth: "pp_depth_texture p \<noteq> 0 \<Longrightarrow> plane_ok g (area_of p) D D' (depth_plane p) (depth_plane p')
        \<or> pl_loc (depth_plane p) \<in> D' \<or> pp_depth_store p = DontStore"
      "pp_depth_texture p \<noteq> 0 \<Longrightarrow> pp_has_stencil p \<Longrightarrow> plane_ok g (area_of p) D D' (stencil_plane p) (stencil_plane p')
        \<or> pl_loc (stencil_plane p) \<in> D' \<or> pp_stencil_store p = DontStore"
    and D: "D - D' \<subseteq> written_locs (planes p)"
  shows "outside D' (exec_pass g views p m) (exec_pass g views p' m')"
proof -
  let ?ok = "\<lambda>pl pl'. ((\<exists>k. pl_slot pl = ColorSlot k) \<or> pl = depth_plane p \<and> pl' = depth_plane p' \<or> pl = stencil_plane p \<and> pl' = stencil_plane p')
    \<and> (plane_ok g (area_of p) D D' pl pl' \<or> (\<nexists>k. pl_slot pl = ColorSlot k) \<and> (pl_loc pl \<in> D' \<or> pl_store pl = DontStore))"
  let ?R = "\<lambda>pl pl'. same_plane pl pl' \<and> ?ok pl pl'"
  let ?m1 = "fold (g_blit g) (pp_leading_blits p) m" and ?m1' = "fold (g_blit g) (pp_leading_blits p) m'"
  let ?t = "load_tile g (area_of p) (planes p) ?m1" and ?t' = "load_tile g (area_of p) (planes p') ?m1'"
  let ?r = "run g views (frame_of p) Map.empty (pp_commands p)"
  let ?hide = "\<lambda>t. t(DepthSlot := bot, StencilSlot := bot)"
  have slots: "pl_slot (depth_plane p) = DepthSlot" "pl_slot (stencil_plane p) = StencilSlot" by (simp_all add: depth_plane_def stencil_plane_def)
  have m1: "outside D ?m1 ?m1'" by (rule blits_outside [OF g _ m]) (use spare in \<open>simp add: reads_spare_def\<close>)
  have R: "list_all2 ?R (planes p) (planes p')"
    by (rule same_work_planes [OF w]) (use color depth in \<open>auto simp: color_plane_def depth_plane_def stencil_plane_def\<close>)
  have init: "?t (pl_slot pl) \<le> ?t' (pl_slot pl)" if "?R pl pl'" "plane_ok g (area_of p) D D' pl pl'" for pl pl'
    by (rule load_tile_le [OF R]) (use m1 that slots in \<open>auto simp: plane_ok_def\<close>)
  have "?t (ColorSlot k) \<le> ?t' (ColorSlot k)" for k
    by (rule load_tile_le [OF R]) (use m1 in \<open>auto simp: plane_ok_def\<close>)
  then have t: "\<forall>s\<in>UNIV. ?hide ?t s \<le> ?hide ?t' s" by (auto simp: not_le intro: slot.exhaust) (metis slot.exhaust)
  have "?r ?m1 (?hide ?t) s \<le> ?r ?m1' (?hide ?t') s" for s
    by (rule run_outside [OF g dep_closed_UNIV _ _ _ _ m1 t]) (use spare in \<open>auto simp: reads_spare_def\<close>)
  then have r: "?r ?m1 ?t (ColorSlot k) \<le> ?r ?m1' ?t' (ColorSlot k)" for k
    using run_unused [OF unused [unfolded depth_unused_def]] by (metis fun_upd_other slot.distinct(1,3))
  have "outside D' (store_tile g (planes p) (?r ?m1 ?t) ?m1) (store_tile g (planes p') (?r ?m1' ?t') ?m1')"
  proof (rule store_tile_le [OF g R _ _ _ m1 D])
    fix pl assume pl: "pl \<in> set (planes p)" "pl_store pl = Store \<and> pl_loc pl \<notin> D' \<or> pl_resolve pl \<noteq> None"
    obtain pl' where pl': "?R pl pl'" using R pl(1) unfolding list_all2_conv_all_nth in_set_conv_nth by blast
    show "?r ?m1 ?t (pl_slot pl) \<le> ?r ?m1' ?t' (pl_slot pl)"
    proof (cases "\<exists>k. pl_slot pl = ColorSlot k")
      case False
      then have "plane_ok g (area_of p) D D' pl pl'" "pl_slot pl \<in> {DepthSlot, StencilSlot}" using pl pl' planes_slot [OF pl(1)] by auto
      then show ?thesis using init [OF pl'] run_unused_keeps [OF unused [unfolded depth_unused_def]] by auto
    qed (use r in auto)
  qed (auto simp: plane_ok_def)
  then show ?thesis using frame_of_same [OF R _ same_work_area(1) [OF w]]
    by (simp add: exec_pass_def Let_def same_work_fields [OF w] same_work_area [OF w])
qed

section \<open>Rule B\<close>

text \<open>Every texture a pass samples or copies from is recorded as sampled, and blits name base textures.\<close>

definition reads_seen :: "(u64 \<rightharpoonup> u64) \<Rightarrow> u64 set \<Rightarrow> pass \<Rightarrow> bool" where
  "reads_seen views seen p \<longleftrightarrow>
     list_all (\<lambda>c. case command_sampled_texture c of None \<Rightarrow> True
                   | Some tex \<Rightarrow> tex \<in> seen \<and> (case views tex of None \<Rightarrow> True | Some b \<Rightarrow> b \<in> seen)) (pp_commands p)
     \<and> list_all (\<lambda>b. case blit_read_texture b of None \<Rightarrow> True | Some tex \<Rightarrow> base_of views tex \<in> seen) (pp_leading_blits p)"

lemma reads_seen_spare:
  assumes "reads_seen views seen p" "\<And>l t. l \<in> D \<Longrightarrow> read_through l = Some t \<Longrightarrow> t \<notin> seen"
  shows "reads_spare views D p"
  using assms unfolding reads_spare_def reads_seen_def blit_spares_def bind_spares_def list_all_iff blit_reads_def
  by (fastforce split: option.splits)

text \<open>The depth and stencil planes of the textures \<open>Q\<close> that no later pass uses before they are gone.\<close>

definition unread_depth :: "u64 set \<Rightarrow> (u64 \<rightharpoonup> nat option) \<Rightarrow> loc set" where
  "unread_depth Q tail = {l. (\<exists>t level. l = DepthAt t level \<or> l = StencilAt t level) \<and> loc_texture l \<in> Q \<and> tail (loc_texture l) \<noteq> Some None}"

lemma unread_depth_simps [simp]:
  "DepthAt t level \<in> unread_depth Q tail \<longleftrightarrow> t \<in> Q \<and> tail t \<noteq> Some None"
  "StencilAt t level \<in> unread_depth Q tail \<longleftrightarrow> t \<in> Q \<and> tail t \<noteq> Some None"
  "ColorAt t sub \<notin> unread_depth Q tail" "SamplesAt t sub \<notin> unread_depth Q tail"
  by (auto simp: unread_depth_def)

lemma color_plane_loc:
  "pl_loc (color_plane (i, a)) = ColorAt (ca_texture a) (ca_subresource a) \<or> pl_loc (color_plane (i, a)) = SamplesAt (ca_texture a) (ca_subresource a)"
  by (auto simp: color_plane_def)

lemma color_plane_not_unread [simp]: "pl_loc (color_plane x) \<notin> unread_depth Q tail"
  using color_plane_loc [of "fst x" "snd x"] by auto

lemma discard_depth_stores_work: "same_work p (discard_depth_stores p)"
  by (simp add: same_work_def discard_depth_stores_def list.rel_refl)

lemma discard_depth_stores_ok:
  assumes g: "gpu_ok g views" and spare: "reads_spare views D p" and m: "outside D m m'" and D: "D \<subseteq> D'"
    and color: "\<And>a. ca_is_bound a \<Longrightarrow> a \<in> set (colors p) \<Longrightarrow> pl_loc (color_plane (0, a)) \<notin> D"
    and dead: "DepthAt (pp_depth_texture p) (pp_depth_level p) \<in> D'" "StencilAt (pp_depth_texture p) (pp_depth_level p) \<in> D'"
    and live: "\<not> depth_unused g views p \<Longrightarrow> DepthAt (pp_depth_texture p) (pp_depth_level p) \<notin> D"
      "\<not> depth_unused g views p \<Longrightarrow> StencilAt (pp_depth_texture p) (pp_depth_level p) \<notin> D"
  shows "outside D' (exec_pass g views p m) (exec_pass g views (discard_depth_stores p) m')"
proof -
  let ?p = "discard_depth_stores p"
  have c: "plane_ok g (area_of p) D D' (color_plane (i, a)) (color_plane (i, b))"
    if "ca_is_bound a" "(a, b) \<in> set (zip (colors p) (colors ?p))" for i a b
  proof -
    have "b = a" "a \<in> set (colors p)" using that by (auto simp: discard_depth_stores_def set_zip)
    moreover have "pl_loc (color_plane (i, a)) \<notin> D" using color [OF that(1)] \<open>a \<in> _\<close> by (simp add: color_plane_def)
    ultimately show ?thesis by (intro plane_okI [OF g]) (auto simp: same_plane_def)
  qed
  have D0: "D - D' \<subseteq> written_locs (planes p)" using D by blast
  show ?thesis
  proof (cases "depth_unused g views p")
    case True
    show ?thesis by (rule exec_unused_work [OF g True spare m discard_depth_stores_work c _ _ D0])
        (use dead in \<open>auto simp: depth_plane_def stencil_plane_def\<close>)
  next
    case False
    have "color_extent_covers_depth ?p = color_extent_covers_depth p" by (rule same_work_area [OF discard_depth_stores_work])
    then show ?thesis
      by (intro exec_same_work [OF g spare m discard_depth_stores_work c _ _ D0] plane_okI [OF g])
        (use dead live False in \<open>auto simp: same_plane_def depth_plane_def stencil_plane_def discard_depth_stores_def\<close>)
  qed
qed

definition unused_ok :: "('c::order_bot) gpu \<Rightarrow> (u64 \<rightharpoonup> u64) \<Rightarrow> pass \<Rightarrow> bool" where
  "unused_ok g views p \<longleftrightarrow> (\<not> pp_used p \<longrightarrow> depth_unused g views p)"

lemma exec_pass_alive:
  assumes g: "gpu_ok g views" and spare: "reads_spare views D p" and m: "outside D m m'" and D: "D \<subseteq> D'"
    and "\<And>pl. pl \<in> set (planes p) \<Longrightarrow> pl_loc pl \<notin> D"
  shows "outside D' (exec_pass g views p m) (exec_pass g views p m')"
  by (rule exec_pass_outside [OF g spare m]) (use assms in auto)

lemma bound_color_in:
  assumes "(i, a) \<in> set (bound_color_attachments p)"
  shows "ca_is_bound a" "a \<in> set (colors p)"
proof -
  have e: "(i, a) \<in> set (enumerate 0 (colors p)) \<and> ca_is_bound a"
    using assms unfolding bound_color_attachments_def set_filter by blast
  then show "ca_is_bound a" "a \<in> set (colors p)" by (simp, metis enumerate_eq_zip set_zip_rightD)
qed

lemma planes_loc:
  assumes "pl \<in> set (planes p)"
  shows "(\<exists>a\<in>set (colors p). ca_is_bound a \<and> pl_loc pl = pl_loc (color_plane (0, a)))
    \<or> pp_depth_texture p \<noteq> 0 \<and> pl_loc pl \<in> {DepthAt (pp_depth_texture p) (pp_depth_level p), StencilAt (pp_depth_texture p) (pp_depth_level p)}"
  using assms bound_color_in [of _ _ p] unfolding planes_def depth_planes_def
  by (fastforce simp: depth_plane_def stencil_plane_def color_plane_def split: if_splits)

lemma discard_last_sim:
  assumes g: "gpu_ok g views" and Q: "Q \<inter> ps_seen_sampled_textures st = {}"
    and "\<forall>p\<in>set ps. reads_seen views (ps_seen_sampled_textures st) p \<and> unused_ok g views p
      \<and> (pp_depth_texture p \<noteq> 0 \<and> \<not> pp_sampleable p \<and> pp_depth_texture p \<notin> ps_seen_sampled_textures st \<longrightarrow> pp_depth_texture p \<in> Q)"
    and "discard_last_stores st ps = (ps', tail)" "outside (unread_depth Q tail) m m'"
  shows "outside (unread_depth Q Map.empty) (exec_passes g views ps m) (exec_passes g views ps' m')"
  using assms(3-)
proof (induction ps arbitrary: ps' tail m m')
  case (Cons p rest)
  obtain rest' tail0 where r: "discard_last_stores st rest = (rest', tail0)" by fastforce
  note res = Cons.prems(2) [simplified r discard_last_stores.simps Let_def prod.case]
  let ?D = "unread_depth Q tail" and ?D' = "unread_depth Q tail0" and ?t = "pp_depth_texture p"
  have spare: "reads_spare views ?D p"
    by (rule reads_seen_spare) (use Cons.prems(1) Q in \<open>auto simp: unread_depth_def\<close>)
  have D: "?D \<subseteq> ?D'" if "tail0 ?t \<noteq> Some None \<or> tail = tail0 \<or> tail = tail0(?t \<mapsto> None)"
    using that res by (auto simp: unread_depth_def split: if_splits)
  have keep: "outside ?D' (exec_pass g views p m) (exec_pass g views p m')" if "?t = 0 \<or> tail = tail0(?t \<mapsto> None)"
  proof (rule exec_pass_alive [OF g spare Cons.prems(3)])
    show "?D \<subseteq> ?D'" using that res by (intro D) (auto split: if_splits)
    show "pl_loc pl \<notin> ?D" if "pl \<in> set (planes p)" for pl
      using planes_loc [OF that] \<open>?t = 0 \<or> _\<close> by auto
  qed
  let ?discard = "(case tail0 ?t of None \<Rightarrow> True | Some None \<Rightarrow> False
      | Some (Some next) \<Rightarrow> \<not> depth_touched_between st (passes_through rest' next) ?t) \<and> \<not> pp_sampleable p \<and> ?t \<notin> ps_seen_sampled_textures st"
  have "\<exists>p'. ps' = p' # rest' \<and> outside ?D' (exec_pass g views p m) (exec_pass g views p' m')"
  proof (cases "?t \<noteq> 0 \<and> ?discard")
    case True
    have t0: "tail0 ?t \<noteq> Some None" using True by (auto split: option.splits)
    have tQ: "?t \<in> Q" using True Cons.prems(1) by auto
    have eq: "ps' = discard_depth_stores p # rest'" "tail = tail0(?t \<mapsto> if \<not> pp_used p then Some (length rest' + 1) else None)"
      using res True by (auto split: if_splits option.splits)
    have "outside ?D' (exec_pass g views p m) (exec_pass g views (discard_depth_stores p) m')"
      by (rule discard_depth_stores_ok [OF g spare Cons.prems(3) D])
        (use t0 tQ eq(2) Cons.prems(1) in \<open>auto simp: unused_ok_def split: if_splits\<close>)
    then show ?thesis using eq(1) by blast
  next
    case False
    then have "ps' = p # rest'" "?t = 0 \<or> tail = tail0(?t \<mapsto> None)" using res by (auto split: if_splits option.splits)
    then show ?thesis using keep by blast
  qed
  then show ?case using Cons.IH [OF _ r] Cons.prems(1) by auto
qed simp

section \<open>Rule C, colour\<close>

abbreviation ca_key :: "color_attachment \<Rightarrow> u64 \<times> u32" where
  "ca_key a \<equiv> (ca_texture a, ca_subresource a)"

text \<open>No target is attached twice, and a texture is multisampled in every pass or in none (\<open>ms\<close>).\<close>

definition targets_ok :: "(u64 \<Rightarrow> bool) \<Rightarrow> pass \<Rightarrow> bool" where
  "targets_ok ms p \<longleftrightarrow> distinct (map (\<lambda>(_, a). ca_key a) (bound_color_attachments p))
     \<and> list_all (\<lambda>(_, a). (ca_msaa_texture a \<noteq> 0) = ms (ca_texture a)) (bound_color_attachments p)"

definition color_loc :: "(u64 \<Rightarrow> bool) \<Rightarrow> u64 \<times> u32 \<Rightarrow> loc" where
  "color_loc ms k = (if ms (fst k) then SamplesAt else ColorAt) (fst k) (snd k)"

lemma color_loc_inject [simp]: "color_loc ms k = color_loc ms k' \<longleftrightarrow> k = k'"
  by (cases k; cases k') (auto simp: color_loc_def)

lemma color_loc_texture [simp]: "loc_texture (color_loc ms k) = fst k"
  by (simp add: color_loc_def)

lemma color_loc_other [simp]: "color_loc ms k \<noteq> DepthAt t level" "color_loc ms k \<noteq> StencilAt t level"
  "DepthAt t level \<noteq> color_loc ms k" "StencilAt t level \<noteq> color_loc ms k"
  by (simp_all add: color_loc_def)

lemma color_plane_at:
  assumes "targets_ok ms p" "(i, a) \<in> set (bound_color_attachments p)"
  shows "pl_loc (color_plane (j, a)) = color_loc ms (ca_key a)"
  using assms by (auto simp: targets_ok_def color_plane_def color_loc_def list_all_iff)

lemma bound_colorI:
  assumes "a \<in> set (colors p)" "ca_is_bound a"
  shows "\<exists>i. (i, a) \<in> set (bound_color_attachments p)"
proof -
  obtain i where "i < length (colors p)" "colors p ! i = a" using assms(1) unfolding in_set_conv_nth by blast
  then have "(i, a) \<in> set (enumerate 0 (colors p))" unfolding in_set_enumerate_eq by simp
  then show ?thesis using assms(2) unfolding bound_color_attachments_def set_filter by blast
qed

lemma discard_slots_props:
  assumes "discard_slots seen as next = (slots, next')" "distinct (map (\<lambda>(_, a). ca_key a) as)"
  shows "(\<forall>i\<in>slots. \<exists>a load. (i, a) \<in> set as \<and> next (ca_key a) = Some load \<and> is_cclear load \<and> ca_texture a \<notin> seen)
    \<and> (\<forall>(i, a)\<in>set as. next' (ca_key a) = Some (ca_load a))
    \<and> (\<forall>k. k \<notin> (\<lambda>(_, a). ca_key a) ` set as \<longrightarrow> next' k = next k)"
  using assms
proof (induction as arbitrary: "next" slots)
  case (Cons x as)
  obtain i a where x: "x = (i, a)" by fastforce
  obtain slots0 where r: "discard_slots seen as (next(ca_key a \<mapsto> ca_load a)) = (slots0, next')"
    using Cons.prems(1) by (auto simp: x Let_def split: prod.splits)
  have slots: "slots \<subseteq> insert i slots0" "i \<in> slots \<Longrightarrow> i \<in> slots0 \<or> (\<exists>load. next (ca_key a) = Some load \<and> is_cclear load \<and> ca_texture a \<notin> seen)"
    using Cons.prems(1) r by (auto simp: x Let_def split: option.splits if_splits)
  have fresh: "ca_key a \<notin> (\<lambda>(_, a). ca_key a) ` set as" and d: "distinct (map (\<lambda>(_, a). ca_key a) as)"
    using Cons.prems(2) by (auto simp: x)
  note IH = Cons.IH [OF r d]
  have "\<exists>b load. (j, b) \<in> set (x # as) \<and> next (ca_key b) = Some load \<and> is_cclear load \<and> ca_texture b \<notin> seen" if "j \<in> slots" for j
  proof (cases "j \<in> slots0")
    case True
    then obtain b load where b: "(j, b) \<in> set as" "(next(ca_key a \<mapsto> ca_load a)) (ca_key b) = Some load" "is_cclear load" "ca_texture b \<notin> seen"
      using IH by blast
    then have "ca_key b \<noteq> ca_key a" using fresh by force
    with b show ?thesis by auto
  next
    case False
    then show ?thesis using slots that by (auto simp: x)
  qed
  moreover have "next' (ca_key a) = Some (ca_load a)" using IH fresh by auto
  ultimately show ?case using IH by (auto simp: x)
qed simp

lemma set_color_stores_colors:
  "colors (set_color_stores slots p) = map (\<lambda>(i, a). if i \<in> slots then a\<lparr>ca_store := DontStore\<rparr> else a) (enumerate 0 (colors p))"
  by (simp add: set_color_stores_def Let_def)

lemma list_all2_enumerate:
  assumes "\<And>i x. (i, x) \<in> set (enumerate n xs) \<Longrightarrow> P x (f (i, x))"
  shows "list_all2 P xs (map f (enumerate n xs))"
  using assms by (induction xs arbitrary: n) auto

lemma set_color_stores_pairs:
  assumes "(a, b) \<in> set (zip (colors p) (colors (set_color_stores slots p)))"
  shows "b = a \<or> (\<exists>i\<in>slots. (i, a) \<in> set (enumerate 0 (colors p)) \<and> b = a\<lparr>ca_store := DontStore\<rparr>)"
proof -
  have "list_all2 (\<lambda>a b. b = a \<or> (\<exists>i\<in>slots. (i, a) \<in> set (enumerate 0 (colors p)) \<and> b = a\<lparr>ca_store := DontStore\<rparr>))
    (colors p) (colors (set_color_stores slots p))"
    unfolding set_color_stores_colors by (rule list_all2_enumerate) auto
  then show ?thesis using assms unfolding list_all2_iff by blast
qed

lemma set_color_stores_work: "same_work p (set_color_stores slots p)"
proof -
  have "list_all2 same_attachment (colors p) (colors (set_color_stores slots p))"
    unfolding set_color_stores_colors by (rule list_all2_enumerate) (simp add: same_attachment_def)
  then show ?thesis by (simp add: same_work_def set_color_stores_def Let_def)
qed

text \<open>The attachments whose next use clears them, when nothing samples their texture.\<close>

definition cleared_next :: "(u64 \<Rightarrow> bool) \<Rightarrow> u64 set \<Rightarrow> (u64 \<times> u32 \<rightharpoonup> color_load) \<Rightarrow> loc set" where
  "cleared_next ms seen next = {color_loc ms k | k load. next k = Some load \<and> is_cclear load \<and> fst k \<notin> seen}"

lemma cleared_next_loc [simp]:
  "color_loc ms k \<in> cleared_next ms seen next \<longleftrightarrow> (\<exists>load. next k = Some load \<and> is_cclear load \<and> fst k \<notin> seen)"
  by (cases k) (auto simp: cleared_next_def)

lemma discard_color_step:
  assumes g: "gpu_ok g views" and seen: "reads_seen views seen p" and ms: "targets_ok ms p"
    and d: "discard_slots seen (bound_color_attachments p) next = (slots, next')" and m: "outside (cleared_next ms seen next') m m'"
  shows "outside (cleared_next ms seen next) (exec_pass g views p m) (exec_pass g views (set_color_stores slots p) m')"
proof -
  let ?D = "cleared_next ms seen next'" and ?D' = "cleared_next ms seen next" and ?p = "set_color_stores slots p"
  have slots: "\<exists>a load. (i, a) \<in> set (bound_color_attachments p) \<and> next (ca_key a) = Some load \<and> is_cclear load \<and> ca_texture a \<notin> seen"
    if "i \<in> slots" for i using discard_slots_props [OF d] ms that by (auto simp: targets_ok_def)
  have load: "next' (ca_key a) = Some (ca_load a)" if "(i, a) \<in> set (bound_color_attachments p)" for i a
    using discard_slots_props [OF d] ms that by (auto simp: targets_ok_def)
  have rest: "next' k = next k" if "k \<notin> (\<lambda>(_, a). ca_key a) ` set (bound_color_attachments p)" for k
    by (cases k) (use discard_slots_props [OF d] ms that in \<open>auto simp: targets_ok_def\<close>)
  have no_depth: "DepthAt t l \<notin> cleared_next ms seen n" "StencilAt t l \<notin> cleared_next ms seen n" for t l n by (auto simp: cleared_next_def)
  show ?thesis
  proof (rule exec_same_work [OF g _ m set_color_stores_work])
    show "reads_spare views ?D p" by (rule reads_seen_spare [OF seen]) (auto simp: cleared_next_def dest!: read_throughD)
    show "?D - ?D' \<subseteq> written_locs (planes p)"
    proof
      fix l assume "l \<in> ?D - ?D'"
      then obtain k load where l: "l = color_loc ms k" "next' k = Some load" "next k \<noteq> Some load" by (auto simp: cleared_next_def)
      then obtain i a where "k = ca_key a" and a: "(i, a) \<in> set (bound_color_attachments p)" using rest [of k] by force
      then have "l = pl_loc (color_plane (i, a))" using l(1) color_plane_at [OF ms a] by simp
      then show "l \<in> written_locs (planes p)" using a by (force simp: written_locs_def planes_def)
    qed
  next
    fix i a b assume ab: "same_attachment a b" "ca_is_bound a" "(a, b) \<in> set (zip (colors p) (colors ?p))"
    then obtain j where j: "(j, a) \<in> set (bound_color_attachments p)" using bound_colorI [of a p] by (auto dest: set_zip_leftD)
    note at = color_plane_at [OF ms j]
    have "ca_store b = ca_store a \<or> color_loc ms (ca_key a) \<in> ?D'"
    proof (cases "b = a")
      case False
      then obtain k where k: "k \<in> slots" "(k, a) \<in> set (enumerate 0 (colors p))" using set_color_stores_pairs [OF ab(3)] by blast
      obtain a' load where a': "(k, a') \<in> set (bound_color_attachments p)" "next (ca_key a') = Some load" "is_cclear load" "ca_texture a' \<notin> seen"
        using slots [OF k(1)] by blast
      then have "(k, a') \<in> set (enumerate 0 (colors p))" unfolding bound_color_attachments_def set_filter by blast
      then have "a' = a" using k(2) unfolding in_set_enumerate_eq by simp
      then show ?thesis using a' by auto
    qed simp
    moreover have "ca_load b = ca_load a" using set_color_stores_pairs [OF ab(3)] by auto
    moreover have "is_cclear (ca_load a)" if "color_loc ms (ca_key a) \<in> ?D" using that load [OF j] by auto
    ultimately show "plane_ok g (area_of p) ?D ?D' (color_plane (i, a)) (color_plane (i, b))"
      by (intro plane_okI [OF g same_attachment_plane [OF ab(1)]])
        (auto simp: at, auto simp: color_plane_def same_attachmentD [OF ab(1)] is_cclear_def split: color_load.splits)
  qed (auto intro!: plane_okI [OF g] simp: same_plane_def depth_plane_def stencil_plane_def no_depth same_work_fields [OF set_color_stores_work]
      same_work_area [OF set_color_stores_work], simp_all add: set_color_stores_def Let_def)
qed

lemma discard_color_sim:
  assumes g: "gpu_ok g views" and "\<forall>p\<in>set ps. reads_seen views seen p \<and> targets_ok ms p"
    and "discard_color_stores seen ps = (ps', next)" "outside (cleared_next ms seen next) m m'"
  shows "exec_passes g views ps m \<le> exec_passes g views ps' m'"
  using assms(2-)
proof (induction ps arbitrary: ps' "next" m m')
  case (Cons p rest)
  obtain rest' next0 where r: "discard_color_stores seen rest = (rest', next0)" by fastforce
  obtain slots where d: "discard_slots seen (bound_color_attachments p) next0 = (slots, next)" and ps': "ps' = set_color_stores slots p # rest'"
    using Cons.prems(2) r by (auto split: prod.splits)
  have "outside (cleared_next ms seen next0) (exec_pass g views p m) (exec_pass g views (set_color_stores slots p) m')"
    by (rule discard_color_step [OF g _ _ d Cons.prems(3)]) (use Cons.prems(1) in auto)
  then show ?case using Cons.IH [OF _ r] Cons.prems(1) by (simp add: ps')
qed (auto simp: cleared_next_def)

section \<open>Rule C, depth and stencil\<close>

abbreviation depth_key :: "pass \<Rightarrow> u64 \<times> u32" where
  "depth_key p \<equiv> (pp_depth_texture p, pp_depth_level p)"

definition first_use :: "u64 \<times> u32 \<Rightarrow> pass list \<Rightarrow> pass option" where
  "first_use k ps = find (\<lambda>q. pp_depth_texture q \<noteq> 0 \<and> depth_key q = k) ps"

text \<open>Which textures have a stencil plane (\<open>hs\<close>) does not change from pass to pass.\<close>

definition stencil_ok :: "(u64 \<Rightarrow> bool) \<Rightarrow> pass \<Rightarrow> bool" where
  "stencil_ok hs p \<longleftrightarrow> (pp_depth_texture p \<noteq> 0 \<longrightarrow> pp_has_stencil p = hs (pp_depth_texture p))"

text \<open>The planes whose next use is a clear that reaches all of them, when nothing samples their texture.\<close>

definition depth_cleared_next :: "(u64 \<Rightarrow> bool) \<Rightarrow> u64 set \<Rightarrow> pass list \<Rightarrow> loc set" where
  "depth_cleared_next hs seen ps =
     {DepthAt t level | t level q. first_use (t, level) ps = Some q \<and> t \<notin> seen \<and> color_extent_covers_depth q \<and> is_dclear (pp_depth_load q)}
     \<union> {StencilAt t level | t level q. first_use (t, level) ps = Some q \<and> t \<notin> seen \<and> color_extent_covers_depth q
          \<and> is_sclear (pp_stencil_load q) \<and> hs t}"

lemma depth_cleared_next_simps [simp]:
  "DepthAt t level \<in> depth_cleared_next hs seen ps \<longleftrightarrow>
     t \<notin> seen \<and> (\<exists>q. first_use (t, level) ps = Some q \<and> color_extent_covers_depth q \<and> is_dclear (pp_depth_load q))"
  "StencilAt t level \<in> depth_cleared_next hs seen ps \<longleftrightarrow>
     t \<notin> seen \<and> hs t \<and> (\<exists>q. first_use (t, level) ps = Some q \<and> color_extent_covers_depth q \<and> is_sclear (pp_stencil_load q))"
  "ColorAt t sub \<notin> depth_cleared_next hs seen ps" "SamplesAt t sub \<notin> depth_cleared_next hs seen ps"
  by (auto simp: depth_cleared_next_def)

lemma color_plane_not_cleared [simp]: "pl_loc (color_plane x) \<notin> depth_cleared_next hs seen ps"
  using color_plane_loc [of "fst x" "snd x"] by auto

lemma first_use_simps [simp]:
  "first_use k [] = None"
  "first_use k (p # ps) = (if pp_depth_texture p \<noteq> 0 \<and> depth_key p = k then Some p else first_use k ps)"
  by (auto simp: first_use_def)

definition locates :: "(u64 \<times> u32 \<rightharpoonup> nat) \<Rightarrow> pass list \<Rightarrow> u64 \<times> u32 \<Rightarrow> bool" where
  "locates next ps k \<longleftrightarrow> (case next k of None \<Rightarrow> first_use k ps = None
     | Some n \<Rightarrow> 0 < n \<and> n \<le> length ps \<and> first_use k ps = Some (ps ! (length ps - n)))"

lemma locates_skip: "locates next ps k \<Longrightarrow> pp_depth_texture p = 0 \<or> depth_key p \<noteq> k \<Longrightarrow> locates next (p # ps) k"
  by (cases k) (auto simp: locates_def Suc_diff_le split: option.splits)

lemma next_use_first:
  assumes "discard_stores_before_clears st ps = (ps', next)"
  shows "locates next ps' k"
  using assms
proof (induction ps arbitrary: ps' "next")
  case (Cons p rest)
  obtain rest' next0 where r: "discard_stores_before_clears st rest = (rest', next0)" by fastforce
  note IH = Cons.IH [OF r]
  show ?case
  proof (cases "pp_depth_texture p = 0")
    case True
    then show ?thesis using Cons.prems locates_skip [OF IH] by (auto simp: r)
  next
    case False
    obtain p' where p': "ps' = p' # rest'" "depth_key p' = depth_key p" "next = next0(depth_key p \<mapsto> length rest' + 1)"
      using Cons.prems False by (auto simp: r Let_def split: option.splits if_splits)
    show ?thesis
    proof (cases "depth_key p = k")
      case True
      then show ?thesis using p' False by (auto simp: locates_def)
    next
      case False
      then have "locates next rest' k" using IH p'(3) by (auto simp: locates_def)
      then show ?thesis unfolding p'(1) by (rule locates_skip) (use False p'(2) in simp)
    qed
  qed
qed (simp add: locates_def)

text \<open>A pass whose depth or stencil store is discarded, when the next use clears the plane.\<close>

definition drops_depth_store :: "(u64 \<Rightarrow> bool) \<Rightarrow> u64 set \<Rightarrow> pass list \<Rightarrow> pass \<Rightarrow> pass \<Rightarrow> bool" where
  "drops_depth_store hs seen rest p p' \<longleftrightarrow> p' = p\<lparr>pp_depth_store := pp_depth_store p', pp_stencil_store := pp_stencil_store p'\<rparr>
     \<and> (pp_depth_store p' = pp_depth_store p \<or> DepthAt (pp_depth_texture p) (pp_depth_level p) \<in> depth_cleared_next hs seen rest)
     \<and> (pp_stencil_store p' = pp_stencil_store p \<or> StencilAt (pp_depth_texture p) (pp_depth_level p) \<in> depth_cleared_next hs seen rest)"

lemma plane_ok_store:
  assumes "gpu_ok g views" "pl_loc pl \<in> D \<Longrightarrow> (\<exists>v. pl_load pl = ClearLoad v) \<and> pl_whole pl" "st = pl_store pl \<or> pl_loc pl \<in> D'"
  shows "plane_ok g area D D' pl (pl\<lparr>pl_store := st\<rparr>)"
  by (rule plane_okI [OF assms(1)]) (use assms(2,3) in \<open>auto simp: same_plane_def\<close>)

lemma plane_clears:
  "is_dclear (pp_depth_load p) \<Longrightarrow> \<exists>v. pl_load (depth_plane p) = ClearLoad v"
  "is_sclear (pp_stencil_load p) \<Longrightarrow> \<exists>v. pl_load (stencil_plane p) = ClearLoad v"
  by (auto simp: depth_plane_def stencil_plane_def is_dclear_def is_sclear_def split: depth_load.splits stencil_load.splits)

lemma drops_depth_store_work: "drops_depth_store hs seen rest p p' \<Longrightarrow> same_work p p'"
  by (cases p; cases p') (simp add: same_work_def drops_depth_store_def list.rel_refl)

lemma drops_depth_store_step:
  assumes g: "gpu_ok g views" and seen: "reads_seen views seen p" and hs: "stencil_ok hs p"
    and d: "drops_depth_store hs seen rest p p'" and m: "outside (depth_cleared_next hs seen (p' # rest)) m m'"
  shows "outside (depth_cleared_next hs seen rest) (exec_pass g views p m) (exec_pass g views p' m')"
proof -
  let ?D = "depth_cleared_next hs seen (p' # rest)" and ?D' = "depth_cleared_next hs seen rest"
  note w = drops_depth_store_work [OF d]
  have same: "pp_depth_load p' = pp_depth_load p" "pp_stencil_load p' = pp_stencil_load p" "colors p' = colors p"
    using d unfolding drops_depth_store_def by (cases p; cases p'; simp)+
  note f = same_work_fields [OF w] same_work_area [OF w] same
  have at: "DepthAt (pp_depth_texture p) (pp_depth_level p) \<in> ?D \<Longrightarrow> is_dclear (pp_depth_load p) \<and> color_extent_covers_depth p"
    "StencilAt (pp_depth_texture p) (pp_depth_level p) \<in> ?D \<Longrightarrow> is_sclear (pp_stencil_load p) \<and> color_extent_covers_depth p"
    if "pp_depth_texture p \<noteq> 0" using that by (auto simp: f)
  show ?thesis
  proof (rule exec_same_work [OF g _ m w])
    show "reads_spare views ?D p" by (rule reads_seen_spare [OF seen]) (auto simp: depth_cleared_next_def)
    show "?D - ?D' \<subseteq> written_locs (planes p)"
    proof
      fix l assume l: "l \<in> ?D - ?D'"
      then have "pp_depth_texture p \<noteq> 0 \<and> (l = pl_loc (depth_plane p) \<or> l = pl_loc (stencil_plane p) \<and> pp_has_stencil p)"
        using hs by (auto simp: depth_cleared_next_def f depth_plane_def stencil_plane_def stencil_ok_def split: if_splits)
      then show "l \<in> written_locs (planes p)" by (auto simp: written_locs_def planes_def depth_planes_def)
    qed
    show "plane_ok g (area_of p) ?D ?D' (color_plane (i, a)) (color_plane (i, b))"
      if "(a, b) \<in> set (zip (colors p) (colors p'))" for i a b
    proof -
      have "b = a" using that unfolding same(3) by (auto simp: zip_same simp del: zip_Cons_Cons)
      then show ?thesis by (intro plane_okI [OF g]) (auto simp: same_plane_def)
    qed
    have loc: "pl_loc (depth_plane p) = DepthAt (pp_depth_texture p) (pp_depth_level p)" "pl_loc (stencil_plane p) = StencilAt (pp_depth_texture p) (pp_depth_level p)"
      "pl_whole (depth_plane p) = color_extent_covers_depth p" "pl_whole (stencil_plane p) = color_extent_covers_depth p"
      by (simp_all add: depth_plane_def stencil_plane_def)
    have st: "pl_store (depth_plane p) = pp_depth_store p" "pl_store (stencil_plane p) = pp_stencil_store p"
      by (simp_all add: depth_plane_def stencil_plane_def)
    have drop: "pp_depth_store p' = pl_store (depth_plane p) \<or> pl_loc (depth_plane p) \<in> ?D'"
      "pp_stencil_store p' = pl_store (stencil_plane p) \<or> pl_loc (stencil_plane p) \<in> ?D'"
      using d by (simp_all only: drops_depth_store_def loc st)
    have "plane_ok g (area_of p) ?D ?D' (depth_plane p) ((depth_plane p)\<lparr>pl_store := pp_depth_store p'\<rparr>)"
      "plane_ok g (area_of p) ?D ?D' (stencil_plane p) ((stencil_plane p)\<lparr>pl_store := pp_stencil_store p'\<rparr>)" if "pp_depth_texture p \<noteq> 0"
      by (rule plane_ok_store [OF g _ drop(1)], use at(1) [OF that] plane_clears(1) [of p] in \<open>simp only: loc\<close>)
        (rule plane_ok_store [OF g _ drop(2)], use at(2) [OF that] plane_clears(2) [of p] in \<open>simp only: loc\<close>)
    then show "plane_ok g (area_of p) ?D ?D' (depth_plane p) (depth_plane p')"
      "plane_ok g (area_of p) ?D ?D' (stencil_plane p) (stencil_plane p')" if "pp_depth_texture p \<noteq> 0"
      using that by (simp_all add: depth_plane_def stencil_plane_def f)
  qed
qed

lemma discard_before_clears_sim:
  assumes g: "gpu_ok g views"
    and "\<forall>p\<in>set ps. reads_seen views (ps_seen_sampled_textures st) p \<and> stencil_ok hs p"
    and "discard_stores_before_clears st ps = (ps', next)" "outside (depth_cleared_next hs (ps_seen_sampled_textures st) ps') m m'"
  shows "exec_passes g views ps m \<le> exec_passes g views ps' m'"
  using assms(2-)
proof (induction ps arbitrary: ps' "next" m m')
  case (Cons p rest)
  let ?seen = "ps_seen_sampled_textures st"
  obtain rest' next0 where r: "discard_stores_before_clears st rest = (rest', next0)" by fastforce
  have "\<exists>p'. ps' = p' # rest' \<and> drops_depth_store hs ?seen rest' p p'"
  proof (cases "pp_depth_texture p = 0 \<or> next0 (depth_key p) = None")
    case True
    then have "ps' = p # rest'" using Cons.prems(2) by (auto simp: r Let_def split: if_splits)
    then show ?thesis by (simp add: drops_depth_store_def)
  next
    case False
    then obtain n where n: "next0 (depth_key p) = Some n" by blast
    let ?q = "rest' ! (length rest' - n)"
    have q: "first_use (depth_key p) rest' = Some ?q" using next_use_first [OF r, of "depth_key p"] n by (simp add: locates_def)
    have hs: "pp_has_stencil p = hs (pp_depth_texture p)" using Cons.prems(1) False by (simp add: stencil_ok_def)
    show ?thesis using Cons.prems(2) False n q hs by (auto simp: r Let_def drops_depth_store_def)
  qed
  then obtain p' where p': "ps' = p' # rest'" "drops_depth_store hs ?seen rest' p p'" by blast
  have "outside (depth_cleared_next hs ?seen rest') (exec_pass g views p m) (exec_pass g views p' m')"
    by (rule drops_depth_store_step [OF g _ _ p'(2)]) (use Cons.prems(1,3) p'(1) in auto)
  then show ?case using Cons.IH [OF _ r] Cons.prems(1) by (simp add: p'(1))
qed (auto simp: depth_cleared_next_def)

section \<open>Stencil planes nothing writes\<close>

definition draw_keeps :: "('c::order_bot) gpu \<Rightarrow> (u64 \<rightharpoonup> u64) \<Rightarrow> pass_frame \<Rightarrow> slot \<Rightarrow> encoder_state \<Rightarrow> command \<Rightarrow> bool" where
  "draw_keeps g views fr s es c \<longleftrightarrow> (\<forall>m t. draw_step g views fr es c m t s = t s)"

text \<open>
  A pass without the stencil-written flag has no draw that writes stencil, and the destination of a blit
  that may write stencil counts as written.
\<close>

definition stencil_writes_noted :: "('c::order_bot) gpu \<Rightarrow> (u64 \<rightharpoonup> u64) \<Rightarrow> u64 set \<Rightarrow> pass \<Rightarrow> bool" where
  "stencil_writes_noted g views written p \<longleftrightarrow>
     (\<not> pp_stencil_written p \<longrightarrow> all_draws (\<lambda>_. draw_keeps g views (frame_of p) StencilSlot) 0 Map.empty (pp_commands p))
     \<and> list_all (\<lambda>b. blit_writes_stencil b \<longrightarrow> (case blit_writes views b of None \<Rightarrow> True | Some t \<Rightarrow> t \<in> written)) (pp_leading_blits p)"

definition unwritten_stencil :: "u64 set \<Rightarrow> ('c::order_bot) memory \<Rightarrow> bool" where
  "unwritten_stencil written m \<longleftrightarrow> (\<forall>t level. t \<notin> written \<longrightarrow> m (StencilAt t level) = bot)"

lemma run_keeps:
  assumes "all_draws (\<lambda>_. draw_keeps g views fr s) n es cs"
  shows "run g views fr es cs m t s = t s"
  using assms by (induction cs arbitrary: n es t) (auto simp: draw_keeps_def)

lemma find_append: "find P (xs @ ys) = (case find P xs of None \<Rightarrow> find P ys | Some x \<Rightarrow> Some x)"
  by (induction xs) auto

lemma find_color_planes:
  "(\<And>x. \<not> P (color_plane x)) \<Longrightarrow> find P (planes p) = find P (depth_planes p)"
  by (simp add: planes_def find_append find_None_iff split: option.split) (metis find_None_iff imageE list.set_map not_None_eq)

lemma load_tile_stencil:
  "load_tile g area (planes p) m StencilSlot =
     (if pp_depth_texture p \<noteq> 0 \<and> pp_has_stencil p then plane_init g area (stencil_plane p) m else bot)"
  unfolding load_tile_def by (subst find_color_planes) (auto simp: color_plane_def depth_planes_def depth_plane_def stencil_plane_def)

lemma store_tile_stencil:
  "store_tile g (planes p) t m (StencilAt tex level) =
     (if pp_depth_texture p \<noteq> 0 \<and> pp_has_stencil p \<and> depth_key p = (tex, level)
      then if pp_stencil_store p = Store then t StencilSlot else bot else m (StencilAt tex level))"
proof -
  have "find (\<lambda>pl. pl_loc pl = StencilAt tex level) (planes p) =
     (if pp_depth_texture p \<noteq> 0 \<and> pp_has_stencil p \<and> depth_key p = (tex, level) then Some (stencil_plane p) else None)"
    by (subst find_color_planes) (auto simp: color_plane_def depth_planes_def depth_plane_def stencil_plane_def split: if_splits)
  moreover have "find (\<lambda>pl. map_option fst (pl_resolve pl) = Some (StencilAt tex level)) (planes p) = None"
    by (subst find_color_planes) (auto simp: color_plane_def depth_planes_def depth_plane_def stencil_plane_def split: if_splits)
  ultimately show ?thesis unfolding store_tile_def
    by (cases "pp_depth_texture p \<noteq> 0 \<and> pp_has_stencil p \<and> depth_key p = (tex, level)", simp_all only: option.case if_True if_False simp_thms)
      (simp add: stencil_plane_def)
qed

lemma blits_unwritten_stencil:
  assumes g: "gpu_ok g views" and "list_all (\<lambda>b. blit_writes_stencil b \<longrightarrow> (case blit_writes views b of None \<Rightarrow> True | Some t \<Rightarrow> t \<in> W)) bs"
    and "unwritten_stencil W m"
  shows "unwritten_stencil W (fold (g_blit g) bs m)"
  using assms(2,3)
proof (induction bs arbitrary: m)
  case (Cons b bs)
  have "g_blit g b m (StencilAt t level) = m (StencilAt t level)" if "t \<notin> W" for t level
    using Cons.prems(1) that gpu_blit_elsewhere(1) [OF g, of b "StencilAt t level"] gpu_blit_elsewhere(3) [OF g, of b] by force
  then have "unwritten_stencil W (g_blit g b m)" using Cons.prems(2) by (simp add: unwritten_stencil_def)
  then show ?case using Cons by simp
qed simp

definition stencil_unwritten_by :: "u64 set \<Rightarrow> pass \<Rightarrow> bool" where
  "stencil_unwritten_by W p \<longleftrightarrow> (pp_depth_texture p \<noteq> 0 \<and> pp_depth_texture p \<notin> W \<longrightarrow> \<not> pp_stencil_written p \<and> \<not> is_sclear (pp_stencil_load p))"

lemma stencil_plane_init:
  assumes "unwritten_stencil W m" "stencil_unwritten_by W p" "pp_depth_texture p \<noteq> 0" "pp_depth_texture p \<notin> W"
  shows "plane_init g area (stencil_plane p) m = bot"
  using assms by (auto simp: plane_init_def stencil_plane_def unwritten_stencil_def stencil_unwritten_by_def is_sclear_def split: stencil_load.splits)

lemma exec_unwritten_stencil:
  assumes g: "gpu_ok g views" and noted: "stencil_writes_noted g views W p" and un: "stencil_unwritten_by W p" and m: "unwritten_stencil W m"
  shows "unwritten_stencil W (exec_pass g views p m)"
proof -
  let ?m1 = "fold (g_blit g) (pp_leading_blits p) m"
  have m1: "unwritten_stencil W ?m1" by (rule blits_unwritten_stencil [OF g _ m]) (use noted in \<open>simp add: stencil_writes_noted_def\<close>)
  have "run g views (frame_of p) Map.empty (pp_commands p) ?m1 (load_tile g (area_of p) (planes p) ?m1) StencilSlot = bot"
    if "pp_depth_texture p \<noteq> 0" "pp_depth_texture p \<notin> W"
  proof (subst run_keeps)
    show "all_draws (\<lambda>_. draw_keeps g views (frame_of p) StencilSlot) 0 Map.empty (pp_commands p)"
      using noted un that by (simp add: stencil_writes_noted_def stencil_unwritten_by_def)
  qed (use stencil_plane_init [OF m1 un that] in \<open>simp add: load_tile_stencil\<close>)
  then show ?thesis using m1 by (auto simp: unwritten_stencil_def exec_pass_def Let_def store_tile_stencil)
qed

lemma discard_stencil_work: "same_work p (discard_stencil W p)"
  by (simp add: same_work_def discard_stencil_def list.rel_refl)

lemma discard_stencil_step:
  assumes g: "gpu_ok g views" and noted: "stencil_writes_noted g views W p" and un: "stencil_unwritten_by W p"
    and m: "unwritten_stencil W m" "m \<le> m'"
  shows "exec_pass g views p m \<le> exec_pass g views (discard_stencil W p) m'"
proof (cases "discard_stencil W p = p")
  case False
  then have p: "pp_depth_texture p \<noteq> 0" "pp_has_stencil p" "pp_depth_texture p \<notin> W" by (auto simp: discard_stencil_def split: if_splits)
  let ?p = "discard_stencil W p" and ?D' = "{StencilAt (pp_depth_texture p) (pp_depth_level p)}"
  note w = discard_stencil_work [of p W]
  have m1: "unwritten_stencil W (fold (g_blit g) (pp_leading_blits p) m)"
    by (rule blits_unwritten_stencil [OF g _ m(1)]) (use noted in \<open>simp add: stencil_writes_noted_def\<close>)
  have R: "list_all2 (\<lambda>pl pl'. same_plane pl pl' \<and> (pl' = pl \<or> pl = stencil_plane p)) (planes p) (planes ?p)"
  proof (rule same_work_planes [OF w])
    show "color_plane (i, b) = color_plane (i, a) \<or> color_plane (i, a) = stencil_plane p" if "(a, b) \<in> set (zip (colors p) (colors ?p))" for i a b
    proof -
      have "colors ?p = colors p" by (simp add: discard_stencil_def)
      then have "b = a" using that by (metis zip_same)
      then show ?thesis by simp
    qed
    have "depth_plane ?p = depth_plane p"
      unfolding depth_plane_def same_work_area(2) [OF w] by (simp add: discard_stencil_def)
    then show "depth_plane ?p = depth_plane p \<or> depth_plane p = stencil_plane p" by simp
  qed simp
  have "outside ?D' (exec_pass g views p m) (exec_pass g views ?p m')"
  proof (rule exec_pass_sim [OF g _ _ same_work_fields(1,2) [OF w] same_work_area(1) [OF w] R, where D = "{}"])
    fix pl pl' m1 m1' assume "same_plane pl pl' \<and> (pl' = pl \<or> pl = stencil_plane p)" "outside {} m1 m1'"
      "m1 = fold (g_blit g) (pp_leading_blits p) m"
    then show "plane_init g (area_of p) pl m1 \<le> plane_init g (area_of p) pl' m1'"
      using plane_init_keep [OF g, of "{}" m1 m1' pl] stencil_plane_init [OF m1 un p(1,3)] by auto
  qed (use m(2) in \<open>auto simp: stencil_plane_def\<close>)
  moreover have "unwritten_stencil W (exec_pass g views p m)" by (rule exec_unwritten_stencil [OF g noted un m(1)])
  ultimately show ?thesis using p(3) by (auto simp: le_fun_def outside_def unwritten_stencil_def) (metis bot.extremum)
qed (simp add: exec_pass_mono [OF g m(2)])

lemma discard_stencil_sim:
  assumes g: "gpu_ok g views" and "\<forall>p\<in>set ps. stencil_writes_noted g views W p \<and> stencil_unwritten_by W p"
    and "unwritten_stencil W m" "m \<le> m'"
  shows "exec_passes g views ps m \<le> exec_passes g views (map (discard_stencil W) ps) m'"
  using assms(2-)
proof (induction ps arbitrary: m m')
  case (Cons p ps)
  then show ?case using discard_stencil_step [OF g, of W p m m'] exec_unwritten_stencil [OF g, of W p m] by simp
qed simp

lemma note_stencil_writes_unwritten: "\<forall>p\<in>set ps. stencil_unwritten_by (note_stencil_writes ps W) p"
  by (auto simp: stencil_unwritten_by_def note_stencil_writes_def)

section \<open>Loads of passes that do not use their depth attachment\<close>

lemma discard_unused_loads_work: "same_work p (discard_unused_loads p)"
  by (simp add: same_work_def discard_unused_loads_def Let_def list.rel_refl)

lemma discard_unused_loads_le:
  assumes g: "gpu_ok g views" and un: "unused_ok g views p"
  shows "exec_pass g views p m \<le> exec_pass g views (discard_unused_loads p) m"
proof (cases "pp_used p")
  case False
  let ?p = "discard_unused_loads p"
  note w = discard_unused_loads_work [of p]
  have "colors ?p = colors p" by (simp add: discard_unused_loads_def Let_def)
  then have c: "b = a" if "(a, b) \<in> set (zip (colors p) (colors ?p))" for a b using that by (metis zip_same)
  have "depth_plane ?p = depth_plane p \<or> pp_depth_store p = DontStore" "stencil_plane ?p = stencil_plane p \<or> pp_stencil_store p = DontStore"
    unfolding depth_plane_def stencil_plane_def same_work_area(2) [OF w] by (auto simp: discard_unused_loads_def Let_def)
  then have depth: "plane_ok g (area_of p) {} {} (depth_plane p) (depth_plane ?p) \<or> pl_loc (depth_plane p) \<in> {} \<or> pp_depth_store p = DontStore"
    "plane_ok g (area_of p) {} {} (stencil_plane p) (stencil_plane ?p) \<or> pl_loc (stencil_plane p) \<in> {} \<or> pp_stencil_store p = DontStore"
    by (auto intro: plane_ok_refl [OF g])
  have un': "depth_unused g views p" using un False by (simp add: unused_ok_def)
  have "outside {} (exec_pass g views p m) (exec_pass g views ?p m)"
  proof (rule exec_unused_work [OF g un' _ _ w, where D = "{}"])
    show "plane_ok g (area_of p) {} {} (color_plane (i, a)) (color_plane (i, b))" if "(a, b) \<in> set (zip (colors p) (colors ?p))" for i a b
      unfolding c [OF that] by (rule plane_ok_refl [OF g])
  qed (use depth in simp_all)
  then show ?thesis by simp
qed (simp add: discard_unused_loads_def)

end
