(* ===== verification/Pass_Resolve.thy ===== *)
theory Pass_Resolve
  imports Pass_Stores
begin

text \<open>
  The multisample resolves of a submission. A target that is rendered with several samples keeps them in
  a location of its own, and the texture everything else reads is written by a resolve. The rule that
  puts a resolve on the last use of each target is compared with the recorded passes followed by the
  resolves that are still due.
\<close>

section \<open>What the rule assigns\<close>

definition assigned :: "bool \<Rightarrow> u64 \<Rightarrow> (u64 \<times> u32) set \<Rightarrow> color_attachment \<Rightarrow> color_attachment" where
  "assigned discard backbuffer resolved a = fst (resolve_attachment discard backbuffer resolved a)"

definition ms_keys :: "color_attachment list \<Rightarrow> (u64 \<times> u32) set" where
  "ms_keys as = ca_key ` {a \<in> set as. ca_msaa_texture a \<noteq> 0}"

text \<open>Only bound targets are multisampled, only multisampled ones resolve, and none is attached twice.\<close>

definition msaa_ok :: "pass \<Rightarrow> bool" where
  "msaa_ok p \<longleftrightarrow> list_all (\<lambda>a. (ca_msaa_texture a \<noteq> 0 \<longrightarrow> ca_is_bound a) \<and> (ca_resolve_texture a \<noteq> 0 \<longrightarrow> ca_msaa_texture a \<noteq> 0)) (colors p)
     \<and> distinct (map ca_key (filter (\<lambda>a. ca_msaa_texture a \<noteq> 0) (colors p)))"

lemma ms_keys_simps [simp]:
  "ms_keys [] = {}" "ms_keys (a # as) = (if ca_msaa_texture a \<noteq> 0 then insert (ca_key a) (ms_keys as) else ms_keys as)"
  by (auto simp: ms_keys_def)

lemma resolve_attachment_eq:
  "resolve_attachment d bb r a = (assigned d bb r a, r \<union> ms_keys [a])"
  by (auto simp: assigned_def resolve_attachment_def Let_def)

lemma assigned_cong: "(ca_key a \<in> r \<longleftrightarrow> ca_key a \<in> r') \<or> ca_msaa_texture a = 0 \<Longrightarrow> assigned d bb r a = assigned d bb r' a"
  by (auto simp: assigned_def resolve_attachment_def)

lemma resolve_attachments_eq:
  assumes "distinct (map ca_key (filter (\<lambda>a. ca_msaa_texture a \<noteq> 0) as))"
    and "\<forall>k\<in>ms_keys as. k \<in> r \<longleftrightarrow> k \<in> r0"
  shows "resolve_attachments d bb r as = (map (assigned d bb r0) as, r \<union> ms_keys as)"
  using assms
proof (induction as arbitrary: r)
  case (Cons a as)
  have fresh: "ca_msaa_texture a \<noteq> 0 \<Longrightarrow> ca_key a \<notin> ms_keys as" using Cons.prems(1) by (force simp: ms_keys_def)
  have "resolve_attachments d bb (r \<union> ms_keys [a]) as = (map (assigned d bb r0) as, r \<union> ms_keys [a] \<union> ms_keys as)"
    using Cons.prems fresh by (intro Cons.IH) (auto split: if_splits)
  moreover have "assigned d bb r a = assigned d bb r0 a" using Cons.prems(2) by (intro assigned_cong) auto
  ultimately show ?case by (auto simp: resolve_attachment_eq)
qed simp

definition set_colors :: "color_attachment list \<Rightarrow> pass \<Rightarrow> pass" where
  "set_colors as p = p\<lparr>pp_color := hd as, pp_extra_color := tl as\<rparr>"

lemma assign_resolves_Cons:
  assumes "msaa_ok p" and r: "assign_resolves d bb rest = (rest', r)"
  shows "assign_resolves d bb (p # rest) = (set_colors (map (assigned d bb r) (colors p)) p # rest', r \<union> ms_keys (colors p))"
proof -
  have d: "distinct (map ca_key (filter (\<lambda>a. ca_msaa_texture a \<noteq> 0) (colors p)))" using assms(1) by (simp add: msaa_ok_def)
  have "resolve_attachments d bb r (colors p) = (map (assigned d bb r) (colors p), r \<union> ms_keys (colors p))"
    by (rule resolve_attachments_eq [OF d]) simp
  then show ?thesis by (auto simp: r set_colors_def split: prod.splits)
qed

declare ms_keys_simps [simp del]

lemma assigned_fields [simp]:
  "ca_texture (assigned d bb r a) = ca_texture a" "ca_subresource (assigned d bb r a) = ca_subresource a"
  "ca_msaa_texture (assigned d bb r a) = ca_msaa_texture a" "ca_srgb_texture (assigned d bb r a) = ca_srgb_texture a"
  "ca_load (assigned d bb r a) = ca_load a" "ca_size (assigned d bb r a) = ca_size a"
  by (simp_all add: assigned_def resolve_attachment_def Let_def)

section \<open>Passes with the same tile\<close>

definition tile_of :: "('c::order_bot) gpu \<Rightarrow> (u64 \<rightharpoonup> u64) \<Rightarrow> pass \<Rightarrow> 'c memory \<Rightarrow> 'c tile" where
  "tile_of g views p m1 = run g views (frame_of p) Map.empty (pp_commands p) m1 (load_tile g (area_of p) (planes p) m1)"

lemma exec_pass_tile:
  "exec_pass g views p m = (let m1 = fold (g_blit g) (pp_leading_blits p) m in store_tile g (planes p) (tile_of g views p m1) m1)"
  by (simp add: exec_pass_def tile_of_def Let_def)

definition same_tile :: "plane \<Rightarrow> plane \<Rightarrow> bool" where
  "same_tile pl pl' \<longleftrightarrow> pl_slot pl' = pl_slot pl \<and> pl_loc pl' = pl_loc pl \<and> pl_load pl' = pl_load pl \<and> pl_whole pl' = pl_whole pl"

lemma tile_of_same:
  assumes R: "list_all2 same_tile (planes p) (planes p')" and a: "area_of p' = area_of p" and c: "pp_commands p' = pp_commands p"
  shows "tile_of g views p' m = tile_of g views p m"
proof -
  have f: "rel_option same_tile (find (\<lambda>pl. pl_slot pl = s) (planes p)) (find (\<lambda>pl. pl_slot pl = s) (planes p'))" for s
    by (rule find_rel [OF R]) (simp add: same_tile_def)
  have "map_option pl_loc (find (\<lambda>pl. pl_slot pl = s) (planes p')) = map_option pl_loc (find (\<lambda>pl. pl_slot pl = s) (planes p))" for s
    using f [of s] by cases (auto simp: same_tile_def)
  then have "frame_of p' = frame_of p" by (simp add: frame_of_def a)
  moreover have "load_tile g (area_of p) (planes p') m s = load_tile g (area_of p) (planes p) m s" for s
    using f [of s] by cases (auto simp: load_tile_def same_tile_def plane_init_def split: plane_load.split)
  then have "load_tile g (area_of p) (planes p') m = load_tile g (area_of p) (planes p) m" by blast
  ultimately show ?thesis by (simp add: tile_of_def a c)
qed

section \<open>What a pass leaves in memory\<close>

lemma find_unique:
  assumes "x \<in> set xs" "P x" "\<And>y. y \<in> set xs \<Longrightarrow> P y \<Longrightarrow> y = x"
  shows "find P xs = Some x"
proof -
  obtain y where y: "find P xs = Some y" using assms(1,2) by (metis find_None_iff not_None_eq)
  then have "y \<in> set xs" "P y" by (metis find_Some_iff nth_mem)+
  with y show ?thesis using assms(3) by metis
qed

lemma plane_locs_distinct:
  assumes ms: "targets_ok ms p"
  shows "distinct (map pl_loc (planes p))"
proof -
  have eq: "map pl_loc (map color_plane (bound_color_attachments p)) = map (color_loc ms) (map (\<lambda>(_, a). ca_key a) (bound_color_attachments p))"
    using color_plane_at [OF ms] by auto
  have "distinct (map pl_loc (map color_plane (bound_color_attachments p)))"
    unfolding eq using ms by (subst distinct_map) (auto simp: targets_ok_def inj_on_def)
  moreover have "DepthAt t l \<noteq> pl_loc (color_plane x)" "StencilAt t l \<noteq> pl_loc (color_plane x)" for x t l
    using color_plane_loc [of "fst x" "snd x"] by auto
  ultimately show ?thesis
    by (auto simp: planes_def depth_planes_def depth_plane_def stencil_plane_def simp del: map_map)
qed

lemma store_tile_at:
  assumes "targets_ok ms p" "pl \<in> set (planes p)"
  shows "store_tile g (planes p) t m (pl_loc pl) = (if pl_store pl = Store then t (pl_slot pl) else bot)"
proof -
  have "find (\<lambda>y. pl_loc y = pl_loc pl) (planes p) = Some pl"
  proof (rule find_unique [OF assms(2) refl])
    have "inj_on pl_loc (set (planes p))" using plane_locs_distinct [OF assms(1)] by (simp add: distinct_map)
    then show "y = pl" if "y \<in> set (planes p)" "pl_loc y = pl_loc pl" for y using inj_onD that assms(2) by metis
  qed
  then show ?thesis by (simp add: store_tile_def)
qed

lemma store_tile_untouched:
  assumes "l \<notin> written_locs (planes p)"
  shows "store_tile g (planes p) t m l = m l"
proof -
  have "find (\<lambda>pl. pl_loc pl = l) (planes p) = None" "find (\<lambda>pl. map_option fst (pl_resolve pl) = Some l) (planes p) = None"
    using assms by (auto simp: written_locs_def find_None_iff)
  then show ?thesis by (simp add: store_tile_def)
qed

lemma ms_not_plane:
  assumes ms: "targets_ok ms p" and "ms t" "pl \<in> set (planes p)"
  shows "pl_loc pl \<noteq> ColorAt t sub"
proof -
  consider a where "a \<in> set (colors p)" "ca_is_bound a" "pl_loc pl = pl_loc (color_plane (0, a))"
    | "pl_loc pl = DepthAt (pp_depth_texture p) (pp_depth_level p)" | "pl_loc pl = StencilAt (pp_depth_texture p) (pp_depth_level p)"
    using planes_loc [OF assms(3)] by blast
  then show ?thesis
  proof cases
    case 1
    then obtain i where "(i, a) \<in> set (bound_color_attachments p)" using bound_colorI by blast
    then show ?thesis using color_plane_at [OF ms] 1(3) assms(2) by (auto simp: color_loc_def)
  qed simp_all
qed

lemma planes_resolve:
  assumes "pl \<in> set (planes p)" "map_option fst (pl_resolve pl) = Some l"
  obtains j b where "(j, b) \<in> set (bound_color_attachments p)" "pl = color_plane (j, b)" "l = ColorAt (ca_texture b) (ca_subresource b)"
    "ca_resolve_texture b \<noteq> 0"
proof -
  have "pl \<notin> set (depth_planes p)"
  proof
    assume "pl \<in> set (depth_planes p)"
    then have "pl_resolve pl = None" by (auto simp: depth_planes_def depth_plane_def stencil_plane_def split: if_splits)
    then show False using assms(2) by simp
  qed
  then obtain j b where b: "(j, b) \<in> set (bound_color_attachments p)" "pl = color_plane (j, b)" using assms(1) by (auto simp: planes_def)
  then have "pl_resolve pl = (if ca_resolve_texture b \<noteq> 0 then Some (ColorAt (ca_texture b) (ca_subresource b), ca_srgb_texture b \<noteq> 0) else None)"
    by (simp add: color_plane_def)
  then show thesis using that [OF b] assms(2) by (cases "ca_resolve_texture b \<noteq> 0") simp_all
qed

text \<open>The resolve of a multisampled attachment lands in the texture, which is no attachment of the pass.\<close>

lemma store_tile_resolve:
  assumes ms: "targets_ok ms p" and a: "(i, a) \<in> set (bound_color_attachments p)" and "ms (ca_texture a)" "ca_resolve_texture a \<noteq> 0"
  shows "store_tile g (planes p) t m (ColorAt (ca_texture a) (ca_subresource a)) = g_resolve g (ca_srgb_texture a \<noteq> 0) (t (ColorSlot i))"
proof -
  let ?l = "ColorAt (ca_texture a) (ca_subresource a)"
  have "pl_loc pl \<noteq> ?l" if "pl \<in> set (planes p)" for pl by (rule ms_not_plane [OF ms assms(3) that])
  then have "find (\<lambda>pl. pl_loc pl = ?l) (planes p) = None" by (auto simp: find_None_iff)
  moreover have "find (\<lambda>pl. map_option fst (pl_resolve pl) = Some ?l) (planes p) = Some (color_plane (i, a))"
  proof (rule find_unique)
    show "color_plane (i, a) \<in> set (planes p)" using a by (force simp: planes_def)
    fix pl assume pl: "pl \<in> set (planes p)" "map_option fst (pl_resolve pl) = Some ?l"
    show "pl = color_plane (i, a)"
    proof (rule planes_resolve [OF pl])
      fix j b assume b: "(j, b) \<in> set (bound_color_attachments p)" "pl = color_plane (j, b)" "?l = ColorAt (ca_texture b) (ca_subresource b)"
      have "inj_on (\<lambda>(_, a). ca_key a) (set (bound_color_attachments p))" using ms by (simp add: targets_ok_def distinct_map)
      from inj_onD [OF this, of "(j, b)" "(i, a)"] show ?thesis using a b by simp
    qed
  qed (use assms(4) in \<open>simp add: color_plane_def\<close>)
  ultimately show ?thesis using assms(4) by (simp add: store_tile_def color_plane_def)
qed

section \<open>Resolves that are due\<close>

text \<open>
  \<open>P k\<close> says that the samples of target \<open>k\<close> were rendered since its last resolve, and whether through the
  sRGB view. The recorded passes leave these resolves to the end of the submission, and nothing reads or
  overwrites the texture of such a target before.
\<close>

type_synonym due_resolves = "u64 \<times> u32 \<rightharpoonup> bool"

definition note_pass :: "pass \<Rightarrow> due_resolves \<Rightarrow> due_resolves" where
  "note_pass p P k =
     (case find (\<lambda>a. ca_msaa_texture a \<noteq> 0 \<and> ca_key a = k) (colors p) of
        None \<Rightarrow> P k
      | Some a \<Rightarrow> if ca_resolve_texture a = 0 then Some (ca_srgb_texture a \<noteq> 0) else None)"

definition due_locs :: "due_resolves \<Rightarrow> loc set" where
  "due_locs P = {ColorAt t sub | t sub. P (t, sub) \<noteq> None}"

fun due_unread :: "(u64 \<rightharpoonup> u64) \<Rightarrow> due_resolves \<Rightarrow> pass list \<Rightarrow> bool" where
  "due_unread views P [] \<longleftrightarrow> True"
| "due_unread views P (p # ps) \<longleftrightarrow>
     reads_spare views (due_locs P) p
     \<and> (\<forall>b\<in>set (pp_leading_blits p). \<forall>l\<in>due_locs P. blit_writes views b \<noteq> Some (loc_texture l))
     \<and> due_unread views (note_pass p P) ps"

definition settle :: "'c gpu \<Rightarrow> due_resolves \<Rightarrow> 'c memory \<Rightarrow> 'c memory" where
  "settle g P m l =
     (case l of
        ColorAt t sub \<Rightarrow> (case P (t, sub) of Some srgb \<Rightarrow> g_resolve g srgb (m (SamplesAt t sub)) | None \<Rightarrow> m l)
      | _ \<Rightarrow> m l)"

text \<open>The samples of the presented back buffer, once no further pass attaches them.\<close>

definition dropped_samples :: "bool \<Rightarrow> u64 \<Rightarrow> (u64 \<times> u32) set \<Rightarrow> loc set" where
  "dropped_samples discard backbuffer r = {SamplesAt backbuffer sub | sub. discard \<and> (backbuffer, sub) \<notin> r}"

lemma due_locs_simps [simp]:
  "ColorAt t sub \<in> due_locs P \<longleftrightarrow> P (t, sub) \<noteq> None" "SamplesAt t sub \<notin> due_locs P" "DepthAt t sub \<notin> due_locs P" "StencilAt t sub \<notin> due_locs P"
  by (auto simp: due_locs_def)

lemma dropped_simps [simp]:
  "SamplesAt t sub \<in> dropped_samples d bb r \<longleftrightarrow> d \<and> t = bb \<and> (t, sub) \<notin> r"
  "ColorAt t sub \<notin> dropped_samples d bb r" "DepthAt t sub \<notin> dropped_samples d bb r" "StencilAt t sub \<notin> dropped_samples d bb r"
  by (auto simp: dropped_samples_def)

lemma msaa_bound: "msaa_ok p \<Longrightarrow> a \<in> set (colors p) \<Longrightarrow> ca_msaa_texture a \<noteq> 0 \<Longrightarrow> ca_is_bound a"
  by (auto simp: msaa_ok_def list_all_iff)

lemma resolve_msaa: "msaa_ok p \<Longrightarrow> a \<in> set (colors p) \<Longrightarrow> ca_resolve_texture a \<noteq> 0 \<Longrightarrow> ca_msaa_texture a \<noteq> 0"
  by (auto simp: msaa_ok_def list_all_iff)

lemma note_pass_attached:
  assumes "msaa_ok p" "a \<in> set (colors p)" "ca_msaa_texture a \<noteq> 0"
  shows "note_pass p P (ca_key a) = (if ca_resolve_texture a = 0 then Some (ca_srgb_texture a \<noteq> 0) else None)"
proof -
  have "inj_on ca_key {a \<in> set (colors p). ca_msaa_texture a \<noteq> 0}"
    using assms(1) unfolding msaa_ok_def distinct_map set_filter by blast
  then have "find (\<lambda>b. ca_msaa_texture b \<noteq> 0 \<and> ca_key b = ca_key a) (colors p) = Some a"
    using assms(2,3) by (intro find_unique) (auto dest: inj_onD)
  then show ?thesis by (simp add: note_pass_def)
qed

lemma note_pass_other: "k \<notin> ms_keys (colors p) \<Longrightarrow> note_pass p P k = P k"
  unfolding note_pass_def by (subst find_None_iff [THEN iffD2]) (auto simp: ms_keys_def)

section \<open>One pass with its resolves assigned\<close>

definition assign_pass :: "bool \<Rightarrow> u64 \<Rightarrow> (u64 \<times> u32) set \<Rightarrow> pass \<Rightarrow> pass" where
  "assign_pass d bb r p = set_colors (map (assigned d bb r) (colors p)) p"

lemma assign_pass_fields [simp]:
  "colors (assign_pass d bb r p) = map (assigned d bb r) (colors p)"
  "pp_depth_texture (assign_pass d bb r p) = pp_depth_texture p" "pp_depth_level (assign_pass d bb r p) = pp_depth_level p"
  "pp_depth_size (assign_pass d bb r p) = pp_depth_size p" "pp_has_stencil (assign_pass d bb r p) = pp_has_stencil p"
  "pp_commands (assign_pass d bb r p) = pp_commands p" "pp_leading_blits (assign_pass d bb r p) = pp_leading_blits p"
  by (simp_all add: assign_pass_def set_colors_def)

lemma assign_pass_rel:
  assumes "\<And>a. a \<in> set (colors p) \<Longrightarrow> Q a (assigned d bb r a)"
  shows "list_all2 Q (colors p) (colors (assign_pass d bb r p))"
  unfolding assign_pass_fields list.rel_map by (rule list.rel_refl_strong) (use assms in blast)

lemma assign_pass_area:
  "area_of (assign_pass d bb r p) = area_of p" "color_extent_covers_depth (assign_pass d bb r p) = color_extent_covers_depth p"
proof -
  let ?Q = "\<lambda>a b. ca_texture b = ca_texture a \<and> ca_size b = ca_size a"
  have Q: "list_all2 ?Q (colors p) (colors (assign_pass d bb r p))" by (rule assign_pass_rel) simp
  show "area_of (assign_pass d bb r p) = area_of p" by (rule area_same [OF Q]) simp_all
  show "color_extent_covers_depth (assign_pass d bb r p) = color_extent_covers_depth p" by (rule covers_same [OF Q]) simp_all
qed

lemma assign_pass_depth_planes:
  "depth_plane (assign_pass d bb r p) = depth_plane p" "stencil_plane (assign_pass d bb r p) = stencil_plane p"
  unfolding depth_plane_def stencil_plane_def assign_pass_area by (simp_all add: assign_pass_def set_colors_def)

lemma assign_pass_planes:
  assumes "\<And>i a. a \<in> set (colors p) \<Longrightarrow> ca_is_bound a \<Longrightarrow> R (color_plane (i, a)) (color_plane (i, assigned d bb r a))" "\<And>pl. pl_resolve pl = None \<Longrightarrow> R pl pl"
  shows "list_all2 R (planes p) (planes (assign_pass d bb r p))"
proof (rule planes_rel [where Q = "\<lambda>a b. b = assigned d bb r a \<and> a \<in> set (colors p)"])
  show "list_all2 (\<lambda>a b. b = assigned d bb r a \<and> a \<in> set (colors p)) (colors p) (colors (assign_pass d bb r p))" by (rule assign_pass_rel) simp
  show "R (depth_plane p) (depth_plane (assign_pass d bb r p))" "R (stencil_plane p) (stencil_plane (assign_pass d bb r p))"
    unfolding assign_pass_depth_planes by (rule assms(2); simp add: depth_plane_def stencil_plane_def)+
qed (use assms(1) in auto)

lemma assign_pass_tile: "tile_of g views (assign_pass d bb r p) m = tile_of g views p m"
  by (rule tile_of_same [OF assign_pass_planes]) (auto simp: same_tile_def color_plane_def assign_pass_area split: color_load.split)

lemma assigned_plane:
  "assigned d bb r a = a \<or> ca_msaa_texture a \<noteq> 0 \<and> ca_key a \<notin> r
     \<and> assigned d bb r a = a\<lparr>ca_resolve_texture := ca_resolve_view a, ca_store := if d \<and> ca_texture a = bb then DontStore else ca_store a\<rparr>"
  by (auto simp: assigned_def resolve_attachment_def Let_def)

lemma assigned_store:
  assumes ms: "targets_ok ms p" and ok: "msaa_ok p" and l: "l \<notin> due_locs (note_pass p P) \<union> dropped_samples d bb r"
  shows "store_tile g (planes (assign_pass d bb r p)) t m l = store_tile g (planes p) t m l"
proof -
  let ?R = "\<lambda>pl pl'. same_tile pl pl' \<and> (pl_loc pl = l \<longrightarrow> pl_store pl' = pl_store pl)
    \<and> (pl_resolve pl' = pl_resolve pl \<or> pl_resolve pl = None \<and> map_option fst (pl_resolve pl') \<noteq> Some l)"
  have R: "list_all2 ?R (planes p) (planes (assign_pass d bb r p))"
  proof (rule assign_pass_planes)
    fix i a assume a: "a \<in> set (colors p)" "ca_is_bound a"
    have view: "ca_resolve_view a \<noteq> 0" using a(2) by (simp add: ca_resolve_view_def ca_is_bound_def)
    have "ca_resolve_texture a = 0 \<Longrightarrow> ca_msaa_texture a \<noteq> 0 \<Longrightarrow> l \<noteq> ColorAt (ca_texture a) (ca_subresource a)"
      using note_pass_attached [OF ok a(1), of P] l by auto
    moreover have "ca_key a \<notin> r \<Longrightarrow> d \<Longrightarrow> ca_texture a = bb \<Longrightarrow> l \<noteq> SamplesAt (ca_texture a) (ca_subresource a)" using l by auto
    ultimately show "?R (color_plane (i, a)) (color_plane (i, assigned d bb r a))"
      using assigned_plane [of d bb r a] view by (auto simp: same_tile_def color_plane_def split: color_load.split)
  qed (simp add: same_tile_def)
  have "rel_option ?R (find (\<lambda>pl. pl_loc pl = l) (planes p)) (find (\<lambda>pl. pl_loc pl = l) (planes (assign_pass d bb r p)))"
    by (rule find_rel [OF R]) (simp add: same_tile_def)
  then show ?thesis
  proof cases
    case (Some pl pl')
    moreover have "pl_loc pl = l" using Some(1) by (simp add: find_Some_iff) blast
    ultimately show ?thesis by (simp add: store_tile_def same_tile_def)
  next
    case None
    have "rel_option ?R (find (\<lambda>pl. map_option fst (pl_resolve pl) = Some l) (planes p))
        (find (\<lambda>pl. map_option fst (pl_resolve pl) = Some l) (planes (assign_pass d bb r p)))"
      by (rule find_rel [OF R]) (elim conjE disjE; simp)
    then show ?thesis
    proof cases
      case S: (Some pl pl')
      then have "pl_resolve pl \<noteq> None" by (auto simp: find_Some_iff)
      then have "pl_resolve pl' = pl_resolve pl" "pl_slot pl' = pl_slot pl" using S(3) by (auto simp: same_tile_def)
      then show ?thesis using None S(1,2) by (simp add: store_tile_def)
    qed (simp add: store_tile_def None)
  qed
qed

lemma tile_outside:
  assumes g: "gpu_ok g views" and spare: "reads_spare views D p" and m: "outside D m m'"
    and live: "\<And>pl. pl \<in> set (planes p) \<Longrightarrow> pl_loc pl \<notin> D"
  shows "tile_of g views p m s \<le> tile_of g views p m' s"
proof -
  have R: "list_all2 (\<lambda>pl pl'. pl' = pl \<and> pl \<in> set (planes p)) (planes p) (planes p)" by (simp add: list.rel_refl_strong)
  have t: "\<forall>s\<in>UNIV. load_tile g (area_of p) (planes p) m s \<le> load_tile g (area_of p) (planes p) m' s"
    by (intro ballI load_tile_le [OF R]) (auto simp: same_plane_def intro!: plane_init_keep [OF g m] dest: live)
  show ?thesis unfolding tile_of_def
    by (rule run_outside [OF g dep_closed_UNIV _ _ _ _ m t]) (use spare in \<open>auto simp: reads_spare_def\<close>)
qed

lemma blits_keep:
  assumes "gpu_ok g views"
  shows "fold (g_blit g) bs m (SamplesAt t sub) = m (SamplesAt t sub)"
    "\<forall>b\<in>set bs. blit_writes views b \<noteq> Some (loc_texture l) \<Longrightarrow> fold (g_blit g) bs m l = m l"
  by (induction bs arbitrary: m) (auto simp: gpu_blit_elsewhere [OF assms])

lemma samples_unwritten:
  assumes ms: "targets_ok ms p" and k: "(t, sub) \<notin> ms_keys (colors p)"
  shows "SamplesAt t sub \<notin> written_locs (planes p)"
proof
  assume "SamplesAt t sub \<in> written_locs (planes p)"
  then consider pl where "pl \<in> set (planes p)" "pl_loc pl = SamplesAt t sub"
    | pl where "pl \<in> set (planes p)" "map_option fst (pl_resolve pl) = Some (SamplesAt t sub)" by (auto simp: written_locs_def)
  then show False
  proof cases
    case 1
    obtain a where a: "a \<in> set (colors p)" "pl_loc (color_plane (0, a)) = SamplesAt t sub"
      using planes_loc [OF 1(1)] unfolding 1(2) by (metis empty_iff insert_iff loc.distinct(7) loc.distinct(9))
    then have "ca_msaa_texture a \<noteq> 0" "ca_key a = (t, sub)" by (auto simp: color_plane_def split: if_splits)
    then show False using a(1) k by (force simp: ms_keys_def)
  next
    case 2
    then show False by (rule planes_resolve) simp
  qed
qed

lemma due_color_unwritten:
  assumes ms: "targets_ok ms p" and ok: "msaa_ok p" and t: "ms t" and k: "(t, sub) \<notin> ms_keys (colors p)"
  shows "ColorAt t sub \<notin> written_locs (planes p)"
proof
  assume "ColorAt t sub \<in> written_locs (planes p)"
  then obtain pl where pl: "pl \<in> set (planes p)" "map_option fst (pl_resolve pl) = Some (ColorAt t sub)"
    unfolding written_locs_def using ms_not_plane [OF ms t, of _ sub] by force
  then show False
  proof (rule planes_resolve)
    fix j b assume b: "(j, b) \<in> set (bound_color_attachments p)" "ColorAt t sub = ColorAt (ca_texture b) (ca_subresource b)" "ca_resolve_texture b \<noteq> 0"
    then have "b \<in> set (colors p)" "ca_msaa_texture b \<noteq> 0" using bound_color_in(2) resolve_msaa [OF ok] by auto
    then show False using b(2) k by (force simp: ms_keys_def)
  qed
qed

lemma bound_map_same:
  assumes "\<And>a. ca_is_bound (f a) = ca_is_bound a"
  shows "filter (\<lambda>(_, a). ca_is_bound a) (enumerate n (map f as)) = map (apsnd f) (filter (\<lambda>(_, a). ca_is_bound a) (enumerate n as))"
  by (induction as arbitrary: n) (simp_all add: assms)

lemma assigned_keys: "map ca_key (filter (\<lambda>a. ca_msaa_texture a \<noteq> 0) (map (assigned d bb r) as)) = map ca_key (filter (\<lambda>a. ca_msaa_texture a \<noteq> 0) as)"
  by (induction as) simp_all

lemma assign_pass_bound: "bound_color_attachments (assign_pass d bb r p) = map (apsnd (assigned d bb r)) (bound_color_attachments p)"
  unfolding bound_color_attachments_def assign_pass_fields by (rule bound_map_same) (simp add: ca_is_bound_def)

lemma assign_pass_targets:
  assumes ms: "targets_ok ms p" and ok: "msaa_ok p"
  shows "targets_ok ms (assign_pass d bb r p)" "msaa_ok (assign_pass d bb r p)" "ms_keys (colors (assign_pass d bb r p)) = ms_keys (colors p)"
proof -
  show "targets_ok ms (assign_pass d bb r p)"
    using ms unfolding targets_ok_def assign_pass_bound by (simp add: comp_def case_prod_unfold list_all_iff)
  have "(ca_msaa_texture a \<noteq> 0 \<longrightarrow> ca_is_bound a) \<and> (ca_resolve_texture a \<noteq> 0 \<longrightarrow> ca_msaa_texture a \<noteq> 0)"
    if "a \<in> assigned d bb r ` set (colors p)" for a
    using that ok assigned_plane [of d bb r] unfolding msaa_ok_def list_all_iff ca_is_bound_def by fastforce
  then show "msaa_ok (assign_pass d bb r p)" using ok unfolding msaa_ok_def assign_pass_fields assigned_keys list_all_iff set_map by blast
  have keys: "ms_keys as = set (map ca_key (filter (\<lambda>a. ca_msaa_texture a \<noteq> 0) as))" for as by (auto simp: ms_keys_def)
  show "ms_keys (colors (assign_pass d bb r p)) = ms_keys (colors p)" unfolding assign_pass_fields keys assigned_keys ..
qed

text \<open>The memories before a suffix whose passes attach the multisampled targets \<open>r\<close>.\<close>

definition due_rel :: "('c::order_bot) gpu \<Rightarrow> due_resolves \<Rightarrow> bool \<Rightarrow> u64 \<Rightarrow> (u64 \<times> u32) set \<Rightarrow> 'c memory \<Rightarrow> 'c memory \<Rightarrow> bool" where
  "due_rel g P d bb r m m' \<longleftrightarrow> outside (due_locs P \<union> dropped_samples d bb r) m m'
     \<and> (\<forall>t sub srgb. P (t, sub) = Some srgb \<longrightarrow> (t, sub) \<notin> r \<longrightarrow> g_resolve g srgb (m (SamplesAt t sub)) \<le> m' (ColorAt t sub))"

definition due_known :: "(u64 \<Rightarrow> bool) \<Rightarrow> due_resolves \<Rightarrow> bool" where
  "due_known ms P \<longleftrightarrow> (\<forall>t sub. P (t, sub) \<noteq> None \<longrightarrow> ms t)"

lemma ms_key_attached:
  assumes ms: "targets_ok ms p" and ok: "msaa_ok p" and k: "(t, sub) \<in> ms_keys (colors p)"
  obtains i a where "(i, a) \<in> set (bound_color_attachments p)" "a \<in> set (colors p)" "ca_key a = (t, sub)" "ca_msaa_texture a \<noteq> 0" "ms t"
proof -
  obtain a where a: "a \<in> set (colors p)" "ca_msaa_texture a \<noteq> 0" "ca_key a = (t, sub)" using k by (auto simp: ms_keys_def)
  obtain i where i: "(i, a) \<in> set (bound_color_attachments p)" using bound_colorI [OF a(1)] msaa_bound [OF ok a(1,2)] by blast
  have "ms t" using ms i a(2,3) by (auto simp: targets_ok_def list_all_iff)
  with that [OF i a(1,3,2)] show thesis .
qed

lemma note_pass_known:
  assumes "targets_ok ms p" "msaa_ok p" "due_known ms P"
  shows "due_known ms (note_pass p P)"
  unfolding due_known_def
proof (intro allI impI)
  fix t sub assume "note_pass p P (t, sub) \<noteq> None"
  then show "ms t"
  proof (cases "(t, sub) \<in> ms_keys (colors p)")
    case True
    then show ?thesis by (rule ms_key_attached [OF assms(1,2)])
  next
    case False
    then show ?thesis using assms(3) \<open>note_pass p P (t, sub) \<noteq> None\<close> note_pass_other [OF False] by (auto simp: due_known_def)
  qed
qed

lemma due_live:
  assumes ms: "targets_ok ms p" and P: "due_known ms P" and r: "ms_keys (colors p) \<subseteq> r" and pl: "pl \<in> set (planes p)"
  shows "pl_loc pl \<notin> due_locs P \<union> dropped_samples d bb r"
proof (cases "pl_loc pl")
  case (ColorAt t sub)
  then have "\<not> ms t" using ms_not_plane [OF ms _ pl] by blast
  then have "P (t, sub) = None" using P unfolding due_known_def by blast
  then show ?thesis using ColorAt by simp
next
  case (SamplesAt t sub)
  then have "SamplesAt t sub \<in> written_locs (planes p)" using pl by (force simp: written_locs_def)
  then have "(t, sub) \<in> ms_keys (colors p)" using samples_unwritten [OF ms] by blast
  then show ?thesis using r SamplesAt by auto
qed auto

lemma reads_spare_Un: "reads_spare views (D \<union> D') p \<longleftrightarrow> reads_spare views D p \<and> reads_spare views D' p"
  unfolding reads_spare_def blit_spares_def bind_spares_def ball_Un by blast

lemma reads_spareI: "(\<And>l. l \<in> D \<Longrightarrow> read_through l = None) \<Longrightarrow> reads_spare views D p"
  by (simp add: reads_spare_def blit_spares_def bind_spares_def)

lemma dropped_spare: "reads_spare views (dropped_samples d bb r) p"
  by (rule reads_spareI) (auto simp: dropped_samples_def)

lemma assign_outside:
  assumes g: "gpu_ok g views" and ms: "targets_ok ms p" and ok: "msaa_ok p" and P: "due_known ms P"
    and spare: "reads_spare views (due_locs P) p" and m: "outside (due_locs P \<union> dropped_samples d bb (r \<union> ms_keys (colors p))) m m'"
  shows "outside (due_locs (note_pass p P) \<union> dropped_samples d bb r) (exec_pass g views p m) (exec_pass g views (assign_pass d bb r p) m')"
proof -
  let ?D = "due_locs P \<union> dropped_samples d bb (r \<union> ms_keys (colors p))" and ?D' = "due_locs (note_pass p P) \<union> dropped_samples d bb r"
  have "outside ?D' (exec_pass g views p m) (exec_pass g views p m')"
  proof (rule exec_pass_outside [OF g _ m])
    show "reads_spare views ?D p" unfolding reads_spare_Un using spare dropped_spare by blast
    show "pl_load pl = NoLoad \<or> (\<exists>v. pl_load pl = ClearLoad v) \<and> pl_whole pl" if "pl \<in> set (planes p)" "pl_loc pl \<in> ?D" for pl
      using that due_live [OF ms P _ that(1), of "r \<union> ms_keys (colors p)" d bb] by blast
    show "?D - ?D' \<subseteq> written_locs (planes p)"
    proof
      fix l assume l: "l \<in> ?D - ?D'"
      then obtain t sub where k: "l = ColorAt t sub" "P (t, sub) \<noteq> None" "note_pass p P (t, sub) = None"
        by (cases l) (auto simp: dropped_samples_def due_locs_def)
      then have "(t, sub) \<in> ms_keys (colors p)" using note_pass_other by metis
      then show "l \<in> written_locs (planes p)"
      proof (rule ms_key_attached [OF ms ok])
        fix i a assume a: "(i, a) \<in> set (bound_color_attachments p)" "a \<in> set (colors p)" "ca_key a = (t, sub)" "ca_msaa_texture a \<noteq> 0"
        then have "ca_resolve_texture a \<noteq> 0" using note_pass_attached [OF ok a(2,4), of P] k(3) by (auto split: if_splits)
        then have "map_option fst (pl_resolve (color_plane (i, a))) = Some l" using a(3) k(1) by (simp add: color_plane_def)
        then show ?thesis using a(1) unfolding written_locs_def planes_def by force
      qed
    qed
  qed
  moreover have "exec_pass g views (assign_pass d bb r p) m' l = exec_pass g views p m' l" if "l \<notin> ?D'" for l
    using assigned_store [OF ms ok that] by (simp add: exec_pass_tile Let_def assign_pass_tile)
  ultimately show ?thesis by (simp add: outside_def)
qed

lemma assign_step:
  assumes g: "gpu_ok g views" and ms: "targets_ok ms p" and ok: "msaa_ok p" and P: "due_known ms P"
    and spare: "reads_spare views (due_locs P) p"
    and writes: "\<forall>b\<in>set (pp_leading_blits p). \<forall>l\<in>due_locs P. blit_writes views b \<noteq> Some (loc_texture l)"
    and m: "due_rel g P d bb (r \<union> ms_keys (colors p)) m m'"
  shows "due_rel g (note_pass p P) d bb r (exec_pass g views p m) (exec_pass g views (assign_pass d bb r p) m')"
proof -
  let ?p = "assign_pass d bb r p" and ?D = "due_locs P \<union> dropped_samples d bb (r \<union> ms_keys (colors p))"
  let ?m1 = "fold (g_blit g) (pp_leading_blits p) m" and ?m1' = "fold (g_blit g) (pp_leading_blits p) m'"
  have out: "outside ?D m m'" using m by (simp add: due_rel_def)
  have spareD: "reads_spare views ?D p" unfolding reads_spare_Un using spare dropped_spare by blast
  have "outside ?D ?m1 ?m1'" by (rule blits_outside [OF g _ out]) (use spareD in \<open>simp add: reads_spare_def\<close>)
  then have tile: "tile_of g views p ?m1 s \<le> tile_of g views p ?m1' s" for s
    by (rule tile_outside [OF g spareD]) (rule due_live [OF ms P], auto)
  have "g_resolve g srgb (exec_pass g views p m (SamplesAt t sub)) \<le> exec_pass g views ?p m' (ColorAt t sub)"
    if due: "note_pass p P (t, sub) = Some srgb" and last: "(t, sub) \<notin> r" for t sub srgb
  proof (cases "(t, sub) \<in> ms_keys (colors p)")
    case True
    then show ?thesis
    proof (rule ms_key_attached [OF ms ok])
      fix i a assume a: "(i, a) \<in> set (bound_color_attachments p)" "a \<in> set (colors p)" "ca_key a = (t, sub)" "ca_msaa_texture a \<noteq> 0" "ms t"
      then have srgb: "srgb = (ca_srgb_texture a \<noteq> 0)" using note_pass_attached [OF ok a(2,4), of P] due by (auto split: if_splits)
      have pl: "pl_loc (color_plane (i, a)) = SamplesAt t sub" "pl_slot (color_plane (i, a)) = ColorSlot i"
        using a(3,4) by (simp_all add: color_plane_def)
      have pl_in: "color_plane (i, a) \<in> set (planes p)" using a(1) unfolding planes_def by force
      have samples: "exec_pass g views p m (SamplesAt t sub) \<le> tile_of g views p ?m1 (ColorSlot i)"
        unfolding exec_pass_tile Let_def pl(1) [symmetric] store_tile_at [OF ms pl_in] by (simp add: pl(2))
      have "(i, assigned d bb r a) \<in> set (bound_color_attachments ?p)" unfolding assign_pass_bound using a(1) by force
      moreover have "ca_resolve_texture (assigned d bb r a) \<noteq> 0"
        using last a(3,4) bound_color_in(1) [OF a(1)] by (auto simp: assigned_def resolve_attachment_def Let_def ca_resolve_view_def ca_is_bound_def)
      ultimately have "exec_pass g views ?p m' (ColorAt t sub) = g_resolve g srgb (tile_of g views p ?m1' (ColorSlot i))"
        using store_tile_resolve [OF assign_pass_targets(1) [OF ms ok], of i "assigned d bb r a" d bb r] a(3,5)
        by (simp add: exec_pass_tile Let_def assign_pass_tile srgb)
      then show ?thesis using gpu_resolve_mono [OF g order_trans [OF samples tile]] by simp
    qed
  next
    case False
    have old: "P (t, sub) = Some srgb" using due note_pass_other [OF False] by simp
    then have t: "ms t" using P unfolding due_known_def by blast
    have "exec_pass g views p m (SamplesAt t sub) = m (SamplesAt t sub)"
      by (simp add: exec_pass_tile Let_def store_tile_untouched [OF samples_unwritten [OF ms False]] blits_keep(1) [OF g])
    moreover have "ColorAt t sub \<notin> written_locs (planes ?p)"
      by (rule due_color_unwritten [OF assign_pass_targets(1,2) [OF ms ok] t]) (unfold assign_pass_targets(3) [OF ms ok], rule False)
    note kept = store_tile_untouched [OF this]
    have "ColorAt t sub \<in> due_locs P" using old by simp
    then have "?m1' (ColorAt t sub) = m' (ColorAt t sub)" using writes by (intro blits_keep(2) [OF g]) blast
    then have "exec_pass g views ?p m' (ColorAt t sub) = m' (ColorAt t sub)" by (simp add: exec_pass_tile Let_def kept)
    ultimately show ?thesis using m old last False by (simp add: due_rel_def)
  qed
  then show ?thesis unfolding due_rel_def using assign_outside [OF g ms ok P spare out] by blast
qed

text \<open>The resolves due after a list of passes.\<close>

definition due_after :: "pass list \<Rightarrow> due_resolves \<Rightarrow> due_resolves" where
  "due_after ps P = fold note_pass ps P"

lemma assign_sim:
  assumes g: "gpu_ok g views" and "\<forall>p\<in>set ps. targets_ok ms p \<and> msaa_ok p" "due_known ms P" "due_unread views P ps"
    and "assign_resolves d bb ps = (ps', r)" "due_rel g P d bb r m m'"
  shows "outside (dropped_samples d bb {}) (settle g (due_after ps P) (exec_passes g views ps m)) (exec_passes g views ps' m')"
  using assms(2-)
proof (induction ps arbitrary: ps' P r m m')
  case Nil
  show ?case
  proof
    fix l assume l: "l \<notin> dropped_samples d bb {}"
    show "settle g (due_after [] P) (exec_passes g views [] m) l \<le> exec_passes g views ps' m' l"
    proof (cases l)
      case (ColorAt t sub)
      then show ?thesis using Nil l outsideD [of _ m m' l]
        by (cases "P (t, sub)") (auto simp: due_after_def settle_def due_rel_def)
    qed (use Nil l outsideD [of _ m m' l] in \<open>auto simp: due_after_def settle_def due_rel_def\<close>)
  qed
next
  case (Cons p ps)
  obtain rest' r0 where rest: "assign_resolves d bb ps = (rest', r0)" by fastforce
  have p: "targets_ok ms p" "msaa_ok p" using Cons.prems(1) by simp_all
  have eq: "ps' = assign_pass d bb r0 p # rest'" "r = r0 \<union> ms_keys (colors p)"
    using Cons.prems(4) unfolding assign_resolves_Cons [OF p(2) rest] assign_pass_def by auto
  have "due_rel g (note_pass p P) d bb r0 (exec_pass g views p m) (exec_pass g views (assign_pass d bb r0 p) m')"
    by (rule assign_step [OF g p Cons.prems(2)]) (use Cons.prems(3,5) eq(2) in auto)
  then show ?case using Cons.IH [OF _ note_pass_known [OF p Cons.prems(2)] _ rest] Cons.prems(1,3) by (simp add: eq(1) due_after_def)
qed

end
