(* ===== verification/Pass_Finalize.thy ===== *)
theory Pass_Finalize
  imports Pass_Resolve
begin

text \<open>
  The load and store rules step by step: the facts about a pass they rely on do not depend on loads
  and stores, so they hold again after every step; what the end of a frame gives up; and the passes
  Rule F drops.
\<close>

section \<open>Facts that do not depend on loads and stores\<close>

lemma same_work_refl: "same_work p p"
  by (simp add: same_work_def list.rel_refl)

lemma same_work_frame:
  assumes "same_work p p'"
  shows "frame_of p' = frame_of p"
  by (rule frame_of_same [OF same_work_planes [OF assms, where R = "\<lambda>_ _. True"] _ same_work_area(1) [OF assms]]) simp_all

lemma same_work_bound:
  assumes "same_work p p'"
  shows "list_all2 (\<lambda>(i, a) (j, b). i = j \<and> same_attachment a b \<and> ca_is_bound a) (bound_color_attachments p) (bound_color_attachments p')"
  by (rule bound_colors_rel) (use assms in \<open>auto simp: same_work_def same_attachmentD\<close>)

lemma same_work_targets:
  assumes "same_work p p'"
  shows "targets_ok ms p' = targets_ok ms p" "msaa_ok p' = msaa_ok p" "note_pass p' = note_pass p"
proof -
  have "map (\<lambda>(_, a). ca_key a) (bound_color_attachments p') = map (\<lambda>(_, a). ca_key a) (bound_color_attachments p)"
    "list_all (\<lambda>(_, a). (ca_msaa_texture a \<noteq> 0) = ms (ca_texture a)) (bound_color_attachments p')
      = list_all (\<lambda>(_, a). (ca_msaa_texture a \<noteq> 0) = ms (ca_texture a)) (bound_color_attachments p)"
    using same_work_bound [OF assms] by (induction rule: list_all2_induct) (auto dest: same_attachmentD)
  then show "targets_ok ms p' = targets_ok ms p" by (simp only: targets_ok_def)
  have c: "list_all2 same_attachment (colors p) (colors p')" using assms by (simp add: same_work_def)
  then have "list_all (\<lambda>a. (ca_msaa_texture a \<noteq> 0 \<longrightarrow> ca_is_bound a) \<and> (ca_resolve_texture a \<noteq> 0 \<longrightarrow> ca_msaa_texture a \<noteq> 0)) (colors p')
      = list_all (\<lambda>a. (ca_msaa_texture a \<noteq> 0 \<longrightarrow> ca_is_bound a) \<and> (ca_resolve_texture a \<noteq> 0 \<longrightarrow> ca_msaa_texture a \<noteq> 0)) (colors p)"
    "map ca_key (filter (\<lambda>a. ca_msaa_texture a \<noteq> 0) (colors p')) = map ca_key (filter (\<lambda>a. ca_msaa_texture a \<noteq> 0) (colors p))"
    by (induction rule: list_all2_induct) (auto simp: ca_is_bound_def dest: same_attachmentD)
  then show "msaa_ok p' = msaa_ok p" by (simp only: msaa_ok_def)
  have f: "rel_option same_attachment (find (\<lambda>a. ca_msaa_texture a \<noteq> 0 \<and> ca_key a = k) (colors p)) (find (\<lambda>a. ca_msaa_texture a \<noteq> 0 \<and> ca_key a = k) (colors p'))" for k
    by (rule find_rel [OF c]) (auto dest: same_attachmentD)
  have "note_pass p' P k = note_pass p P k" for P k
    using f [of k] unfolding note_pass_def by cases (simp_all only: option.case same_attachmentD)
  then show "note_pass p' = note_pass p" by blast
qed

text \<open>What the recorder guarantees of a pass.\<close>

definition pass_recorded :: "('c::order_bot) gpu \<Rightarrow> (u64 \<rightharpoonup> u64) \<Rightarrow> (u64 \<Rightarrow> bool) \<Rightarrow> (u64 \<Rightarrow> bool) \<Rightarrow> u64 set \<Rightarrow> u64 set \<Rightarrow> pass \<Rightarrow> bool" where
  "pass_recorded g views ms hs seen written p \<longleftrightarrow>
     reads_seen views seen p \<and> unused_ok g views p \<and> targets_ok ms p \<and> msaa_ok p \<and> stencil_ok hs p \<and> stencil_writes_noted g views written p"

lemma same_work_recorded:
  assumes "same_work p p'"
  shows "pass_recorded g views ms hs seen written p' = pass_recorded g views ms hs seen written p"
  unfolding pass_recorded_def same_work_targets [OF assms] reads_seen_def unused_ok_def depth_unused_def stencil_ok_def stencil_writes_noted_def
    same_work_frame [OF assms] same_work_fields [OF assms] ..

definition same_works :: "pass list \<Rightarrow> pass list \<Rightarrow> bool" where
  "same_works = list_all2 same_work"

lemma same_works_recorded:
  assumes "same_works ps ps'" "\<forall>p\<in>set ps. pass_recorded g views ms hs seen written p"
  shows "\<forall>p\<in>set ps'. pass_recorded g views ms hs seen written p"
  using assms unfolding same_works_def by (induction rule: list_all2_induct) (auto simp: same_work_recorded)

lemma same_works_due:
  assumes "same_works ps ps'"
  shows "due_unread views P ps' = due_unread views P ps" "due_after ps' P = due_after ps P"
  using assms unfolding same_works_def
  by (induction arbitrary: P rule: list_all2_induct) (simp_all add: same_work_targets same_work_fields reads_spare_def due_after_def)

lemma same_works_map: "(\<And>p. same_work p (f p)) \<Longrightarrow> same_works ps (map f ps)"
  unfolding same_works_def by (induction ps) simp_all

lemma discard_last_works: "discard_last_stores st ps = (ps', tail) \<Longrightarrow> same_works ps ps'"
  unfolding same_works_def
proof (induction ps arbitrary: ps' tail)
  case (Cons p rest)
  obtain rest' tail0 where r: "discard_last_stores st rest = (rest', tail0)" by fastforce
  have "ps' = p # rest' \<or> ps' = discard_depth_stores p # rest'" using Cons.prems by (auto simp: r Let_def split: if_splits)
  then show ?case using Cons.IH [OF r] same_work_refl discard_depth_stores_work by auto
qed simp

lemma discard_color_works: "discard_color_stores seen ps = (ps', next) \<Longrightarrow> same_works ps ps'"
  unfolding same_works_def
proof (induction ps arbitrary: ps' "next")
  case (Cons p rest)
  obtain rest' next0 where r: "discard_color_stores seen rest = (rest', next0)" by fastforce
  obtain slots where "ps' = set_color_stores slots p # rest'" using Cons.prems by (auto simp: r split: prod.splits)
  then show ?case using Cons.IH [OF r] set_color_stores_work by auto
qed simp

lemma discard_before_clears_works: "discard_stores_before_clears st ps = (ps', next) \<Longrightarrow> same_works ps ps'"
  unfolding same_works_def
proof (induction ps arbitrary: ps' "next")
  case (Cons p rest)
  obtain rest' next0 where r: "discard_stores_before_clears st rest = (rest', next0)" by fastforce
  obtain p' where "ps' = p' # rest'" "p' = p\<lparr>pp_depth_store := pp_depth_store p', pp_stencil_store := pp_stencil_store p'\<rparr>"
    using Cons.prems by (auto simp: r Let_def split: if_splits option.splits)
  moreover have "same_work p (p\<lparr>pp_depth_store := a, pp_stencil_store := b\<rparr>)" for a b by (simp add: same_work_def list.rel_refl)
  ultimately show ?case using Cons.IH [OF r] by (metis list_all2_Cons)
qed simp

lemma same_works_trans: "same_works ps qs \<Longrightarrow> same_works qs rs \<Longrightarrow> same_works ps rs"
  unfolding same_works_def
proof (erule list_all2_trans [rotated])
  fix p q r assume a: "same_work p q" "same_work q r"
  have "list_all2 same_attachment (colors p) (colors r)"
  proof (rule list_all2_trans)
    show "list_all2 same_attachment (colors p) (colors q)" "list_all2 same_attachment (colors q) (colors r)" using a by (simp_all add: same_work_def)
    show "same_attachment x z" if "same_attachment x y" "same_attachment y z" for x y z
      using that by (cases x; cases y; cases z; simp add: same_attachment_def)
  qed
  then show "same_work p r" using a unfolding same_work_def by (cases p; cases q; cases r; simp)
qed

section \<open>The composition\<close>

definition frame_recorded :: "('c::order_bot) gpu \<Rightarrow> (u64 \<Rightarrow> bool) \<Rightarrow> (u64 \<Rightarrow> bool) \<Rightarrow> pass_state \<Rightarrow> bool" where
  "frame_recorded g ms hs st \<longleftrightarrow>
     list_all (pass_recorded g (ps_texture_view_to_base st) ms hs (ps_seen_sampled_textures st) (ps_stencil_written_textures st)) (ps_passes st)
     \<and> due_unread (ps_texture_view_to_base st) Map.empty (ps_passes st)"

lemma stencil_noted_mono:
  "stencil_writes_noted g views W p \<Longrightarrow> W \<subseteq> W' \<Longrightarrow> stencil_writes_noted g views W' p"
  unfolding stencil_writes_noted_def list_all_iff by (fastforce split: option.splits)

lemma settle_outside:
  assumes g: "gpu_ok g views" and "outside D m m'" "\<And>t sub. SamplesAt t sub \<notin> D"
  shows "outside D (settle g P m) (settle g P m')"
proof
  fix l assume "l \<notin> D"
  then have "m l \<le> m' l" "m (SamplesAt t sub) \<le> m' (SamplesAt t sub)" for t sub using assms(2,3) by (auto simp: outside_def)
  then show "settle g P m l \<le> settle g P m' l" using gpu_resolve_mono [OF g] by (auto simp: settle_def split: loc.split option.split)
qed

text \<open>The steps before the resolves: from Rule C to the unused loads, and Rules A and B in front.\<close>

lemma discards_refine:
  assumes g: "gpu_ok g views" and rec: "\<forall>p\<in>set ps. pass_recorded g views ms hs (ps_seen_sampled_textures st) W p"
    and m: "unwritten_stencil W m"
    and c: "discard_color_stores (ps_seen_sampled_textures st) ps = (ps1, n1)"
    and d: "discard_stores_before_clears st1 ps1 = (ps2, n2)" "ps_seen_sampled_textures st1 = ps_seen_sampled_textures st"
    and ps3: "ps3 = map (discard_stencil (note_stencil_writes ps2 W)) ps2"
  shows "exec_passes g views ps m \<le> exec_passes g views (map discard_unused_loads ps3) m" "same_works ps (map discard_unused_loads ps3)"
proof -
  let ?seen = "ps_seen_sampled_textures st" and ?W = "note_stencil_writes ps2 W"
  have rec1: "\<forall>p\<in>set ps1. pass_recorded g views ms hs ?seen W p" by (rule same_works_recorded [OF discard_color_works [OF c] rec])
  have w2: "same_works ps ps2" by (rule same_works_trans [OF discard_color_works [OF c] discard_before_clears_works [OF d(1)]])
  have rec2: "\<forall>p\<in>set ps2. pass_recorded g views ms hs ?seen W p" by (rule same_works_recorded [OF w2 rec])
  have w3: "same_works ps ps3" unfolding ps3 by (rule same_works_trans [OF w2 same_works_map [OF discard_stencil_work]])
  have rec3: "\<forall>p\<in>set ps3. pass_recorded g views ms hs ?seen W p" by (rule same_works_recorded [OF w3 rec])
  have "exec_passes g views ps m \<le> exec_passes g views ps1 m"
    by (rule discard_color_sim [OF g _ c, where ms = ms]) (use rec in \<open>auto simp: pass_recorded_def outside_def\<close>)
  also have "\<dots> \<le> exec_passes g views ps2 m"
    by (rule discard_before_clears_sim [OF g _ d(1), where hs = hs]) (use rec1 d(2) in \<open>auto simp: pass_recorded_def outside_def\<close>)
  also have "\<dots> \<le> exec_passes g views ps3 m" unfolding ps3
  proof (rule discard_stencil_sim [OF g])
    have "W \<subseteq> ?W" by (auto simp: note_stencil_writes_def)
    then show "\<forall>p\<in>set ps2. stencil_writes_noted g views ?W p \<and> stencil_unwritten_by ?W p" "unwritten_stencil ?W m"
      using rec2 note_stencil_writes_unwritten [of ps2 W] m by (auto simp: pass_recorded_def unwritten_stencil_def intro: stencil_noted_mono)
  qed simp
  also have "\<dots> \<le> exec_passes g views (map discard_unused_loads ps3) m"
    by (rule exec_map_le [OF g discard_unused_loads_le [OF g]]) (use rec3 in \<open>auto simp: pass_recorded_def\<close>)
  finally show "exec_passes g views ps m \<le> exec_passes g views (map discard_unused_loads ps3) m" .
  show "same_works ps (map discard_unused_loads ps3)" by (rule same_works_trans [OF w3 same_works_map [OF discard_unused_loads_work]])
qed

definition end_discarded :: "bool \<Rightarrow> pass_state \<Rightarrow> pass list" where
  "end_discarded frame_continues st = (if frame_continues then ps_passes st else fst (discard_last_stores st (ps_passes st)))"

text \<open>
  What the end of the frame gives up: a depth surface that is not sampleable and that nothing samples, and
  the samples of a back buffer whose contents are undefined after the present.
\<close>

definition given_up_depth :: "bool \<Rightarrow> pass_state \<Rightarrow> u64 set" where
  "given_up_depth frame_continues st =
     (if frame_continues then {}
      else pp_depth_texture ` {p \<in> set (ps_passes st). pp_depth_texture p \<noteq> 0 \<and> \<not> pp_sampleable p \<and> pp_depth_texture p \<notin> ps_seen_sampled_textures st})"

fun given_up :: "bool \<Rightarrow> pass_state \<Rightarrow> loc \<Rightarrow> bool" where
  "given_up frame_continues st (ColorAt t sub) = False"
| "given_up frame_continues st (SamplesAt t sub) =
     (\<not> frame_continues \<and> ps_backbuffer_contents st = Undefined \<and> t \<noteq> 0 \<and> t = ps_backbuffer_texture st)"
| "given_up frame_continues st (DepthAt t level) = (t \<in> given_up_depth frame_continues st)"
| "given_up frame_continues st (StencilAt t level) = (t \<in> given_up_depth frame_continues st)"

lemma end_discards_refine:
  assumes g: "gpu_ok g views" and rec: "\<forall>p\<in>set (ps_passes st). pass_recorded g views ms hs (ps_seen_sampled_textures st) W p"
  shows "outside (unread_depth (given_up_depth fc st) Map.empty) (exec_passes g views (ps_passes st) m) (exec_passes g views (end_discarded fc st) m)"
    "same_works (ps_passes st) (end_discarded fc st)"
proof -
  obtain ps' tail where d: "discard_last_stores st (ps_passes st) = (ps', tail)" by fastforce
  have "outside (unread_depth (given_up_depth False st) Map.empty) (exec_passes g views (ps_passes st) m) (exec_passes g views ps' m)"
    by (rule discard_last_sim [OF g _ _ d]) (use rec in \<open>auto simp: given_up_depth_def pass_recorded_def outside_def\<close>)
  then show "outside (unread_depth (given_up_depth fc st) Map.empty) (exec_passes g views (ps_passes st) m) (exec_passes g views (end_discarded fc st) m)"
    by (cases fc) (auto simp: end_discarded_def d outside_def)
  show "same_works (ps_passes st) (end_discarded fc st)"
    using discard_last_works [OF d] same_work_refl by (cases fc) (auto simp: end_discarded_def d same_works_def intro: list.rel_refl)
qed

lemma given_up_depth_iff:
  "t \<in> given_up_depth fc st \<longleftrightarrow> \<not> fc \<and> t \<noteq> 0 \<and> t \<notin> ps_seen_sampled_textures st
     \<and> list_ex (\<lambda>p. pp_depth_texture p = t \<and> \<not> pp_sampleable p) (ps_passes st)"
  by (auto simp: given_up_depth_def list_ex_iff)

lemma given_up_depth_load: "given_up_depth fc (finalize_load_actions st) = given_up_depth fc st"
  by (rule set_eqI) (simp add: given_up_depth_iff finalize_load_actions_def list_ex_iff same_work_fields [OF load_if_sampled_work])

lemma finalize_store_passes:
  assumes "end_discarded fc st = ps0" "discard_color_stores (ps_seen_sampled_textures st) ps0 = (ps1, n1)"
    and "discard_stores_before_clears (st\<lparr>ps_passes := ps1\<rparr>) ps1 = (ps2, n2)"
    and "ps3 = map (discard_stencil (note_stencil_writes ps2 (ps_stencil_written_textures st))) ps2"
    and "assign_resolves (\<not> fc \<and> ps_backbuffer_contents st = Undefined \<and> ps_backbuffer_texture st \<noteq> 0) (ps_backbuffer_texture st)
      (map discard_unused_loads ps3) = (ps4, r)"
  shows "ps_passes (finalize_store_actions fc st) = ps4"
proof -
  have e: "(if fc then st else st\<lparr>ps_passes := fst (discard_last_stores st (ps_passes st))\<rparr>) = st\<lparr>ps_passes := ps0\<rparr>"
    using assms(1) by (auto simp: end_discarded_def)
  show ?thesis using assms(2-)
    by (simp add: finalize_store_actions_def e Let_def discard_unwritten_stencil_def assign_multisample_resolves_def del: not_False_eq_True)
qed

section \<open>Rule F\<close>

lemma bound_slots_distinct: "distinct (map fst (bound_color_attachments p))"
  unfolding bound_color_attachments_def by (rule distinct_map_filter) (simp add: enumerate_eq_zip del: zip_Cons)

lemma find_slot:
  assumes "pl \<in> set (planes p)"
  shows "find (\<lambda>pl'. pl_slot pl' = pl_slot pl) (planes p) = Some pl"
proof (rule find_unique [OF assms refl])
  fix pl' assume a: "pl' \<in> set (planes p)" "pl_slot pl' = pl_slot pl"
  have inj: "inj_on fst (set (bound_color_attachments p))" using bound_slots_distinct by (simp add: distinct_map)
  have "pl' = pl" if "x \<in> set (bound_color_attachments p)" "y \<in> set (bound_color_attachments p)" "pl = color_plane x" "pl' = color_plane y" for x y
    using inj_onD [OF inj, of y x] that a(2) by (cases x; cases y) (simp add: color_plane_def)
  then show "pl' = pl" using a assms unfolding planes_def depth_planes_def
    by (auto simp: color_plane_def depth_plane_def stencil_plane_def split: if_splits)
qed

lemma culled_pass:
  assumes "\<not> keeps_pass p"
  shows "exec_pass g views p m \<le> m"
proof (rule le_funI)
  fix l
  have p: "\<not> has_draw p" "pp_leading_blits p = []" "\<not> color_written_without_draws p" "\<not> depth_written_without_draws p"
    "\<And>a. a \<in> set (pp_extra_color p) \<Longrightarrow> ca_is_bound a \<Longrightarrow> \<not> ca_written_without_draws a"
    using assms by (auto simp: keeps_pass_def list_ex_iff)
  have color: "\<not> ca_written_without_draws a" if "(i, a) \<in> set (bound_color_attachments p)" for i a
    using bound_color_in [OF that] p(3,5) by (auto simp: color_written_without_draws_def ca_is_bound_def)
  have pl: "pl_resolve pl = None \<and> (pl_store pl = Store \<longrightarrow> (\<nexists>v. pl_load pl = ClearLoad v))" if "pl \<in> set (planes p)" for pl
    using that color p(4) unfolding planes_def depth_planes_def
    by (auto simp: color_plane_def depth_plane_def stencil_plane_def ca_written_without_draws_def clear_is_stored_def is_cclear_def
        depth_written_without_draws_def is_dclear_def is_sclear_def split: if_splits color_load.splits depth_load.splits stencil_load.splits)
  show "exec_pass g views p m l \<le> m l"
  proof (cases "find (\<lambda>pl. pl_loc pl = l) (planes p)")
    case None
    have "find (\<lambda>pl. map_option fst (pl_resolve pl) = Some l) (planes p) = None" using pl by (auto simp: find_None_iff)
    then show ?thesis using None p(1,2) by (simp add: exec_pass_def store_tile_def run_no_draw has_draw_def)
  next
    case (Some pl')
    then have in': "pl' \<in> set (planes p)" "pl_loc pl' = l" by (auto simp: find_Some_iff)
    have "load_tile g (area_of p) (planes p) m (pl_slot pl') = plane_init g (area_of p) pl' m"
      unfolding load_tile_def find_slot [OF in'(1)] by simp
    moreover have "pl_store pl' = Store \<Longrightarrow> plane_init g (area_of p) pl' m \<le> m l"
      using pl [OF in'(1)] in'(2) by (auto simp: plane_init_def split: plane_load.split)
    ultimately show ?thesis using Some p(1,2) by (simp add: exec_pass_def store_tile_def run_no_draw has_draw_def)
  qed
qed

end
