(* ===== verification/Pass_Correct.thy ===== *)
theory Pass_Correct
  imports Pass_Finalize
begin

text \<open>
  The theorems about the pass rules of a submission, a GPU that tracks only which locations are defined, and
  two small frames: one on which the theorems are applied, and one on which Rule E loses a multisample
  resolve.
\<close>

section \<open>Final load and store actions\<close>

text \<open>
  C2. The final load and store actions keep everything the rest of the program can see. The recorded
  passes, followed by the multisample resolves that are still due, and the passes after
  \<^verbatim>\<open>finalize_load_actions\<close> and \<^verbatim>\<open>finalize_store_actions\<close> are run on the same memory. Every location that
  the recorded passes leave defined has the same contents after the finalized passes, except the depth
  surfaces a presenting frame gives up and the samples of a back buffer that is undefined after the
  present. What the GPU computes is a parameter under the laws \<open>gpu_ok\<close>; the facts the recorder
  maintains are \<open>frame_recorded\<close>, and stencil planes outside the written set are undefined.
\<close>

theorem finalize_refines:
  assumes g: "gpu_ok g (ps_texture_view_to_base st)" and rec: "frame_recorded g ms hs st" and m: "unwritten_stencil (ps_stencil_written_textures st) m"
    and l: "\<not> given_up fc st l"
  shows "settle g (due_after (ps_passes st) Map.empty) (exec_passes g (ps_texture_view_to_base st) (ps_passes st) m) l
    \<le> exec_passes g (ps_texture_view_to_base st) (ps_passes (finalize_store_actions fc (finalize_load_actions st))) m l"
proof -
  let ?views = "ps_texture_view_to_base st" and ?seen = "ps_seen_sampled_textures st" and ?W = "ps_stencil_written_textures st"
  let ?P = "due_after (ps_passes st) Map.empty" and ?bb = "ps_backbuffer_texture st"
  let ?d = "\<not> fc \<and> ps_backbuffer_contents st = Undefined \<and> ?bb \<noteq> 0"
  define st0 where "st0 = finalize_load_actions st"
  have st0: "ps_passes st0 = map (load_if_sampled ?seen) (ps_passes st)" "ps_seen_sampled_textures st0 = ?seen" "ps_texture_view_to_base st0 = ?views"
    "ps_stencil_written_textures st0 = ?W" "ps_backbuffer_texture st0 = ?bb" "ps_backbuffer_contents st0 = ps_backbuffer_contents st"
    by (simp_all add: st0_def finalize_load_actions_def)
  define ps0 where "ps0 = end_discarded fc st0"
  obtain ps1 n1 where c: "discard_color_stores (ps_seen_sampled_textures st0) ps0 = (ps1, n1)" by fastforce
  obtain ps2 n2 where d: "discard_stores_before_clears (st0\<lparr>ps_passes := ps1\<rparr>) ps1 = (ps2, n2)" by fastforce
  define ps3 where ps3: "ps3 = map (discard_stencil (note_stencil_writes ps2 (ps_stencil_written_textures st0))) ps2"
  obtain ps4 r where a: "assign_resolves (\<not> fc \<and> ps_backbuffer_contents st0 = Undefined \<and> ps_backbuffer_texture st0 \<noteq> 0)
      (ps_backbuffer_texture st0) (map discard_unused_loads ps3) = (ps4, r)" by fastforce
  have final: "ps_passes (finalize_store_actions fc st0) = ps4" by (rule finalize_store_passes [OF ps0_def [symmetric] c d ps3 a])
  have recs: "\<forall>p\<in>set (ps_passes st). pass_recorded g ?views ms hs ?seen ?W p" and due: "due_unread ?views Map.empty (ps_passes st)"
    using rec by (simp_all add: frame_recorded_def list_all_iff)
  have wA: "same_works (ps_passes st) (ps_passes st0)" unfolding st0(1) by (rule same_works_map [OF load_if_sampled_work])
  have recA: "\<forall>p\<in>set (ps_passes st0). pass_recorded g ?views ms hs (ps_seen_sampled_textures st0) ?W p" using same_works_recorded [OF wA recs] by (simp add: st0)
  note B = end_discards_refine [OF g recA, of fc, folded ps0_def]
  have rec0: "\<forall>p\<in>set ps0. pass_recorded g ?views ms hs (ps_seen_sampled_textures st0) ?W p" by (rule same_works_recorded [OF B(2) recA])
  note C = discards_refine [OF g rec0 m c d _ ps3 [unfolded st0(4)], simplified]
  let ?ps = "map discard_unused_loads ps3"
  have w: "same_works (ps_passes st) ?ps" using same_works_trans [OF same_works_trans [OF wA B(2)] C(2)] by simp
  let ?D = "unread_depth (given_up_depth fc st) Map.empty"
  have "exec_passes g ?views (ps_passes st) m \<le> exec_passes g ?views (ps_passes st0) m"
    unfolding st0(1) by (rule exec_map_le [OF g load_if_sampled_le [OF g]])
  then have "outside ({} \<union> ?D \<union> {}) (exec_passes g ?views (ps_passes st) m) (exec_passes g ?views ?ps m)"
    using B(1) C(1) by (intro outside_trans) (simp_all add: given_up_depth_load [of fc st, folded st0_def])
  then have main: "outside ?D (settle g ?P (exec_passes g ?views (ps_passes st) m)) (settle g ?P (exec_passes g ?views ?ps m))"
    by (intro settle_outside [OF g]) simp_all
  have "outside (dropped_samples ?d ?bb {}) (settle g (due_after ?ps Map.empty) (exec_passes g ?views ?ps m)) (exec_passes g ?views ps4 m)"
  proof (rule assign_sim [OF g, where ms = ms])
    show "\<forall>p\<in>set ?ps. targets_ok ms p \<and> msaa_ok p" using same_works_recorded [OF w recs] by (simp add: pass_recorded_def)
    show "assign_resolves ?d ?bb ?ps = (ps4, r)" using a by (simp only: st0)
  qed (use due in \<open>simp_all only: same_works_due [OF w]\<close>, simp_all add: due_known_def due_rel_def outside_def)
  then have "outside (dropped_samples ?d ?bb {}) (settle g ?P (exec_passes g ?views ?ps m)) (exec_passes g ?views ps4 m)"
    by (simp only: same_works_due [OF w])
  moreover have "l \<notin> ?D" "l \<notin> dropped_samples ?d ?bb {}" using l by (cases l; simp; blast)+
  ultimately show ?thesis using main final unfolding st0_def outside_def by (meson order_trans)
qed

section \<open>Culled passes\<close>

text \<open>
  C34. Rule F drops only passes that change nothing: on any memory, the passes that
  \<^verbatim>\<open>cull_dead_clear_only_passes\<close> keeps leave every location at least as defined as all of the passes do, and
  with the same contents where those define it.
\<close>

theorem cull_refines:
  assumes g: "gpu_ok g views"
  shows "exec_passes g views (ps_passes st) m \<le> exec_passes g views (ps_passes (cull_dead_clear_only_passes st)) m"
proof -
  have "exec_passes g views ps m \<le> exec_passes g views (filter keeps_pass ps) m" for ps
  proof (induction ps arbitrary: m)
    case (Cons p ps)
    show ?case
    proof (cases "keeps_pass p")
      case False
      have "exec_passes g views ps (exec_pass g views p m) \<le> exec_passes g views ps m"
        by (rule exec_passes_mono [OF g culled_pass [OF False]])
      then show ?thesis using Cons False by (auto intro: order_trans)
    qed (use Cons in simp)
  qed simp
  then show ?thesis by (simp add: cull_dead_clear_only_passes_def)
qed

section \<open>A GPU over definedness\<close>

definition example_copy_source :: "blit_command \<Rightarrow> loc \<Rightarrow> loc option" where
  "example_copy_source b l =
     (if bc_dst_handle b = 0 then None
      else if blit_from_repr (bc_cmd b) = Some CopyTextureToTexture \<and> l = ColorAt (bc_dst_handle b) (sub_of (bc_dst_slice b) (bc_dst_mip_level b))
      then Some (ColorAt (bc_src_handle b) (sub_of (bc_src_slice b) (bc_mip_level b)))
      else if blit_from_repr (bc_cmd b) \<in> {Some CopyTextureToTexture, Some TransferDepth} \<and> l = DepthAt (bc_dst_handle b) (bc_dst_mip_level b)
      then Some (DepthAt (bc_src_handle b) (bc_mip_level b))
      else None)"

definition example_gpu :: "bool gpu" where
  "example_gpu =
     \<lparr>g_clear = (\<lambda>_ _. True), g_part = (\<lambda>_ _ x. x), g_uses = (\<lambda>_ _. {}),
      g_draw = (\<lambda>_ _ _ _ t s. case s of ColorSlot _ \<Rightarrow> True | _ \<Rightarrow> t s),
      g_blit = (\<lambda>b m l. case example_copy_source b l of None \<Rightarrow> m l | Some l' \<Rightarrow> bc_src_handle b \<noteq> 0 \<and> m l'),
      g_resolve = (\<lambda>_ x. x), g_extent = (\<lambda>_ _. (64, 64))\<rparr>"

lemma example_gpu_ok: "gpu_ok example_gpu Map.empty"
proof -
  have "draw_law example_gpu" by (auto simp: draw_law_def example_gpu_def slot_deps_def split: slot.splits)
  moreover have "blit_law example_gpu Map.empty"
    unfolding blit_law_def
  proof (intro allI impI)
    fix b l and m m' :: "bool memory"
    assume a: "agree_on (blit_reads Map.empty b) m m'" "m l \<le> m' l \<or> blit_replaces example_gpu Map.empty b l"
    show "g_blit example_gpu b m l \<le> g_blit example_gpu b m' l"
    proof (cases "example_copy_source b l")
      case None
      then have "\<not> blit_replaces example_gpu Map.empty b l"
        by (auto simp: example_copy_source_def blit_replaces_def base_of_def Let_def split: if_splits)
      then show ?thesis using a(2) None by (simp add: example_gpu_def)
    next
      case (Some l')
      then have "read_through l' = Some (bc_src_handle b)" "blit_from_repr (bc_cmd b) \<in> {Some CopyTextureToTexture, Some TransferDepth}"
        by (auto simp: example_copy_source_def split: if_splits)
      then have "bc_src_handle b \<noteq> 0 \<Longrightarrow> blit_reads Map.empty b = read_through l'"
        by (auto simp: blit_reads_def blit_read_texture_def base_of_def)
      then have "bc_src_handle b \<noteq> 0 \<Longrightarrow> m l' \<le> m' l'" using a(1) \<open>read_through l' = _\<close> unfolding agree_on_def by (metis option.distinct(1))
      then show ?thesis using Some by (auto simp: example_gpu_def)
    qed
  qed
  moreover have "blit_writes_law example_gpu Map.empty"
    by (auto simp: blit_writes_law_def example_gpu_def example_copy_source_def blit_writes_def blit_written_texture_def base_of_def Let_def
        split: option.splits if_splits)
  moreover have "clear_law example_gpu" "resolve_law example_gpu" by (simp_all add: clear_law_def resolve_law_def example_gpu_def)
  ultimately show ?thesis by (simp add: gpu_ok_def)
qed

section \<open>Two frames\<close>

definition example_target :: "u64 \<Rightarrow> u64 \<Rightarrow> color_load \<Rightarrow> color_attachment" where
  "example_target texture msaa load =
     \<lparr>ca_texture = texture, ca_srgb_texture = 0, ca_msaa_texture = msaa, ca_msaa_srgb_texture = 0, ca_resolve_texture = 0,
      ca_subresource = 0, ca_size = (64, 64), ca_format = PfBgra8Unorm, ca_load = load, ca_store = Store\<rparr>"

definition example_pass :: "color_attachment \<Rightarrow> color_attachment \<Rightarrow> depth_load \<Rightarrow> command list \<Rightarrow> blit_command list \<Rightarrow> pass" where
  "example_pass color extra depth cs blits =
     \<lparr>pp_color = color, pp_depth_texture = 20, pp_depth_level = 0, pp_depth_size = (64, 64), pp_depth_load = depth, pp_stencil_load = SLoad,
      pp_depth_store = Store, pp_stencil_store = Store, pp_commands = cs, pp_leading_blits = blits, pp_has_counting_visibility = False,
      pp_visibility_buffer = 0, pp_sampleable = False, pp_has_stencil = False, pp_used = True, pp_stencil_written = False,
      pp_writes_observed = True, pp_first_draw_covers = False, pp_color_clear_quad_ranges = [], pp_extra_color = [extra, ca_none, ca_none]\<rparr>"

definition example_draw :: command where
  "example_draw = \<lparr>cm_cmd = ct_code DrawPrimitives, cm_a = 3, cm_b = 0, cm_c = 3, cm_d = 0\<rparr>"

definition example_state :: "pass list \<Rightarrow> pass_state" where
  "example_state ps =
     \<lparr>ps_passes = ps, ps_texture_view_to_base = Map.empty, ps_frame_sampled_textures = {}, ps_seen_sampled_textures = {},
      ps_stencil_written_textures = {}, ps_upload_pass_end = 0, ps_backbuffer_texture = 0, ps_backbuffer_contents = Preserved\<rparr>"

text \<open>A target drawn and then cleared again, and a multisampled target next to it.\<close>

definition example_frame :: pass_state where
  "example_frame = example_state
     [example_pass (example_target 10 0 CLoad) ca_none (DClear 0) [example_draw] [],
      example_pass (example_target 10 0 (CClear 0 0 0 0)) (example_target 30 31 (CClear 0 0 0 0)) (DClear 0) [example_draw] []]"

text \<open>
  A multisampled target is drawn, a depth clear becomes a pass of its own on the same attachments, and that
  pass takes the resolve for the copy that leads the next pass.
\<close>

definition example_copy :: blit_command where
  "example_copy =
     \<lparr>bc_cmd = 2, bc_mip_level = 0, bc_src_handle = 30, bc_dst_handle = 40, bc_src_offset = 0, bc_bytes_per_row = 0, bc_origin_x = 0,
      bc_origin_y = 0, bc_region_w = 64, bc_region_h = 64, bc_dst_offset = 0, bc_byte_size = 0, bc_depth = 1, bc_bytes_per_image = 0,
      bc_dst_mip_level = 0, bc_dst_slice = 0, bc_src_slice = 0\<rparr>"

definition example_resolve_frame :: pass_state where
  "example_resolve_frame = (example_state
     [example_pass (example_target 30 31 (CClear 0 0 0 0)) ca_none (DClear 0) [example_draw] [],
      example_pass ((example_target 30 31 CLoad)\<lparr>ca_resolve_texture := 30\<rparr>) ca_none (DClear 0) [] [],
      example_pass (example_target 30 31 CLoad) ca_none DLoad [example_draw] [example_copy]])
     \<lparr>ps_seen_sampled_textures := {30}, ps_stencil_written_textures := {40}\<rparr>"

text \<open>The example GPU ignores the encoder state, so its passes evaluate without it.\<close>

definition example_exec :: "pass \<Rightarrow> bool memory \<Rightarrow> bool memory" where
  "example_exec p m =
     (let m1 = fold (g_blit example_gpu) (pp_leading_blits p) m; t = load_tile example_gpu (area_of p) (planes p) m1
      in store_tile example_gpu (planes p) (if has_draw p then (\<lambda>s. case s of ColorSlot _ \<Rightarrow> True | _ \<Rightarrow> t s) else t) m1)"

lemma example_draw_step: "draw_step example_gpu views fr es c m t = (\<lambda>s. case s of ColorSlot _ \<Rightarrow> True | _ \<Rightarrow> t s)"
  by (simp add: draw_step_def Let_def example_gpu_def)

lemma example_run: "run example_gpu views fr es cs m t = (if list_ex is_draw cs then (\<lambda>s. case s of ColorSlot _ \<Rightarrow> True | _ \<Rightarrow> t s) else t)"
  by (induction cs arbitrary: es t) (auto simp: example_draw_step fun_eq_iff split: slot.split)

lemma example_exec_passes: "exec_passes example_gpu views ps m = fold example_exec ps m"
proof -
  have "exec_pass example_gpu views = example_exec"
    by (simp add: fun_eq_iff exec_pass_def example_exec_def example_run has_draw_def Let_def)
  then show ?thesis by (simp add: exec_passes_def)
qed

lemmas example_defs = example_frame_def example_resolve_frame_def example_state_def example_pass_def example_target_def example_draw_def
  example_copy_def ca_none_def ca_is_bound_def

lemma example_recorded:
  "frame_recorded example_gpu (\<lambda>t. t = 30) (\<lambda>_. False) example_frame"
  "frame_recorded example_gpu (\<lambda>t. t = 30) (\<lambda>_. False) example_resolve_frame"
  unfolding frame_recorded_def
  by (simp_all add: example_defs pass_recorded_def reads_seen_def command_sampled_texture_def blit_read_texture_def blit_from_repr_def base_of_def
      unused_ok_def targets_ok_def bound_color_attachments_def msaa_ok_def stencil_ok_def stencil_writes_noted_def is_draw_def draw_keeps_def
      example_draw_step blit_writes_def blit_writes_stencil_def blit_written_texture_def reads_spare_def bind_spares_def)
    (auto simp: blit_spares_def due_locs_def note_pass_def split: if_splits)

text \<open>The first frame, whose clears make the stores before them dead, keeps its multisampled target.\<close>

theorem finalize_refines_witness:
  "frame_recorded example_gpu (\<lambda>t. t = 30) (\<lambda>_. False) example_frame
   \<and> exec_passes example_gpu Map.empty (ps_passes (finalize_store_actions False (finalize_load_actions example_frame))) (\<lambda>_. False) (ColorAt 30 0)"
proof -
  have views: "ps_texture_view_to_base example_frame = Map.empty" by (simp add: example_frame_def example_state_def)
  have "settle example_gpu (due_after (ps_passes example_frame) Map.empty)
      (exec_passes example_gpu Map.empty (ps_passes example_frame) (\<lambda>_. False)) (ColorAt 30 0)"
    unfolding example_exec_passes by code_simp
  then show ?thesis
    using finalize_refines [of example_gpu example_frame "\<lambda>t. t = 30" "\<lambda>_. False" "\<lambda>_. False" False "ColorAt 30 0"] example_gpu_ok example_recorded(1)
    by (simp add: views unwritten_stencil_def)
qed

theorem cull_refines_witness:
  "exec_passes example_gpu Map.empty (ps_passes (cull_dead_clear_only_passes (example_state [example_pass (example_target 10 0 CLoad) ca_none DLoad [] []])))
     (\<lambda>_. True) (ColorAt 10 0)"
proof -
  let ?st = "example_state [example_pass (example_target 10 0 CLoad) ca_none DLoad [] []]"
  have "exec_passes example_gpu Map.empty (ps_passes ?st) (\<lambda>_. True) (ColorAt 10 0)" unfolding example_exec_passes by code_simp
  then show ?thesis using cull_refines [OF example_gpu_ok, of ?st "\<lambda>_. True"] by (auto simp: le_fun_def)
qed

section \<open>Rule E and a recorded resolve\<close>

text \<open>
  C35. Rule E loses a multisample resolve. In the second frame a depth clear became a pass that draws nothing
  and that carries the resolve of the multisampled target the copy of the next pass reads. The frame
  meets everything the recorder guarantees, and the recorded passes copy what was drawn. Rule E looks at
  the clears of such a pass only, folds its depth clear into the next pass and drops it together with
  the resolve, so the copy reads the target before it was resolved; the later rules do not bring the
  resolve back in time.
\<close>

theorem coalesce_loses_resolve:
  "frame_recorded example_gpu (\<lambda>t. t = 30) (\<lambda>_. False) example_resolve_frame
   \<and> exec_passes example_gpu Map.empty (ps_passes example_resolve_frame) (\<lambda>_. False) (ColorAt 40 0)
   \<and> \<not> exec_passes example_gpu Map.empty (ps_passes (coalesce_clear_only_passes example_resolve_frame)) (\<lambda>_. False) (ColorAt 40 0)
   \<and> \<not> exec_passes example_gpu Map.empty (ps_passes (apply_pass_rules Map.empty True example_resolve_frame)) (\<lambda>_. False) (ColorAt 40 0)"
proof (intro conjI)
  show "frame_recorded example_gpu (\<lambda>t. t = 30) (\<lambda>_. False) example_resolve_frame" by (rule example_recorded(2))
  show "exec_passes example_gpu Map.empty (ps_passes example_resolve_frame) (\<lambda>_. False) (ColorAt 40 0)"
    unfolding example_exec_passes by code_simp
  show "\<not> exec_passes example_gpu Map.empty (ps_passes (coalesce_clear_only_passes example_resolve_frame)) (\<lambda>_. False) (ColorAt 40 0)"
    unfolding example_exec_passes by code_simp
  show "\<not> exec_passes example_gpu Map.empty (ps_passes (apply_pass_rules Map.empty True example_resolve_frame)) (\<lambda>_. False) (ColorAt 40 0)"
    unfolding example_exec_passes by code_simp
qed

end
