(* ===== verification/Spec2Isabelle.thy ===== *)
theory Spec2Isabelle
  imports Stage_Upload Buffer_Lock Staging_Coverage Frame_Latency Feedback_Order Upload_Snapshot
    Level_Authority Dxso_Walk Shader_Create Version_Rename Pass_Correct
begin

text \<open>
  Verification of the core of mtld3d, a Direct3D 9 implementation on Metal for Wine.

  \<^bold>\<open>The program.\<close> A Windows half (\<^verbatim>\<open>src/windows\<close>) implements the Direct3D 9 objects: it takes the
  application's locks, writes and draws, decides what must reach the GPU, and records it for a unix
  half (\<^verbatim>\<open>src/unix\<close>), whose encoder turns the records of a frame into Metal command buffers.
  Uploads travel ahead of the draws of their frame; a resource that earlier draws of the frame read
  is renamed instead of overwritten; memory the GPU may still read is kept until the counter of
  finished submissions passes it; uploads of an aborted submission are replayed; and the encoder's
  answers about texture uploads travel back to the API thread. Shaders arrive as Direct3D bytecode,
  are parsed and checked, and are linked by semantic. These mechanisms are what the development
  models; each fails silently, as a wrong picture, when it is wrong.

  \<^bold>\<open>Conventions.\<close> A machine integer is a word of its width, with the arithmetic of the shipped
  profile (overflow checks off, so a plain operator wraps); a \<^verbatim>\<open>usize\<close> that counts elements in memory
  is a natural number. A record or enumeration of the source is a record or datatype with its fields
  or constructors; a method is a function from the state to the state, with the results in front; an
  error or an early return is a value of an option or a sum. What Metal, the allocator, the
  scheduler or the configuration answers is an argument of the definition, so the theorems hold for
  every answer. Where the code iterates over a hash table, the order is an argument too. Log lines
  and performance counters are left out throughout.

  \<^bold>\<open>Buffers.\<close>
  \<^item> \<open>Dirty_Range\<close>: the dirty span of a buffer and the spans draws read (\<^verbatim>\<open>core/src/dirty_range.rs\<close>), and
    the per-frame tracker of drawn spans (\<^verbatim>\<open>DrawnRangeTracker\<close> of \<^verbatim>\<open>core/src/passes.rs\<close>). The dirty span is
    the hull of the locked bytes, and a recorded draw span never misses a byte the draw can fetch.
  \<^item> \<open>Buffer_Lock\<close>: the lock decisions (\<^verbatim>\<open>core/src/buffer_rename.rs\<close>), the CPU backing
    (\<^verbatim>\<open>core/src/buffer_backing.rs\<close>) and \<^verbatim>\<open>Lock\<close>, \<^verbatim>\<open>Unlock\<close> and the mid-lock flush of
    \<^verbatim>\<open>d3d9/src/vertex_buffer.rs\<close>. After an \<^verbatim>\<open>Unlock\<close> or a flush the device copy equals what the
    application wrote, for a backing that is kept and for one that is released and refilled.
  \<^item> \<open>Stage_Upload\<close>: the encoder's side (\<^verbatim>\<open>apply_stage_upload\<close>, the staged branch of
    \<^verbatim>\<open>ensure_vbib_mtl_buffer\<close> in \<^verbatim>\<open>unix/src/encoder.rs\<close>). Hoisting the uploads of a frame before its
    draws, with the rename at overlap, gives every draw the bytes of program order.
  \<^item> \<open>Upload_Recovery\<close>: the replay queue (\<^verbatim>\<open>core/src/upload_recovery.rs\<close>) and the encoder's settle loop.
    Whatever submissions abort, the bytes no queued upload owes are those of a run without aborts.

  \<^bold>\<open>Textures.\<close>
  \<^item> \<open>Dirty_Rect\<close>: rectangle arithmetic (\<^verbatim>\<open>core/src/dirty_rect.rs\<close>), each operation characterised by the set
    of texels it covers.
  \<^item> \<open>Texture_Staging\<close>, \<open>Level_Authority\<close>, \<open>Staging_Coverage\<close>: what a CPU write of a level does with its
    staging, who holds the level's pixels, and when a level may release its staging
    (\<^verbatim>\<open>core/src/texture_staging.rs\<close>, \<^verbatim>\<open>level_authority.rs\<close>, \<^verbatim>\<open>staging_coverage.rs\<close>). The decisions are proved
    against their tables, the snapshot layout against the bytes it copies, and the coverage sweep
    against the set of written texels.
  \<^item> \<open>Upload_Snapshot\<close>: the arena partial uploads copy their box into (\<^verbatim>\<open>core/src/upload_snapshot.rs\<close>). No
    write touches a byte of a live snapshot.
  \<^item> \<open>Upload_Redirty\<close>, \<open>Feedback_Order\<close>: the encoder's answers on their way back
    (\<^verbatim>\<open>core/src/upload_redirty.rs\<close>, \<^verbatim>\<open>upload_redirty/guest.rs\<close>, \<^verbatim>\<open>shared/src/upload_feedback.rs\<close>), as two
    interleaving threads. No answer is lost, and answers are applied in publication order.
  \<^item> \<open>Mtl_Types\<close>, \<open>Stamp_Grid\<close>, \<open>Texture_Versions\<close>, \<open>Version_Rename\<close>: the versions of renamed textures
    (\<^verbatim>\<open>core/src/texture_versions.rs\<close>), first the write history, then the pool, then the encoder's use of
    both (\<^verbatim>\<open>rename_sampled_texture\<close> and its callers in \<^verbatim>\<open>unix/src/encoder.rs\<close>). The pool's accounts are
    exact and its trim ends; the copies planned for a reused version make it equal to the live one;
    and in every state the encoder reaches, a rename leaves the cache with a version that equals the
    old one wherever the upload does not write.

  \<^bold>\<open>Frames.\<close>
  \<^item> \<open>Frame_Latency\<close>: the ring of presents (\<^verbatim>\<open>core/src/frame_latency.rs\<close>, \<^verbatim>\<open>query_fence.rs\<close>) and its callers. A
    \<^verbatim>\<open>Present\<close> that returns leaves at most the enforced number of frames outstanding.
  \<^item> \<open>Pass_Types\<close>, \<open>Pass_Rules\<close>: the recorded passes of a submission (\<^verbatim>\<open>core/src/passes.rs\<close>,
    \<^verbatim>\<open>shared/src/commands.rs\<close>) and the rules A to K that rewrite them, in the order of \<^verbatim>\<open>apply_pass_rules\<close> in
    \<^verbatim>\<open>unix/src/encoder.rs\<close>.
  \<^item> \<open>Pass_Exec\<close>: what a list of passes does to memory. Contents are ordered by definedness, and what
    Metal computes is a parameter under the laws \<open>gpu_ok\<close>.
  \<^item> \<open>Pass_Sim\<close>, \<open>Pass_Stores\<close>, \<open>Pass_Resolve\<close>, \<open>Pass_Finalize\<close>, \<open>Pass_Correct\<close>: one simulation step for passes
    that differ in loads and stores, the dead locations each rule works with, and the result. The
    final load and store actions keep everything a later read can see, the assigned resolves
    included; Rule F drops only passes without effect; and Rule E can drop a resolve, which is a
    proved defect. The hypothesis \<open>frame_recorded\<close> lists what the rules rely on of the recording.
    Rules G to K are definitions that the last theorem runs, without a theorem of their own.

  \<^bold>\<open>Shaders.\<close>
  \<^item> \<open>Dxso_IR\<close>, \<open>Dxso_Parser\<close>, \<open>Dxso_Program\<close>: opcodes, representation and parser
    (\<^verbatim>\<open>core/src/dxso/opcode.rs\<close>, \<^verbatim>\<open>ir.rs\<close>, \<^verbatim>\<open>parser.rs\<close>). The parser is total, reads a definite prefix, gives
    operands in range, and a program that passes the register limits reads no constant outside them.
  \<^item> \<open>Dxso_Walk\<close>: \<^verbatim>\<open>read_shader_bytecode\<close> of \<^verbatim>\<open>d3d9/src/device.rs\<close>, which finds the end of a stream behind a
    bare pointer. It returns exactly the stream the parser reads.
  \<^item> \<open>Dxso_Link\<close>: linkage by semantic (\<^verbatim>\<open>core/src/dxso/link.rs\<close>). The two stages agree on their members.
  \<^item> \<open>Shader_Create\<close>: \<^verbatim>\<open>parse_shader\<close> of \<^verbatim>\<open>core/src/shader_create.rs\<close>, which answers every stream.

  \<^bold>\<open>Shared theories.\<close> \<open>Prelude\<close> has the integers, the generic lemmas, reachability and the locale
  \<open>step_invariant\<close> every state machine interprets; \<open>Ordered_Map\<close> has Rust's \<^verbatim>\<open>BTreeMap\<close>; \<open>D3D9_Types\<close> the
  flag bits. The locales \<open>cover_tracker\<close> (a tracker that never under-covers, interpreted for rectangles
  and for spans) and \<open>token_reader\<close> (a decoder that consumes a prefix, interpreted for the operands and
  for the parser) carry the proofs their clients share.

  \<^bold>\<open>Bounds.\<close> No definition takes fuel. Loops that are not structural are functions with a measure; the
  one whose end is not evident, the trim of the version pool, is a \<^verbatim>\<open>partial_function\<close> and is proved to
  return. Hypotheses on sizes are those of the source: level extents below 2 to the 31, at most 32
  levels, 64-bit counters that do not wrap.

  \<^bold>\<open>Not modelled.\<close>
  \<^item> The Objective-C calls of \<^verbatim>\<open>src/unix/unix/src/metal\<close> and the part of the encoder that only issues them:
    they are effects of Metal, whose meaning is not in the repository.
  \<^item> The emission of Metal shader text (\<^verbatim>\<open>core/src/dxso/emit.rs\<close>, \<^verbatim>\<open>dxso/ff.rs\<close>, \<^verbatim>\<open>ff_state.rs\<close>): its
    correctness is relative to the semantics of the Metal compiler.
  \<^item> The COM layer of \<^verbatim>\<open>src/windows/d3d9/src\<close> beyond the functions named above: vtables, reference counts
    and argument checks around the decision functions that are modelled.
  \<^item> The recording of passes in \<^verbatim>\<open>core/src/passes.rs\<close> (one large state that every device call drives; the
    facts the pass rules need of it are hypotheses), the format tables, the pipeline and sampler caches, the compile queue, configuration, windowing, performance counters
    and crash reports. The manifest lists each file with its reason.
  \<^item> Contents under an aborted submission are modelled for buffer uploads (\<open>Upload_Recovery\<close>,
    \<open>Stage_Upload\<close>) and not for texture versions: \<open>Version_Rename\<close> takes every queued copy as executed.
\<close>

end
